(* ===== verification/Fibers_Prelude.thy ===== *)
theory Fibers_Prelude
  imports Main "HOL-Library.Word" "HOL-Library.Monad_Syntax"
begin

text \<open>
  Shared vocabulary of the development: the C integer types as words, the
  collections of rewrite rules the component theories fill, and the generic
  lemmas on the option monad, on lists and on words that several of them use.

  A C function that may dereference a bad pointer is a function into
  \<^typ>\<open>'a option\<close>: \<^term>\<open>None\<close> stands for a memory fault (a NULL pointer or
  freed memory was dereferenced, or a spin lock is waited for that nobody will
  release), \<^term>\<open>Some r\<close> for a normal return. An error \<^emph>\<open>return\<close> of the code
  (\<open>-1\<close>, \<open>-EFAULT\<close>) is an ordinary value inside \<^term>\<open>Some\<close>.
\<close>

section \<open>C types\<close>

type_synonym pid_t = "32 word"
type_synonym ulong = "64 word"
type_synonym long = "64 word"
type_synonym longlong = "64 word"
type_synonym addr = nat
type_synonym ptr = "addr option"

abbreviation NULL :: ptr where
  "NULL \<equiv> None"

section \<open>Collections\<close>

named_theorems live_simps \<open>what a heap update does to the live objects\<close>

section \<open>The option monad\<close>

lemma bind_SomeE:
  assumes "x \<bind> f = Some y"
  obtains a where "x = Some a" "f a = Some y"
  using assms by (auto simp: bind_eq_Some_conv)

lemma bind_option_cong':
  "x = y \<Longrightarrow> (\<And>a. y = Some a \<Longrightarrow> f a = g a) \<Longrightarrow> x \<bind> f = y \<bind> g"
  by (cases y) auto

section \<open>Lists\<close>

lemma find_Some_in: "find P xs = Some x \<Longrightarrow> x \<in> set xs \<and> P x"
  by (induction xs) (auto split: if_splits)

lemma find_eq_SomeI:
  assumes "x \<in> set xs" "P x" "\<And>y. y \<in> set xs \<Longrightarrow> P y \<Longrightarrow> y = x"
  shows "find P xs = Some x"
proof (cases "find P xs")
  case None
  then show ?thesis using assms(1,2) by (auto simp: find_None_iff)
next
  case (Some y)
  then show ?thesis using find_Some_in [OF Some] assms(3) by metis
qed

lemma find_eq_NoneI: "(\<And>y. y \<in> set xs \<Longrightarrow> \<not> P y) \<Longrightarrow> find P xs = None"
  by (induction xs) auto

lemma concat_map_single:
  "b \<in> set bs \<Longrightarrow> distinct bs \<Longrightarrow> concat (map ((\<lambda>_. [])(b := xs)) bs) = xs"
proof (induction bs)
  case (Cons c bs)
  have other: "b \<notin> set bs \<Longrightarrow> concat (map ((\<lambda>_. [])(b := xs)) bs) = []"
    by auto
  show ?case
    using Cons other by (cases "c = b") auto
qed simp

section \<open>Words\<close>

lemma unat_Suc_word:
  "unat (w :: 'a::len word) + 1 < 2 ^ LENGTH('a) \<Longrightarrow> unat (w + 1) = unat w + 1"
  by (simp add: unat_word_ariths)

lemma unat_ucast_small:
  "unat w < 2 ^ LENGTH('b) \<Longrightarrow> unat (ucast (w :: 'a::len word) :: 'b::len word) = unat w"
  by (simp add: unsigned_ucast_eq take_bit_nat_eq_self)

lemma unat_pred_word: "0 < unat w \<Longrightarrow> unat (w - 1 :: 'a::len word) = unat w - 1"
  by (metis One_nat_def Suc_le_eq unat_1 unat_sub word_le_nat_alt)

lemma sint_eq_uint_pos:
  fixes w :: "'a::len word"
  assumes "0 \<le> sint w"
  shows "sint w = uint w"
proof -
  have "sint w < 2 ^ LENGTH('a)"
    using sint_lt [of w] by (meson diff_le_self less_le_trans one_le_numeral power_increasing)
  then show ?thesis using assms by (simp add: uint_sint take_bit_int_eq_self)
qed

lemma sint_of_nat_small:
  assumes "n < 2 ^ (LENGTH('a) - 1)"
  shows "sint (of_nat n :: 'a::len word) = int n"
proof -
  have "int n < 2 ^ (LENGTH('a) - 1)" using assms by (metis of_nat_less_iff of_nat_numeral of_nat_power)
  then have "signed_take_bit (LENGTH('a) - 1) (int n) = int n"
    by (simp add: signed_take_bit_int_eq_self_iff order_trans [of _ 0])
  then show ?thesis using sint_sbintrunc' [of "int n", where 'a = 'a] by simp
qed

lemma sint_small:
  assumes "unat w < 2 ^ (LENGTH('a) - 1)"
  shows "sint (w :: 'a::len word) = uint w"
  using sint_of_nat_small [OF assms] by simp

lemma sint_pos:
  assumes "0 < unat w" "unat w < 2 ^ (LENGTH('a) - 1)"
  shows "0 < sint (w :: 'a::len word)"
proof -
  have "0 < uint w" using assms(1) by (simp only: unat_eq_nat_uint zero_less_nat_eq)
  then show ?thesis by (simp only: sint_small [OF assms(2)])
qed

lemma upto_ends: "i \<le> j \<Longrightarrow> hd [i..j] = i" "i \<le> j \<Longrightarrow> last [i..j] = j"
  using upto_rec1 [of i j] by simp (simp add: upto_rec2 [of i j])

text \<open>An \<open>int\<close> that was widened to a \<open>long\<close> and is cut back.\<close>

lemma ucast_scast_int: "ucast (scast (q :: 32 word) :: 64 word) = q"
  by transfer (simp add: take_bit_signed_take_bit)

end
