(* ===== verification/Kernel_Api.thy ===== *)
theory Kernel_Api
  imports Fibers_Prelude
begin

text \<open>
  The services of the Linux kernel that the module uses.

  Hash tables (\<^verbatim>\<open>DECLARE_HASHTABLE(name, 10)\<close>) are arrays of 1024 \<open>hlist\<close>
  heads; a table is the function from the bucket number to the addresses of the
  objects chained there, first element first. The \<open>hlist_node\<close> fields of the
  structures are represented by that membership. \<open>hash_add_rcu\<close> pushes at the
  head of the bucket of the key, \<open>hash_del_rcu\<close> unlinks a node,
  \<open>hash_for_each_possible_rcu\<close> walks one bucket, \<open>hash_for_each_rcu\<close> walks the
  buckets in order. The hash function itself is kernel code and a parameter.

  Bitmaps are the predicate of their set bits.
\<close>

section \<open>Parameters: the platform\<close>

text \<open>
  \<^item> \<open>hash_min\<close>: the bucket a key hashes to (\<^verbatim>\<open>hash_min(key, 10)\<close>).
  \<^item> \<open>kmalloc_at\<close>: what the allocator answers to the \<open>n\<close>-th request, given which
    addresses hold live objects; \<^term>\<open>None\<close> is the NULL of a failed request.
  \<^item> \<open>stale_reads\<close>: whether freed memory can still be read, with its old
    contents, until it is allocated again. The slab allocator leaves this open: it
    is so on a production kernel, and a fault with poisoning or KASAN.
\<close>

record kapi =
  hash_min :: "pid_t \<Rightarrow> nat"
  kmalloc_at :: "nat \<Rightarrow> (addr \<Rightarrow> bool) \<Rightarrow> ptr"
  stale_reads :: bool

definition HASH_SIZE :: nat where
  "HASH_SIZE = 1024"

text \<open>What the module relies on: keys hash into the table, and the allocator
  never hands out the address of a live object.\<close>

definition kapi_ok :: "kapi \<Rightarrow> bool" where
  "kapi_ok K \<longleftrightarrow> (\<forall>k. hash_min K k < HASH_SIZE) \<and>
     (\<forall>n used a. kmalloc_at K n used = Some a \<longrightarrow> \<not> used a)"

lemma kapi_ok_hash: "kapi_ok K \<Longrightarrow> hash_min K k < HASH_SIZE"
  by (simp add: kapi_ok_def)

lemma kapi_ok_fresh: "kapi_ok K \<Longrightarrow> kmalloc_at K n used = Some a \<Longrightarrow> \<not> used a"
  unfolding kapi_ok_def by blast

section \<open>Hash tables\<close>

type_synonym hashtable = "nat \<Rightarrow> addr list"

definition hash_init :: hashtable where
  "hash_init = (\<lambda>_. [])"

definition hash_add_rcu :: "(pid_t \<Rightarrow> nat) \<Rightarrow> hashtable \<Rightarrow> addr \<Rightarrow> pid_t \<Rightarrow> hashtable" where
  "hash_add_rcu h ht a k = ht(h k := a # ht (h k))"

definition hash_del_rcu :: "hashtable \<Rightarrow> addr \<Rightarrow> hashtable" where
  "hash_del_rcu ht a = (\<lambda>b. filter (\<lambda>x. x \<noteq> a) (ht b))"

text \<open>The walk of one bucket up to the first match; the test dereferences each
  object it visits, so it may fault.\<close>

fun hash_for_each_possible :: "(addr \<Rightarrow> bool option) \<Rightarrow> addr list \<Rightarrow> ptr option" where
  "hash_for_each_possible m [] = Some NULL"
| "hash_for_each_possible m (a # as) =
     m a \<bind> (\<lambda>hit. if hit then Some (Some a) else hash_for_each_possible m as)"

text \<open>The nodes in the order \<open>hash_for_each_rcu\<close> visits them.\<close>

definition hash_nodes :: "hashtable \<Rightarrow> addr list" where
  "hash_nodes ht = concat (map ht [0..<HASH_SIZE])"

subsection \<open>Tables as sets and as finite maps\<close>

definition nodes :: "hashtable \<Rightarrow> addr set" where
  "nodes ht = (\<Union>b. set (ht b))"

text \<open>A table is in order for a key function (the key field of the object at an
  address) when every node sits once, in the bucket of its key, and no two nodes
  have the same key.\<close>

definition table_ok :: "(pid_t \<Rightarrow> nat) \<Rightarrow> (addr \<Rightarrow> pid_t option) \<Rightarrow> hashtable \<Rightarrow> bool" where
  "table_ok h key ht \<longleftrightarrow>
     (\<forall>b. \<forall>a \<in> set (ht b). \<exists>k. key a = Some k \<and> h k = b) \<and>
     (\<forall>b. distinct (ht b)) \<and>
     (\<forall>a \<in> nodes ht. \<forall>a' \<in> nodes ht. key a = key a' \<longrightarrow> a = a')"

definition table_find :: "(pid_t \<Rightarrow> nat) \<Rightarrow> (addr \<Rightarrow> pid_t option) \<Rightarrow> hashtable \<Rightarrow> pid_t \<Rightarrow> ptr" where
  "table_find h key ht k = find (\<lambda>a. key a = Some k) (ht (h k))"

lemma nodes_init [simp]: "nodes hash_init = {}"
  by (simp add: nodes_def hash_init_def)

lemma nodes_add [simp]: "nodes (hash_add_rcu h ht a k) = insert a (nodes ht)"
  by (auto simp: nodes_def hash_add_rcu_def split: if_splits)

lemma nodes_del [simp]: "nodes (hash_del_rcu ht a) = nodes ht - {a}"
  by (auto simp: nodes_def hash_del_rcu_def)

lemma bucket_in_nodes: "a \<in> set (ht b) \<Longrightarrow> a \<in> nodes ht"
  by (auto simp: nodes_def)

lemma table_okD:
  assumes "table_ok h key ht"
  shows table_ok_key: "a \<in> nodes ht \<Longrightarrow> \<exists>k. key a = Some k \<and> a \<in> set (ht (h k))"
    and table_ok_inj: "a \<in> nodes ht \<Longrightarrow> a' \<in> nodes ht \<Longrightarrow> key a = key a' \<Longrightarrow> a = a'"
    and table_ok_bucket: "a \<in> set (ht b) \<Longrightarrow> \<exists>k. key a = Some k \<and> h k = b"
    and table_ok_distinct: "distinct (ht b)"
  using assms by (auto simp: table_ok_def nodes_def) metis+

lemma table_ok_init [simp]: "table_ok h key hash_init"
  by (simp add: table_ok_def hash_init_def nodes_def)

lemma table_ok_cong:
  assumes "table_ok h key ht" and "\<And>a. a \<in> nodes ht \<Longrightarrow> key' a = key a"
  shows "table_ok h key' ht"
  using assms unfolding table_ok_def by (metis (no_types, lifting) bucket_in_nodes)

lemma table_ok_add:
  assumes ok: "table_ok h key ht" and k: "key a = Some k" and new: "a \<notin> nodes ht"
    and fresh: "\<And>a'. a' \<in> nodes ht \<Longrightarrow> key a' \<noteq> Some k"
  shows "table_ok h key (hash_add_rcu h ht a k)"
proof -
  have "\<forall>a' \<in> set (hash_add_rcu h ht a k b). \<exists>k'. key a' = Some k' \<and> h k' = b" for b
    using table_ok_bucket [OF ok] k by (auto simp: hash_add_rcu_def)
  moreover have "distinct (hash_add_rcu h ht a k b)" for b
    using table_ok_distinct [OF ok] new by (auto simp: hash_add_rcu_def nodes_def)
  moreover have "\<forall>x \<in> nodes (hash_add_rcu h ht a k). \<forall>y \<in> nodes (hash_add_rcu h ht a k).
      key x = key y \<longrightarrow> x = y"
    using table_ok_inj [OF ok] k fresh unfolding nodes_add by (metis insertE)
  ultimately show ?thesis
    unfolding table_ok_def by blast
qed

lemma table_ok_del:
  assumes "table_ok h key ht"
  shows "table_ok h key (hash_del_rcu ht a)"
proof -
  have "set (hash_del_rcu ht a b) \<subseteq> set (ht b)" "distinct (ht b) \<Longrightarrow> distinct (hash_del_rcu ht a b)" for b
    by (auto simp: hash_del_rcu_def)
  then show ?thesis
    using assms unfolding table_ok_def by (auto simp: subset_iff)
qed

lemma table_find_Some:
  assumes ok: "table_ok h key ht"
  shows "table_find h key ht k = Some a \<longleftrightarrow> a \<in> nodes ht \<and> key a = Some k"
proof
  assume "table_find h key ht k = Some a"
  then show "a \<in> nodes ht \<and> key a = Some k"
    unfolding table_find_def by (auto dest: find_Some_in bucket_in_nodes)
next
  assume a: "a \<in> nodes ht \<and> key a = Some k"
  then have "a \<in> set (ht (h k))"
    using table_ok_key [OF ok, of a] by auto
  then show "table_find h key ht k = Some a"
    unfolding table_find_def using a
    by (intro find_eq_SomeI) (auto intro: table_ok_inj [OF ok] bucket_in_nodes)
qed

lemma table_find_None:
  assumes ok: "table_ok h key ht"
  shows "table_find h key ht k = None \<longleftrightarrow> (\<forall>a \<in> nodes ht. key a \<noteq> Some k)"
  using table_find_Some [OF ok, of k] by (metis not_None_eq)

lemma table_find_cong:
  assumes "table_ok h key ht" and "\<And>a. a \<in> nodes ht \<Longrightarrow> key' a = key a"
  shows "table_find h key' ht k = table_find h key ht k"
  unfolding table_find_def
  by (rule find_cong) (auto simp: assms(2) bucket_in_nodes)

text \<open>The walk computes the map lookup when no node on the way faults.\<close>

lemma hash_for_each_possible_find:
  assumes "\<And>a. a \<in> set as \<Longrightarrow> m a = Some (P a)"
  shows "hash_for_each_possible m as = Some (find P as)"
  using assms by (induction as) auto

lemma set_hash_nodes:
  assumes "table_ok h key ht" and "\<And>k. h k < HASH_SIZE"
  shows "set (hash_nodes ht) = nodes ht"
proof
  show "set (hash_nodes ht) \<subseteq> nodes ht"
    by (auto simp: hash_nodes_def nodes_def)
  show "nodes ht \<subseteq> set (hash_nodes ht)"
    using table_ok_key [OF assms(1)] assms(2) by (fastforce simp: hash_nodes_def)
qed

lemma distinct_hash_nodes:
  assumes ok: "table_ok h key ht"
  shows "distinct (hash_nodes ht)"
proof -
  have "distinct (concat (map ht bs))" if "distinct bs" for bs
    using that
  proof (induction bs)
    case (Cons b bs)
    have "set (ht b) \<inter> set (ht c) = {}" if "c \<in> set bs" for c
    proof -
      have "b \<noteq> c" using Cons.prems that by auto
      then show ?thesis using table_ok_bucket [OF ok] by (metis disjoint_iff option.inject)
    qed
    then show ?case
      using Cons table_ok_distinct [OF ok] by auto
  qed simp
  then show ?thesis by (simp add: hash_nodes_def)
qed

lemma finite_nodes:
  assumes "table_ok h key ht" and "\<And>k. h k < HASH_SIZE"
  shows "finite (nodes ht)"
  using set_hash_nodes [OF assms] by (metis List.finite_set)

subsection \<open>The dictionary contract of the tables\<close>

text \<open>The laws a client of a keyed table relies on. The table is described by the
  finite map \<open>lookup\<close>; insertion of a fresh key and removal act on it as on a
  dictionary.\<close>

locale dictionary =
  fixes empty :: 't
    and add :: "'t \<Rightarrow> addr \<Rightarrow> 'k \<Rightarrow> 't"
    and del :: "'t \<Rightarrow> addr \<Rightarrow> 't"
    and lookup :: "'t \<Rightarrow> 'k \<Rightarrow> addr option"
    and keyof :: "addr \<Rightarrow> 'k option"
    and invar :: "'t \<Rightarrow> bool"
  assumes lookup_empty: "lookup empty k = None"
    and invar_empty: "invar empty"
    and lookup_add: "\<lbrakk>invar t; keyof a = Some k; lookup t k = None\<rbrakk> \<Longrightarrow>
          lookup (add t a k) j = (if j = k then Some a else lookup t j)"
    and invar_add: "\<lbrakk>invar t; keyof a = Some k; lookup t k = None\<rbrakk> \<Longrightarrow> invar (add t a k)"
    and lookup_del: "\<lbrakk>invar t; keyof a = Some k\<rbrakk> \<Longrightarrow>
          lookup (del t a) j = (if lookup t j = Some a then None else lookup t j)"
    and invar_del: "invar t \<Longrightarrow> invar (del t a)"
    and lookup_key: "invar t \<Longrightarrow> lookup t k = Some a \<Longrightarrow> keyof a = Some k"
begin

lemma lookup_add_same:
  "\<lbrakk>invar t; keyof a = Some k; lookup t k = None\<rbrakk> \<Longrightarrow> lookup (add t a k) k = Some a"
  by (simp add: lookup_add)

lemma lookup_add_del:
  assumes "invar t" "keyof a = Some k" "lookup t k = None"
  shows "lookup (del (add t a k) a) j = lookup t j"
proof -
  have "lookup t j \<noteq> Some a" if "j \<noteq> k"
    using lookup_key [OF assms(1), of j a] assms(2) that by auto
  then show ?thesis
    using assms(3) by (cases "j = k")
      (simp_all add: lookup_del [OF invar_add [OF assms] assms(2)] lookup_add [OF assms])
qed

lemma lookup_inj: "\<lbrakk>invar t; lookup t k = Some a; lookup t j = Some a\<rbrakk> \<Longrightarrow> k = j"
  using lookup_key [of t k a] lookup_key [of t j a] by simp

end

text \<open>The kernel tables meet the contract, whatever the hash function and whatever
  field is the key.\<close>

interpretation ktab: dictionary hash_init "hash_add_rcu h" hash_del_rcu
  "table_find h key" key "table_ok h key"
  for h :: "pid_t \<Rightarrow> nat" and key :: "addr \<Rightarrow> pid_t option"
proof (unfold_locales, goal_cases)
  case (1 k)
  then show ?case by (simp add: table_find_def hash_init_def)
next
  case 2
  then show ?case by simp
next
  case (3 t a k j)
  then have new: "a \<notin> nodes t" and ok: "table_ok h key (hash_add_rcu h t a k)"
    by (auto simp: table_find_None intro!: table_ok_add)
  show ?case
  proof (cases "j = k")
    case True
    then show ?thesis using 3 table_find_Some [OF ok] by simp
  next
    case False
    then have "table_find h key (hash_add_rcu h t a k) j = Some x \<longleftrightarrow> table_find h key t j = Some x" for x
      using 3 by (auto simp: table_find_Some [OF ok] table_find_Some)
    then show ?thesis using False by (metis not_None_eq)
  qed
next
  case (4 t a k)
  then show ?case by (auto simp: table_find_None intro!: table_ok_add)
next
  case (5 t a k j)
  have ok: "table_ok h key (hash_del_rcu t a)"
    using 5 by (simp add: table_ok_del)
  have "table_find h key (hash_del_rcu t a) j = Some x \<longleftrightarrow>
      table_find h key t j = Some x \<and> x \<noteq> a" for x
    using 5 by (auto simp: table_find_Some [OF ok] table_find_Some)
  then show ?case by (metis not_None_eq option.inject)
next
  case (6 t a)
  then show ?case by (simp add: table_ok_del)
next
  case (7 t k a)
  then show ?case by (simp add: table_find_Some)
qed

section \<open>Bitmaps\<close>

type_synonym bitmap = "nat \<Rightarrow> bool"

definition bitmap_zero :: bitmap where
  "bitmap_zero = (\<lambda>_. False)"

definition test_bit_nr :: "nat \<Rightarrow> bitmap \<Rightarrow> bool" where
  "test_bit_nr n m = m n"

definition change_bit :: "nat \<Rightarrow> bitmap \<Rightarrow> bitmap" where
  "change_bit n m = m(n := \<not> m n)"

function find_next_zero_bit :: "bitmap \<Rightarrow> nat \<Rightarrow> nat \<Rightarrow> nat" where
  "find_next_zero_bit m sz i =
     (if i < sz then (if m i then find_next_zero_bit m sz (Suc i) else i) else sz)"
  by pat_completeness auto
termination
  by (relation "measure (\<lambda>(m, sz, i). sz - i)") auto

declare find_next_zero_bit.simps [simp del]

definition find_first_zero_bit :: "bitmap \<Rightarrow> nat \<Rightarrow> nat" where
  "find_first_zero_bit m sz = find_next_zero_bit m sz 0"

lemma find_next_zero_bit_spec:
  assumes "i \<le> sz"
  shows "i \<le> find_next_zero_bit m sz i" "find_next_zero_bit m sz i \<le> sz"
    and "find_next_zero_bit m sz i < sz \<Longrightarrow> \<not> m (find_next_zero_bit m sz i)"
    and "\<And>j. \<lbrakk>i \<le> j; j < find_next_zero_bit m sz i\<rbrakk> \<Longrightarrow> m j"
proof (atomize (full), insert assms, induction m sz i rule: find_next_zero_bit.induct)
  case (1 m sz i)
  note unfold = find_next_zero_bit.simps [of m sz i]
  show ?case
  proof (cases "i < sz \<and> m i")
    case True
    let ?n = "find_next_zero_bit m sz (Suc i)"
    from True "1.IH" have IH: "Suc i \<le> ?n \<and> ?n \<le> sz \<and> (?n < sz \<longrightarrow> \<not> m ?n) \<and>
        (\<forall>j. Suc i \<le> j \<longrightarrow> j < ?n \<longrightarrow> m j)"
      by simp
    have "m j" if "i \<le> j" "j < ?n" for j
      using True IH that by (cases "j = i") auto
    with True IH show ?thesis
      by (simp add: unfold)
  next
    case False
    with "1.prems" show ?thesis
      by (auto simp: find_next_zero_bit.simps [of m sz i])
  qed
qed

lemma find_first_zero_bit_le: "find_first_zero_bit m sz \<le> sz"
  by (simp add: find_first_zero_bit_def find_next_zero_bit_spec)

lemma find_first_zero_bit_free:
  "find_first_zero_bit m sz < sz \<Longrightarrow> \<not> m (find_first_zero_bit m sz)"
  by (simp add: find_first_zero_bit_def find_next_zero_bit_spec)

lemma find_first_zero_bit_least: "j < find_first_zero_bit m sz \<Longrightarrow> m j"
  by (simp add: find_first_zero_bit_def find_next_zero_bit_spec(4) [of 0])

lemma find_first_zero_bit_full:
  "find_first_zero_bit m sz = sz \<longleftrightarrow> (\<forall>j < sz. m j)"
proof
  assume "find_first_zero_bit m sz = sz"
  then show "\<forall>j < sz. m j" using find_first_zero_bit_least by metis
next
  assume "\<forall>j < sz. m j"
  then show "find_first_zero_bit m sz = sz"
    using find_first_zero_bit_le find_first_zero_bit_free le_neq_implies_less by blast
qed

end
