(* ===== verification/C_Strings.thy ===== *)
theory C_Strings
  imports Fibers_Prelude
begin

text \<open>
  The parts of the C string functions that the module and the user library use:
  printing of decimal and hexadecimal numbers (\<open>snprintf\<close>), reading of decimal
  numbers (\<open>strtol\<close>), \<open>strnlen\<close>, and the splitting of a buffer into lines (\<open>strtok\<close>).
  A string is the list of its characters without the terminating NUL; a
  buffer is the list of all its bytes.
\<close>

section \<open>Printing\<close>

definition digit_char :: "nat \<Rightarrow> char" where
  "digit_char d = char_of (48 + d)"

fun dec_nat :: "nat \<Rightarrow> string" where
  "dec_nat n = (if n < 10 then [digit_char n] else dec_nat (n div 10) @ [digit_char (n mod 10)])"

declare dec_nat.simps [simp del]

definition dec_int :: "int \<Rightarrow> string" where
  "dec_int i = (if i < 0 then CHR ''-'' # dec_nat (nat (- i)) else dec_nat (nat i))"

definition hex_char :: "nat \<Rightarrow> char" where
  "hex_char d = (if d < 10 then digit_char d else char_of (87 + d))"

text \<open>\<open>%016lx\<close>: a 64-bit word has exactly sixteen hexadecimal digits.\<close>

definition hex16 :: "ulong \<Rightarrow> string" where
  "hex16 w = map (\<lambda>i. hex_char (unat w div 16 ^ i mod 16)) (rev [0..<16])"

text \<open>\<open>snprintf\<close> into a buffer of \<open>n\<close> bytes cuts the text off so that the NUL fits.\<close>

definition snprintf :: "nat \<Rightarrow> string \<Rightarrow> string" where
  "snprintf n str = take (n - 1) str"

definition newline :: char where
  "newline = CHR 0x0A"

definition nul :: char where
  "nul = CHR 0x00"

section \<open>Reading\<close>

definition is_digit :: "char \<Rightarrow> bool" where
  "is_digit c \<longleftrightarrow> 48 \<le> (of_char c :: nat) \<and> (of_char c :: nat) \<le> 57"

definition is_space :: "char \<Rightarrow> bool" where
  "is_space c \<longleftrightarrow> c = CHR '' '' \<or> (9 \<le> (of_char c :: nat) \<and> (of_char c :: nat) \<le> 13)"

definition digits_val :: "string \<Rightarrow> nat" where
  "digits_val ds = foldl (\<lambda>v c. 10 * v + (of_char c - 48)) 0 ds"

text \<open>\<open>strtol(str, &end, 10)\<close>: white space, a sign, digits up to the first other
  character; a value outside the range of \<open>long\<close> becomes the nearest bound.\<close>

definition strtol10 :: "string \<Rightarrow> int" where
  "strtol10 str =
     (let r = dropWhile is_space str;
          neg = (r \<noteq> [] \<and> hd r = CHR ''-'');
          r = (if r \<noteq> [] \<and> (hd r = CHR ''-'' \<or> hd r = CHR ''+'') then tl r else r);
          v = int (digits_val (takeWhile is_digit r))
      in max (- (2 ^ 63)) (min (2 ^ 63 - 1) (if neg then - v else v)))"

definition strnlen :: "char list \<Rightarrow> nat \<Rightarrow> nat" where
  "strnlen buf n = length (takeWhile (\<lambda>c. c \<noteq> nul) (take n buf))"

text \<open>One call of \<open>strtok\<close> with the delimiter newline, on what is left of the buffer:
  the token, if there is one, and the rest. \<^term>\<open>None\<close> when the scan meets neither a
  delimiter nor a NUL before the end of the buffer and reads past it.\<close>

definition strtok :: "char list \<Rightarrow> (string option \<times> char list) option" where
  "strtok buf =
     (case dropWhile (\<lambda>c. c = newline) buf of
        [] \<Rightarrow> None
      | c # r \<Rightarrow> if c = nul then Some (None, c # r)
          else (case dropWhile (\<lambda>c. c \<noteq> newline \<and> c \<noteq> nul) (c # r) of
              [] \<Rightarrow> None
            | d # r' \<Rightarrow> Some (Some (takeWhile (\<lambda>c. c \<noteq> newline \<and> c \<noteq> nul) (c # r)),
                if d = nul then d # r' else r')))"

section \<open>Round trips\<close>

lemma digit_char_code: "d < 10 \<Longrightarrow> (of_char (digit_char d) :: nat) = 48 + d"
  by (simp add: digit_char_def)

lemma digits_val_snoc: "digits_val (ds @ [c]) = 10 * digits_val ds + (of_char c - 48)"
  by (simp add: digits_val_def)

lemma digits_val_dec_nat: "digits_val (dec_nat n) = n"
proof (induction n rule: dec_nat.induct)
  case (1 n)
  show ?case
  proof (cases "n < 10")
    case True
    then show ?thesis by (simp add: dec_nat.simps [of n] digits_val_def digit_char_code)
  next
    case False
    then show ?thesis
      using 1 by (simp add: dec_nat.simps [of n] digits_val_snoc digit_char_code)
  qed
qed

lemma dec_nat_inj: "dec_nat m = dec_nat n \<Longrightarrow> m = n"
  by (metis digits_val_dec_nat)

lemma dec_nat_digits: "c \<in> set (dec_nat n) \<Longrightarrow> is_digit c"
proof (induction n rule: dec_nat.induct)
  case (1 n)
  have "is_digit (digit_char (n mod 10))" by (simp add: is_digit_def digit_char_code)
  then show ?case
    using 1 by (cases "n < 10") (auto simp: dec_nat.simps [of n])
qed

lemma dec_nat_nonempty [simp]: "dec_nat n \<noteq> []"
  by (simp add: dec_nat.simps)

lemma length_dec_nat: "n < 10 ^ k \<Longrightarrow> 0 < k \<Longrightarrow> length (dec_nat n) \<le> k"
proof (induction k arbitrary: n)
  case (Suc k)
  show ?case
  proof (cases "n < 10")
    case True
    then show ?thesis by (simp add: dec_nat.simps)
  next
    case False
    then have k: "0 < k" using Suc.prems by (cases k) auto
    have "n div 10 < 10 ^ k" using Suc.prems by (simp add: less_mult_imp_div_less mult.commute)
    then show ?thesis using Suc.IH [of "n div 10"] k False by (simp add: dec_nat.simps [of n])
  qed
qed simp

lemma digit_not_special:
  assumes "is_digit c"
  shows "c \<noteq> newline" "c \<noteq> nul" "\<not> is_space c" "c \<noteq> CHR ''-''" "c \<noteq> CHR ''+''"
  using assms by (auto simp: is_digit_def newline_def nul_def is_space_def)

lemma dec_int_chars: "c \<in> set (dec_int i) \<Longrightarrow> is_digit c \<or> c = CHR ''-''"
  by (auto simp: dec_int_def dest: dec_nat_digits split: if_splits)

lemma dec_int_plain: "c \<in> set (dec_int i) \<Longrightarrow> c \<noteq> newline \<and> c \<noteq> nul"
  using dec_int_chars digit_not_special by (fastforce simp: newline_def nul_def)

lemma dec_int_nonempty [simp]: "dec_int i \<noteq> []"
  by (simp add: dec_int_def)

lemma length_dec_int: "\<bar>i\<bar> < 10 ^ k \<Longrightarrow> 0 < k \<Longrightarrow> length (dec_int i) \<le> Suc k"
  using length_dec_nat [of "nat i" k] length_dec_nat [of "nat (- i)" k]
  by (auto simp: dec_int_def nat_less_iff)

lemma takeWhile_dec_nat: "takeWhile is_digit (dec_nat n) = dec_nat n"
  by (simp add: takeWhile_eq_all_conv dec_nat_digits)

lemma hd_dec_nat: "is_digit (hd (dec_nat n))"
  by (rule dec_nat_digits [of _ n]) simp

lemma dropWhile_hd: "xs \<noteq> [] \<Longrightarrow> \<not> P (hd xs) \<Longrightarrow> dropWhile P xs = xs"
  by (cases xs) auto

lemma strtol10_dec_int:
  assumes "- (2 ^ 63) \<le> i" "i < 2 ^ 63"
  shows "strtol10 (dec_int i) = i"
proof (cases "i < 0")
  case True
  have "\<not> is_space CHR ''-''" by (simp add: is_space_def)
  then show ?thesis
    using True assms by (simp add: strtol10_def dec_int_def takeWhile_dec_nat digits_val_dec_nat Let_def)
next
  case False
  note h = digit_not_special [OF hd_dec_nat [of "nat i"]]
  have "dropWhile is_space (dec_nat (nat i)) = dec_nat (nat i)"
    using h by (intro dropWhile_hd) auto
  then show ?thesis
    using False assms h by (simp add: strtol10_def dec_int_def takeWhile_dec_nat digits_val_dec_nat Let_def)
qed

lemma strtok_line:
  assumes "tok \<noteq> []" "\<And>c. c \<in> set tok \<Longrightarrow> c \<noteq> newline \<and> c \<noteq> nul"
  shows "strtok (tok @ newline # rest) = Some (Some tok, rest)"
proof -
  have nn: "newline \<noteq> nul" by (simp add: newline_def nul_def)
  obtain c r where tok: "tok = c # r" using assms(1) by (cases tok) auto
  have "takeWhile (\<lambda>c. c \<noteq> newline \<and> c \<noteq> nul) (tok @ newline # rest) = tok"
    "dropWhile (\<lambda>c. c \<noteq> newline \<and> c \<noteq> nul) (tok @ newline # rest) = newline # rest"
    using assms(2) by (simp_all add: takeWhile_append2 dropWhile_append2)
  then show ?thesis
    using assms(2) nn by (simp add: strtok_def tok)
qed

end
