(* ===== verification/Fiber_State.thy ===== *)
theory Fiber_State
  imports Kernel_Api C_Strings
begin

text \<open>
  The data structures of the module (\<^verbatim>\<open>module/fibers.h\<close>), the kernel heap they
  live in, and the constructors of \<^verbatim>\<open>module/init.h\<close>.

  Structures are records, kept in one heap from addresses to objects. An object
  that was passed to \<open>kfree\<close> stays in the heap as \<open>Freed\<close> until its address is
  allocated again, so that a use after free is visible. The \<open>hlist_node\<close> fields
  are represented by the bucket lists of \<^typ>\<open>hashtable\<close>, a spin lock by whether
  it is held. The field \<open>flags\<close> of \<^verbatim>\<open>struct fiber\<close>, which no code reads or writes,
  is left out.
\<close>

section \<open>Structures\<close>

definition MAX_FLS_POINTERS :: nat where
  "MAX_FLS_POINTERS = 4096"

definition DEFAULT_STACK_SIZE :: ulong where
  "DEFAULT_STACK_SIZE = 1"

text \<open>The saved registers: the fields the module uses by name, and the rest of the
  structure, which it only copies.\<close>

record pt_regs =
  sp :: ulong
  bp :: ulong
  ip :: ulong
  di :: ulong
  si :: ulong
  other_regs :: "ulong list"

text \<open>The FPU register image is copied as a whole and never inspected.\<close>

type_synonym fxregs = "ulong list"

record fiber =
  fiber_lock :: bool
  fiber_id :: pid_t
  name :: string
  attached_thread :: ptr
  parent_process :: ptr
  registers :: pt_regs
  fpu :: fxregs
  fiber_stack :: ulong
  fiber_stack_size :: ulong
  fls :: "nat \<Rightarrow> longlong"
  fls_bitmap :: bitmap
  start_address :: ulong
  creator_thread :: pid_t
  activation_counter :: ulong
  failed_activation_counter :: ulong
  total_time :: ulong

record process =
  process_id :: pid_t
  last_fiber_id :: long
  active_threads :: long
  threads :: hashtable
  fibers :: hashtable

record thread =
  thread_id :: pid_t
  parent :: ptr
  selected_fiber :: ptr

datatype kobj = OProcess process | OThread thread | OFiber fiber

datatype cell = Live kobj | Freed kobj

text \<open>A task of the kernel: what \<open>current\<close> points to, the user registers saved on
  its kernel stack and the FPU registers it runs with.\<close>

record task =
  task_pid :: pid_t
  task_tgid :: pid_t
  utime :: ulong
  user_regs :: pt_regs
  fx :: fxregs

text \<open>The state of the module. \<open>allocs\<close> counts the requests to \<open>kmalloc\<close>;
  \<open>slept_in_atomic\<close> records that a sleeping allocation was made while
  \<open>struct_process_lock\<close> was held.\<close>

record kstate =
  heap :: "addr \<rightharpoonup> cell"
  processes :: hashtable
  struct_process_lock :: bool
  allocs :: nat
  slept_in_atomic :: bool
  tasks :: "pid_t \<rightharpoonup> task"

section \<open>Heap access\<close>

definition is_live :: "kstate \<Rightarrow> addr \<Rightarrow> bool" where
  "is_live s a \<longleftrightarrow> (\<exists>x. heap s a = Some (Live x))"

lemma is_live_code [code]:
  "is_live s a = (case heap s a of Some (Live x) \<Rightarrow> True | _ \<Rightarrow> False)"
  by (auto simp: is_live_def split: option.split cell.split)

definition get_obj :: "kapi \<Rightarrow> kstate \<Rightarrow> addr \<Rightarrow> kobj option" where
  "get_obj K s a = (case heap s a of
       None \<Rightarrow> None
     | Some (Live x) \<Rightarrow> Some x
     | Some (Freed x) \<Rightarrow> if stale_reads K then Some x else None)"

definition get_process :: "kapi \<Rightarrow> kstate \<Rightarrow> addr \<Rightarrow> process option" where
  "get_process K s a = (case get_obj K s a of Some (OProcess p) \<Rightarrow> Some p | _ \<Rightarrow> None)"

definition get_thread :: "kapi \<Rightarrow> kstate \<Rightarrow> addr \<Rightarrow> thread option" where
  "get_thread K s a = (case get_obj K s a of Some (OThread t) \<Rightarrow> Some t | _ \<Rightarrow> None)"

definition get_fiber :: "kapi \<Rightarrow> kstate \<Rightarrow> addr \<Rightarrow> fiber option" where
  "get_fiber K s a = (case get_obj K s a of Some (OFiber f) \<Rightarrow> Some f | _ \<Rightarrow> None)"

definition store :: "kstate \<Rightarrow> addr \<Rightarrow> kobj \<Rightarrow> kstate" where
  "store s a x = s\<lparr>heap := (heap s)(a \<mapsto> Live x)\<rparr>"

text \<open>The object at an address when it is live, whatever the platform does with
  freed memory.\<close>

definition live_process :: "kstate \<Rightarrow> addr \<Rightarrow> process option" where
  "live_process s a = (case heap s a of Some (Live (OProcess p)) \<Rightarrow> Some p | _ \<Rightarrow> None)"

definition live_thread :: "kstate \<Rightarrow> addr \<Rightarrow> thread option" where
  "live_thread s a = (case heap s a of Some (Live (OThread t)) \<Rightarrow> Some t | _ \<Rightarrow> None)"

definition live_fiber :: "kstate \<Rightarrow> addr \<Rightarrow> fiber option" where
  "live_fiber s a = (case heap s a of Some (Live (OFiber f)) \<Rightarrow> Some f | _ \<Rightarrow> None)"

text \<open>A write through a pointer needs a live object of the right type.\<close>

definition upd_process :: "kstate \<Rightarrow> addr \<Rightarrow> (process \<Rightarrow> process) \<Rightarrow> kstate option" where
  "upd_process s a g = live_process s a \<bind> (\<lambda>p. Some (store s a (OProcess (g p))))"

definition upd_thread :: "kstate \<Rightarrow> addr \<Rightarrow> (thread \<Rightarrow> thread) \<Rightarrow> kstate option" where
  "upd_thread s a g = live_thread s a \<bind> (\<lambda>t. Some (store s a (OThread (g t))))"

definition upd_fiber :: "kstate \<Rightarrow> addr \<Rightarrow> (fiber \<Rightarrow> fiber) \<Rightarrow> kstate option" where
  "upd_fiber s a g = live_fiber s a \<bind> (\<lambda>f. Some (store s a (OFiber (g f))))"

text \<open>\<open>kmalloc(size, GFP_KERNEL)\<close> may sleep; its callers here never test for NULL, so
  that a failed request faults at their first write.\<close>

definition kmalloc :: "kapi \<Rightarrow> kstate \<Rightarrow> ptr \<times> kstate" where
  "kmalloc K s = (kmalloc_at K (allocs s) (is_live s),
     s\<lparr>allocs := Suc (allocs s),
       slept_in_atomic := (slept_in_atomic s \<or> struct_process_lock s)\<rparr>)"

definition kfree :: "kstate \<Rightarrow> addr \<Rightarrow> kstate option" where
  "kfree s a = (case heap s a of
       Some (Live x) \<Rightarrow> Some (s\<lparr>heap := (heap s)(a \<mapsto> Freed x)\<rparr>)
     | _ \<Rightarrow> None)"

text \<open>\<open>hash_for_each_rcu(table, i, obj, node) kfree(obj);\<close> the loop reads the node's
  \<open>next\<close> pointer out of the object the body has just freed.\<close>

fun kfree_each :: "kapi \<Rightarrow> addr list \<Rightarrow> kstate \<Rightarrow> kstate option" where
  "kfree_each K [] s = Some s"
| "kfree_each K (a # as) s = do {
     s \<leftarrow> kfree s a;
     _ \<leftarrow> get_obj K s a;
     kfree_each K as s }"

definition spin_lock_struct_process :: "kstate \<Rightarrow> kstate option" where
  "spin_lock_struct_process s =
     (if struct_process_lock s then None else Some (s\<lparr>struct_process_lock := True\<rparr>))"

definition spin_unlock_struct_process :: "kstate \<Rightarrow> kstate" where
  "spin_unlock_struct_process s = s\<lparr>struct_process_lock := False\<rparr>"

definition set_task :: "kstate \<Rightarrow> pid_t \<Rightarrow> task \<Rightarrow> kstate" where
  "set_task s me t = s\<lparr>tasks := (tasks s)(me \<mapsto> t)\<rparr>"

section \<open>Constructors\<close>

definition init_process :: "kapi \<Rightarrow> pid_t \<Rightarrow> kstate \<Rightarrow> (addr \<times> kstate) option" where
  "init_process K me s = do {
     cur \<leftarrow> tasks s me;
     let (p, s) = kmalloc K s;
     p \<leftarrow> p;
     let s = store s p (OProcess
       \<lparr>process_id = task_tgid cur, last_fiber_id = 0, active_threads = 0,
        threads = hash_init, fibers = hash_init\<rparr>);
     Some (p, s\<lparr>processes := hash_add_rcu (hash_min K) (processes s) p (task_tgid cur)\<rparr>) }"

definition init_thread :: "kapi \<Rightarrow> addr \<Rightarrow> pid_t \<Rightarrow> kstate \<Rightarrow> (addr \<times> kstate) option" where
  "init_thread K pp tid s = do {
     let (t, s) = kmalloc K s;
     t \<leftarrow> t;
     let s = store s t (OThread
       \<lparr>thread_id = tid, parent = Some pp, selected_fiber = NULL\<rparr>);
     s \<leftarrow> upd_process s pp (\<lambda>p. p\<lparr>active_threads := active_threads p + 1,
       threads := hash_add_rcu (hash_min K) (threads p) t tid\<rparr>);
     Some (t, s) }"

text \<open>\<open>ss\<close> is the stack size as the macro's caller passes it: an unsigned long for
  \<open>do_CreateFiber\<close>, the constant \<open>-1\<close> for \<open>do_ConvertThreadToFiber\<close>.\<close>

definition new_fiber :: "task \<Rightarrow> addr \<Rightarrow> int \<Rightarrow> ulong \<Rightarrow> pid_t \<Rightarrow> fiber" where
  "new_fiber cur pp ss s_ptr fid =
     (let stack_size = (if ss \<ge> 0 then word_of_int ss else DEFAULT_STACK_SIZE);
          top = s_ptr + stack_size - 8
      in \<lparr>fiber_lock = False, fiber_id = fid,
          name = snprintf 256 (dec_int (sint fid)),
          attached_thread = NULL, parent_process = Some pp,
          registers = (user_regs cur)\<lparr>sp := top, bp := top\<rparr>,
          fpu = fx cur, fiber_stack = s_ptr, fiber_stack_size = stack_size,
          fls = (\<lambda>_. 0), fls_bitmap = bitmap_zero,
          start_address = ip (user_regs cur), creator_thread = task_pid cur,
          activation_counter = 0, failed_activation_counter = 0, total_time = 0\<rparr>)"

definition init_fiber :: "kapi \<Rightarrow> pid_t \<Rightarrow> addr \<Rightarrow> int \<Rightarrow> ulong \<Rightarrow> kstate \<Rightarrow> (addr \<times> kstate) option" where
  "init_fiber K me pp ss s_ptr s = do {
     cur \<leftarrow> tasks s me;
     let (f, s) = kmalloc K s;
     f \<leftarrow> f;
     p \<leftarrow> get_process K s pp;
     let fid = ucast (last_fiber_id p + 1);
     s \<leftarrow> upd_process s pp (\<lambda>p. p\<lparr>last_fiber_id := last_fiber_id p + 1,
       fibers := hash_add_rcu (hash_min K) (fibers p) f fid\<rparr>);
     Some (f, store s f (OFiber (new_fiber cur pp ss s_ptr fid))) }"

end
