(* ===== verification/Fiber_Inv.thy ===== *)
theory Fiber_Inv
  imports Fiber_State
begin

text \<open>
  The look-up functions of \<^verbatim>\<open>module/fibers.c\<close> and the invariant of the module's
  data structures: the three levels of hash tables are in order, the pointers
  between processes, threads and fibers agree with each other, the lock of a fiber
  is held exactly while the fiber is attached to a thread, the counters count, and
  every live object is reachable from the table of processes.

  The frame rules at the end reduce the preservation of the invariant by an
  operation on one process to the well-formedness of that process.
\<close>

section \<open>Look-up functions\<close>

definition find_process_by_tgid :: "kapi \<Rightarrow> pid_t \<Rightarrow> kstate \<Rightarrow> ptr option" where
  "find_process_by_tgid K tgid s =
     hash_for_each_possible
       (\<lambda>a. do { ep \<leftarrow> get_process K s a; Some (process_id ep = tgid) })
       (processes s (hash_min K tgid))"

definition find_thread_by_pid :: "kapi \<Rightarrow> pid_t \<Rightarrow> addr \<Rightarrow> kstate \<Rightarrow> ptr option" where
  "find_thread_by_pid K pid ep s = do {
     p \<leftarrow> get_process K s ep;
     hash_for_each_possible
       (\<lambda>a. do { tp \<leftarrow> get_thread K s a; Some (thread_id tp = pid) })
       (threads p (hash_min K pid)) }"

definition find_fiber_by_id :: "kapi \<Rightarrow> pid_t \<Rightarrow> addr \<Rightarrow> kstate \<Rightarrow> ptr option" where
  "find_fiber_by_id K fid ep s = do {
     p \<leftarrow> get_process K s ep;
     hash_for_each_possible
       (\<lambda>a. do { fp \<leftarrow> get_fiber K s a; Some (fiber_id fp = fid) })
       (fibers p (hash_min K fid)) }"

section \<open>Live objects\<close>

lemma live_store [live_simps]:
  "live_process (store s a x) b = (if b = a then (case x of OProcess p \<Rightarrow> Some p | _ \<Rightarrow> None) else live_process s b)"
  "live_thread (store s a x) b = (if b = a then (case x of OThread t \<Rightarrow> Some t | _ \<Rightarrow> None) else live_thread s b)"
  "live_fiber (store s a x) b = (if b = a then (case x of OFiber f \<Rightarrow> Some f | _ \<Rightarrow> None) else live_fiber s b)"
  "is_live (store s a x) b = (b = a \<or> is_live s b)"
  by (auto simp: live_process_def live_thread_def live_fiber_def store_def is_live_def split: kobj.splits)

lemma store_fields [simp]:
  "processes (store s a x) = processes s"
  "tasks (store s a x) = tasks s"
  "struct_process_lock (store s a x) = struct_process_lock s"
  "slept_in_atomic (store s a x) = slept_in_atomic s"
  "allocs (store s a x) = allocs s"
  "heap (store s a x) = (heap s)(a \<mapsto> Live x)"
  by (simp_all add: store_def)

lemma live_other_fields [simp]:
  "live_process (s\<lparr>processes := ps\<rparr>) = live_process s" "live_thread (s\<lparr>processes := ps\<rparr>) = live_thread s"
  "live_fiber (s\<lparr>processes := ps\<rparr>) = live_fiber s" "is_live (s\<lparr>processes := ps\<rparr>) = is_live s"
  "live_process (s\<lparr>tasks := ts\<rparr>) = live_process s" "live_thread (s\<lparr>tasks := ts\<rparr>) = live_thread s"
  "live_fiber (s\<lparr>tasks := ts\<rparr>) = live_fiber s" "is_live (s\<lparr>tasks := ts\<rparr>) = is_live s"
  "live_process (s\<lparr>struct_process_lock := l\<rparr>) = live_process s" "live_thread (s\<lparr>struct_process_lock := l\<rparr>) = live_thread s"
  "live_fiber (s\<lparr>struct_process_lock := l\<rparr>) = live_fiber s" "is_live (s\<lparr>struct_process_lock := l\<rparr>) = is_live s"
  "live_process (s\<lparr>allocs := n, slept_in_atomic := b\<rparr>) = live_process s"
  "live_thread (s\<lparr>allocs := n, slept_in_atomic := b\<rparr>) = live_thread s"
  "live_fiber (s\<lparr>allocs := n, slept_in_atomic := b\<rparr>) = live_fiber s"
  "is_live (s\<lparr>allocs := n, slept_in_atomic := b\<rparr>) = is_live s"
  by (simp_all add: live_process_def live_thread_def live_fiber_def is_live_def fun_eq_iff)

lemma live_is_live:
  "live_process s a = Some p \<Longrightarrow> is_live s a"
  "live_thread s a = Some t \<Longrightarrow> is_live s a"
  "live_fiber s a = Some f \<Longrightarrow> is_live s a"
  by (auto simp: live_process_def live_thread_def live_fiber_def is_live_def
      split: option.splits cell.splits kobj.splits)

lemma live_types_differ:
  "live_process s a = Some p \<Longrightarrow> live_thread s b = Some t \<Longrightarrow> a \<noteq> b"
  "live_process s a = Some p \<Longrightarrow> live_fiber s b = Some f \<Longrightarrow> a \<noteq> b"
  "live_thread s a = Some t \<Longrightarrow> live_fiber s b = Some f \<Longrightarrow> a \<noteq> b"
  by (auto simp: live_process_def live_thread_def live_fiber_def
      split: option.splits cell.splits kobj.splits)

lemma get_live:
  "live_process s a = Some p \<Longrightarrow> get_process K s a = Some p"
  "live_thread s a = Some t \<Longrightarrow> get_thread K s a = Some t"
  "live_fiber s a = Some f \<Longrightarrow> get_fiber K s a = Some f"
  by (auto simp: live_process_def live_thread_def live_fiber_def get_obj_def
      get_process_def get_thread_def get_fiber_def split: option.splits cell.splits kobj.splits)

lemma heap_live:
  "live_process s a = Some p \<longleftrightarrow> heap s a = Some (Live (OProcess p))"
  "live_thread s a = Some t \<longleftrightarrow> heap s a = Some (Live (OThread t))"
  "live_fiber s a = Some f \<longleftrightarrow> heap s a = Some (Live (OFiber f))"
  by (auto simp: live_process_def live_thread_def live_fiber_def
      split: option.splits cell.splits kobj.splits)

section \<open>The invariant\<close>

definition pkey :: "kstate \<Rightarrow> addr \<Rightarrow> pid_t option" where
  "pkey s a = map_option process_id (live_process s a)"

definition tkey :: "kstate \<Rightarrow> addr \<Rightarrow> pid_t option" where
  "tkey s a = map_option thread_id (live_thread s a)"

definition fkey :: "kstate \<Rightarrow> addr \<Rightarrow> pid_t option" where
  "fkey s a = map_option fiber_id (live_fiber s a)"

text \<open>A converted thread: it belongs to its process and runs one of its fibers,
  which is attached to it.\<close>

definition thread_ok :: "kstate \<Rightarrow> addr \<Rightarrow> process \<Rightarrow> addr \<Rightarrow> thread \<Rightarrow> bool" where
  "thread_ok s a p t th \<longleftrightarrow> parent th = Some a \<and>
     (\<exists>f fb. selected_fiber th = Some f \<and> f \<in> nodes (fibers p) \<and>
        live_fiber s f = Some fb \<and> attached_thread fb = Some t)"

text \<open>A fiber: it belongs to its process, its lock is held exactly while it is
  attached, a thread it is attached to is a thread of the process that runs it,
  and its number and name are the ones the process gave it.\<close>

definition fiber_ok :: "kstate \<Rightarrow> addr \<Rightarrow> process \<Rightarrow> addr \<Rightarrow> fiber \<Rightarrow> bool" where
  "fiber_ok s a p f fb \<longleftrightarrow> parent_process fb = Some a \<and>
     (fiber_lock fb \<longleftrightarrow> attached_thread fb \<noteq> NULL) \<and>
     (\<forall>t. attached_thread fb = Some t \<longrightarrow> t \<in> nodes (threads p) \<and>
        (\<exists>th. live_thread s t = Some th \<and> selected_fiber th = Some f)) \<and>
     0 < unat (fiber_id fb) \<and> unat (fiber_id fb) \<le> unat (last_fiber_id p) \<and>
     name fb = snprintf 256 (dec_int (sint (fiber_id fb)))"

definition threads_ok :: "kapi \<Rightarrow> kstate \<Rightarrow> addr \<Rightarrow> process \<Rightarrow> bool" where
  "threads_ok K s a p \<longleftrightarrow> table_ok (hash_min K) (tkey s) (threads p) \<and>
     (\<forall>t \<in> nodes (threads p). \<exists>th. live_thread s t = Some th \<and> thread_ok s a p t th) \<and>
     unat (active_threads p) = card (nodes (threads p))"

definition fibers_ok :: "kapi \<Rightarrow> kstate \<Rightarrow> addr \<Rightarrow> process \<Rightarrow> bool" where
  "fibers_ok K s a p \<longleftrightarrow> table_ok (hash_min K) (fkey s) (fibers p) \<and>
     (\<forall>f \<in> nodes (fibers p). \<exists>fb. live_fiber s f = Some fb \<and> fiber_ok s a p f fb) \<and>
     card (nodes (fibers p)) = unat (last_fiber_id p) \<and> unat (last_fiber_id p) < 2 ^ 31"

definition process_ok :: "kapi \<Rightarrow> kstate \<Rightarrow> addr \<Rightarrow> bool" where
  "process_ok K s a \<longleftrightarrow>
     (\<exists>p. live_process s a = Some p \<and> threads_ok K s a p \<and> fibers_ok K s a p)"

text \<open>The objects reachable from a registered process.\<close>

definition owned :: "kstate \<Rightarrow> addr \<Rightarrow> addr set" where
  "owned s a = insert a (case live_process s a of None \<Rightarrow> {}
     | Some p \<Rightarrow> nodes (threads p) \<union> nodes (fibers p))"

definition kinv :: "kapi \<Rightarrow> kstate \<Rightarrow> bool" where
  "kinv K s \<longleftrightarrow> table_ok (hash_min K) (pkey s) (processes s) \<and>
     (\<forall>a \<in> nodes (processes s). process_ok K s a) \<and>
     (\<forall>x. is_live s x \<longrightarrow> (\<exists>a \<in> nodes (processes s). x \<in> owned s a)) \<and>
     \<not> struct_process_lock s"

subsection \<open>Consequences\<close>

lemma inv_process:
  assumes "kinv K s" "a \<in> nodes (processes s)"
  obtains p where "live_process s a = Some p" "threads_ok K s a p" "fibers_ok K s a p"
  using assms by (auto simp: kinv_def process_ok_def)

lemma threads_okD:
  assumes "threads_ok K s a p" "t \<in> nodes (threads p)"
  obtains th f fb where "live_thread s t = Some th" "parent th = Some a"
    "selected_fiber th = Some f" "f \<in> nodes (fibers p)"
    "live_fiber s f = Some fb" "attached_thread fb = Some t"
  using assms by (fastforce simp: threads_ok_def thread_ok_def)

lemma fibers_okD:
  assumes "fibers_ok K s a p" "f \<in> nodes (fibers p)"
  obtains fb where "live_fiber s f = Some fb" "fiber_ok s a p f fb"
  using assms by (auto simp: fibers_ok_def)

subsection \<open>The look-ups are map look-ups\<close>

definition proc_of :: "kapi \<Rightarrow> kstate \<Rightarrow> pid_t \<Rightarrow> ptr" where
  "proc_of K s = table_find (hash_min K) (pkey s) (processes s)"

definition thread_of :: "kapi \<Rightarrow> kstate \<Rightarrow> process \<Rightarrow> pid_t \<Rightarrow> ptr" where
  "thread_of K s p = table_find (hash_min K) (tkey s) (threads p)"

definition fiber_of :: "kapi \<Rightarrow> kstate \<Rightarrow> process \<Rightarrow> pid_t \<Rightarrow> ptr" where
  "fiber_of K s p = table_find (hash_min K) (fkey s) (fibers p)"

lemma find_process_eq:
  assumes "kinv K s"
  shows "find_process_by_tgid K tgid s = Some (proc_of K s tgid)"
  unfolding find_process_by_tgid_def proc_of_def table_find_def
proof (rule hash_for_each_possible_find)
  fix a
  assume "a \<in> set (processes s (hash_min K tgid))"
  then obtain p where "live_process s a = Some p"
    using assms by (auto elim: inv_process dest: bucket_in_nodes)
  then show "(do { ep \<leftarrow> get_process K s a; Some (process_id ep = tgid) }) = Some (pkey s a = Some tgid)"
    by (simp add: get_live pkey_def)
qed

lemma find_thread_eq:
  assumes "threads_ok K s a p" "live_process s a = Some p"
  shows "find_thread_by_pid K pid a s = Some (thread_of K s p pid)"
proof -
  have "(do { tp \<leftarrow> get_thread K s t; Some (thread_id tp = pid) }) = Some (tkey s t = Some pid)"
    if "t \<in> set (threads p (hash_min K pid))" for t
  proof -
    have "t \<in> nodes (threads p)" using that by (rule bucket_in_nodes)
    then obtain th where "live_thread s t = Some th" using threads_okD [OF assms(1)] by metis
    then show ?thesis by (simp add: get_live tkey_def)
  qed
  then show ?thesis
    unfolding find_thread_by_pid_def thread_of_def table_find_def
    by (simp add: get_live assms(2) hash_for_each_possible_find)
qed

lemma find_fiber_eq:
  assumes "fibers_ok K s a p" "live_process s a = Some p"
  shows "find_fiber_by_id K fid a s = Some (fiber_of K s p fid)"
proof -
  have "(do { fp \<leftarrow> get_fiber K s f; Some (fiber_id fp = fid) }) = Some (fkey s f = Some fid)"
    if "f \<in> set (fibers p (hash_min K fid))" for f
  proof -
    have "f \<in> nodes (fibers p)" using that by (rule bucket_in_nodes)
    then obtain fb where "live_fiber s f = Some fb" using fibers_okD [OF assms(1)] by metis
    then show ?thesis by (simp add: get_live fkey_def)
  qed
  then show ?thesis
    unfolding find_fiber_by_id_def fiber_of_def table_find_def
    by (simp add: get_live assms(2) hash_for_each_possible_find)
qed

lemma proc_of_Some:
  assumes "kinv K s"
  shows "proc_of K s tgid = Some a \<longleftrightarrow>
    a \<in> nodes (processes s) \<and> (\<exists>p. live_process s a = Some p \<and> process_id p = tgid)"
  using assms by (auto simp: proc_of_def table_find_Some kinv_def pkey_def)

lemma thread_of_Some:
  assumes "threads_ok K s a p"
  shows "thread_of K s p pid = Some t \<longleftrightarrow>
    t \<in> nodes (threads p) \<and> (\<exists>th. live_thread s t = Some th \<and> thread_id th = pid)"
  using assms by (auto simp: thread_of_def table_find_Some threads_ok_def tkey_def)

lemma fiber_of_Some:
  assumes "fibers_ok K s a p"
  shows "fiber_of K s p fid = Some f \<longleftrightarrow>
    f \<in> nodes (fibers p) \<and> (\<exists>fb. live_fiber s f = Some fb \<and> fiber_id fb = fid)"
  using assms by (auto simp: fiber_of_def table_find_Some fibers_ok_def fkey_def)

lemma thread_of_None:
  assumes "threads_ok K s a p"
  shows "thread_of K s p pid = None \<longleftrightarrow> (\<forall>t \<in> nodes (threads p). tkey s t \<noteq> Some pid)"
  using assms by (auto simp: thread_of_def table_find_None threads_ok_def)

lemma proc_of_None:
  assumes "kinv K s"
  shows "proc_of K s tgid = None \<longleftrightarrow> (\<forall>a \<in> nodes (processes s). pkey s a \<noteq> Some tgid)"
  using assms by (auto simp: proc_of_def table_find_None kinv_def)

text \<open>The number of converted threads never reaches the width of the counter.\<close>

lemma card_nodes_bound:
  assumes "table_ok h key ht"
  shows "card (nodes ht) \<le> 2 ^ 32"
proof -
  have key: "\<exists>k. key a = Some k" if "a \<in> nodes ht" for a
    using table_ok_key [OF assms that] by auto
  have "inj_on (\<lambda>a. the (key a)) (nodes ht)"
  proof (rule inj_onI)
    fix x y
    assume "x \<in> nodes ht" "y \<in> nodes ht" "the (key x) = the (key y)"
    moreover from this obtain k j where "key x = Some k" "key y = Some j" using key by blast
    ultimately show "x = y" using table_ok_inj [OF assms, of x y] by simp
  qed
  then have "card (nodes ht) \<le> card (UNIV :: pid_t set)"
    by (rule card_inj_on_le) auto
  then show ?thesis by (simp add: card_word)
qed

section \<open>Frame rules\<close>

text \<open>The process an object belongs to.\<close>

definition owner :: "kstate \<Rightarrow> addr \<Rightarrow> ptr" where
  "owner s x = (case heap s x of
       Some (Live (OProcess _)) \<Rightarrow> Some x
     | Some (Live (OThread t)) \<Rightarrow> parent t
     | Some (Live (OFiber f)) \<Rightarrow> parent_process f
     | _ \<Rightarrow> NULL)"

lemma owner_live:
  "live_process s a = Some p \<Longrightarrow> owner s a = Some a"
  "live_thread s t = Some th \<Longrightarrow> owner s t = parent th"
  "live_fiber s f = Some fb \<Longrightarrow> owner s f = parent_process fb"
  by (simp_all add: heap_live owner_def)

lemma owned_owner:
  assumes "process_ok K s a" "x \<in> owned s a"
  shows "owner s x = Some a"
proof -
  obtain p where p: "live_process s a = Some p" "threads_ok K s a p" "fibers_ok K s a p"
    using assms(1) by (auto simp: process_ok_def)
  then consider "x = a" | "x \<in> nodes (threads p)" | "x \<in> nodes (fibers p)"
    using assms(2) by (auto simp: owned_def)
  then show ?thesis
  proof cases
    case 1
    then show ?thesis using p owner_live by simp
  next
    case 2
    then show ?thesis using threads_okD [OF p(2) 2] owner_live(2) by metis
  next
    case 3
    then show ?thesis using fibers_okD [OF p(3) 3] owner_live(3) by (metis fiber_ok_def)
  qed
qed

lemma process_ok_frame:
  assumes ok: "process_ok K s a"
    and same: "\<And>x. owner s x = Some a \<Longrightarrow> heap s' x = heap s x"
  shows "process_ok K s' a" "owned s' a = owned s a" "pkey s' a = pkey s a"
proof -
  obtain p where p: "live_process s a = Some p" "threads_ok K s a p" "fibers_ok K s a p"
    using ok by (auto simp: process_ok_def)
  have eq: "heap s' x = heap s x" if "x \<in> owned s a" for x
    using owned_owner [OF ok that] same by blast
  have T: "live_thread s' t = live_thread s t" if "t \<in> nodes (threads p)" for t
    using eq [of t] that p(1) by (simp add: owned_def live_thread_def)
  have F: "live_fiber s' f = live_fiber s f" if "f \<in> nodes (fibers p)" for f
    using eq [of f] that p(1) by (simp add: owned_def live_fiber_def)
  have P: "live_process s' a = live_process s a"
    using eq [of a] by (simp add: owned_def live_process_def)
  have "threads_ok K s' a p"
    using p(2) T F unfolding threads_ok_def thread_ok_def
    by (auto intro!: table_ok_cong [where key = "tkey s"] simp: tkey_def)
  moreover have "fibers_ok K s' a p"
    using p(3) T F unfolding fibers_ok_def fiber_ok_def
    by (auto intro!: table_ok_cong [where key = "fkey s"] simp: fkey_def)
  ultimately show "process_ok K s' a"
    using P p(1) by (auto simp: process_ok_def)
  show "owned s' a = owned s a" "pkey s' a = pkey s a"
    using P by (simp_all add: owned_def pkey_def)
qed

text \<open>An operation that touches the objects of one registered process only.\<close>

lemma inv_update:
  assumes inv: "kinv K s" and a: "a \<in> nodes (processes s)"
    and frame: "\<And>x b. owner s x = Some b \<Longrightarrow> b \<noteq> a \<Longrightarrow> heap s' x = heap s x"
    and procs: "processes s' = processes s" and lock: "\<not> struct_process_lock s'"
    and ok: "process_ok K s' a" and key: "pkey s' a = pkey s a"
    and own: "\<And>x. is_live s' x \<Longrightarrow> is_live s x \<and> x \<notin> owned s a \<or> x \<in> owned s' a"
  shows "kinv K s'"
proof -
  have other: "process_ok K s' b" "owned s' b = owned s b" "pkey s' b = pkey s b"
    if "b \<in> nodes (processes s)" "b \<noteq> a" for b
  proof -
    have "process_ok K s b" using inv that by (simp add: kinv_def)
    then show "process_ok K s' b" "owned s' b = owned s b" "pkey s' b = pkey s b"
      using process_ok_frame [of K s b s'] frame that(2) by blast+
  qed
  have "table_ok (hash_min K) (pkey s') (processes s')"
    unfolding procs
  proof (rule table_ok_cong [where key = "pkey s"])
    show "table_ok (hash_min K) (pkey s) (processes s)" using inv by (simp add: kinv_def)
    show "pkey s' b = pkey s b" if "b \<in> nodes (processes s)" for b
      using other(3) [OF that] key by blast
  qed
  moreover have "process_ok K s' b" if "b \<in> nodes (processes s')" for b
    using other(1) [of b] ok that procs by (cases "b = a") auto
  moreover have "\<exists>b \<in> nodes (processes s'). x \<in> owned s' b" if "is_live s' x" for x
  proof (cases "x \<in> owned s' a")
    case True
    with a procs show ?thesis by auto
  next
    case False
    then have x: "is_live s x" "x \<notin> owned s a" using own [OF that] by auto
    then obtain b where "b \<in> nodes (processes s)" "x \<in> owned s b"
      using inv by (auto simp: kinv_def)
    moreover from this have "b \<noteq> a" using x(2) by auto
    ultimately show ?thesis using other(2) procs by auto
  qed
  ultimately show ?thesis
    using lock by (simp add: kinv_def)
qed

text \<open>State components the invariant does not read.\<close>

lemma process_ok_heap_only:
  assumes "heap s' = heap s"
  shows "process_ok K s' a = process_ok K s a" "owned s' a = owned s a" "pkey s' = pkey s"
    "is_live s' = is_live s"
proof -
  have "live_process s' = live_process s" "live_thread s' = live_thread s" "live_fiber s' = live_fiber s"
    using assms by (auto simp: live_process_def live_thread_def live_fiber_def)
  then show "process_ok K s' a = process_ok K s a" "owned s' a = owned s a" "pkey s' = pkey s"
    by (auto simp: process_ok_def threads_ok_def fibers_ok_def thread_ok_def fiber_ok_def
        owned_def pkey_def tkey_def [abs_def] fkey_def [abs_def])
  show "is_live s' = is_live s"
    using assms by (auto simp: is_live_def)
qed

lemma inv_heap_only:
  assumes "kinv K s" "heap s' = heap s" "processes s' = processes s"
    "struct_process_lock s' = struct_process_lock s"
  shows "kinv K s'"
  using assms process_ok_heap_only [OF assms(2)] by (auto simp: kinv_def)

lemma inv_tasks [simp]: "kinv K (s\<lparr>tasks := ts\<rparr>) = kinv K s"
  using inv_heap_only [of K s "s\<lparr>tasks := ts\<rparr>"] inv_heap_only [of K "s\<lparr>tasks := ts\<rparr>" s] by auto

text \<open>An update of one fiber that leaves its identity, its lock and its links alone.\<close>

definition fiber_frame :: "(fiber \<Rightarrow> fiber) \<Rightarrow> bool" where
  "fiber_frame g \<longleftrightarrow> (\<forall>f. fiber_lock (g f) = fiber_lock f \<and> fiber_id (g f) = fiber_id f \<and>
     name (g f) = name f \<and> attached_thread (g f) = attached_thread f \<and>
     parent_process (g f) = parent_process f)"

lemma process_ok_fiber_frame:
  assumes ok: "process_ok K s a" and f: "live_fiber s f = Some fb" and g: "fiber_frame g"
  shows "process_ok K (store s f (OFiber (g fb))) a"
proof -
  let ?s = "store s f (OFiber (g fb))"
  obtain p where p: "live_process s a = Some p" "threads_ok K s a p" "fibers_ok K s a p"
    using ok by (auto simp: process_ok_def)
  have T: "live_thread ?s t = live_thread s t" for t
    using f live_types_differ(3) by (cases "live_thread s t") (auto simp: live_simps heap_live)
  have P: "live_process ?s b = live_process s b" for b
    using f live_types_differ(2) by (cases "live_process s b") (auto simp: live_simps heap_live)
  have F: "live_fiber ?s x = (if x = f then Some (g fb) else live_fiber s x)" for x
    by (simp add: live_simps)
  have keys: "fkey ?s = fkey s" "tkey ?s = tkey s"
    using T F f g by (auto simp: fkey_def tkey_def fiber_frame_def)
  have "thread_ok ?s a p t th" if "thread_ok s a p t th" for t th
    using that f g unfolding thread_ok_def F fiber_frame_def by (metis option.inject)
  then have "threads_ok K ?s a p"
    using p(2) unfolding threads_ok_def keys T by metis
  moreover have "fibers_ok K ?s a p"
    using p(3) T F f g unfolding fibers_ok_def keys fiber_ok_def fiber_frame_def
    by (auto split: if_splits)
  ultimately show ?thesis
    using p(1) P by (auto simp: process_ok_def)
qed

lemma inv_fiber_frame:
  assumes inv: "kinv K s" and f: "live_fiber s f = Some fb" and g: "fiber_frame g"
  shows "kinv K (store s f (OFiber (g fb)))"
proof -
  let ?s = "store s f (OFiber (g fb))"
  have P: "live_process ?s b = live_process s b" for b
    using f live_types_differ(2) by (cases "live_process s b") (auto simp: live_simps heap_live)
  then have "pkey ?s = pkey s" "owned ?s a = owned s a" for a
    by (auto simp: pkey_def owned_def)
  moreover have "is_live ?s x = is_live s x" for x
    using live_is_live(3) [OF f] by (auto simp: live_simps)
  ultimately show ?thesis
    using inv process_ok_fiber_frame [OF _ f g] by (simp add: kinv_def)
qed

section \<open>Adding objects\<close>

text \<open>A new process with empty tables, under an unused number.\<close>

lemma inv_new_process:
  assumes inv: "kinv K s" and new: "\<not> is_live s a"
    and id: "proc_of K s (process_id p) = None"
    and p: "threads p = hash_init" "fibers p = hash_init" "active_threads p = 0" "last_fiber_id p = 0"
    and s': "heap s' = (heap s)(a \<mapsto> Live (OProcess p))" "\<not> struct_process_lock s'"
      "processes s' = hash_add_rcu (hash_min K) (processes s) a (process_id p)"
  shows "kinv K s'"
proof -
  have old: "b \<noteq> a" "process_ok K s b" if "b \<in> nodes (processes s)" for b
    using inv that new live_is_live(1) by (auto simp: kinv_def process_ok_def)
  have "heap s' x = heap s x" if "owner s x = Some b" for x b
    using that new s'(1) by (auto simp: owner_def is_live_def split: option.splits cell.splits)
  then have frame: "process_ok K s' b" "owned s' b = owned s b" "pkey s' b = pkey s b"
    if "b \<in> nodes (processes s)" for b
    using process_ok_frame [OF old(2) [OF that]] by blast+
  have live: "live_process s' a = Some p" "pkey s' a = Some (process_id p)"
    using s'(1) by (simp_all add: live_process_def pkey_def)
  have "process_ok K s' a"
    unfolding process_ok_def using live p by (simp add: threads_ok_def fibers_ok_def)
  moreover have "table_ok (hash_min K) (pkey s') (processes s')"
    unfolding s'(3)
  proof (rule table_ok_add)
    show "table_ok (hash_min K) (pkey s') (processes s)"
      by (rule table_ok_cong [of _ "pkey s"]) (use inv frame(3) in \<open>simp_all add: kinv_def\<close>)
    show "pkey s' b \<noteq> Some (process_id p)" if "b \<in> nodes (processes s)" for b
      using id frame(3) [OF that] that by (auto simp: proc_of_None [OF inv])
  qed (use live old(1) in auto)
  moreover have "\<exists>b \<in> nodes (processes s'). x \<in> owned s' b" if x: "is_live s' x" for x
  proof (cases "x = a")
    case True
    then show ?thesis using s'(3) by (simp add: owned_def)
  next
    case False
    then have "is_live s x" using x s'(1) by (simp add: is_live_def)
    then obtain b where "b \<in> nodes (processes s)" "x \<in> owned s b"
      using inv by (auto simp: kinv_def)
    then show ?thesis using frame(2) s'(3) by auto
  qed
  ultimately show ?thesis
    using frame(1) s'(2,3) by (auto simp: kinv_def)
qed

text \<open>The objects of a process are pairwise apart, and none of them is at an unused
  address.\<close>

lemma nodes_apart:
  assumes p: "live_process s a = Some p" and ok: "threads_ok K s a p" "fibers_ok K s a p"
  shows "t \<in> nodes (threads p) \<Longrightarrow> t \<noteq> a" "f \<in> nodes (fibers p) \<Longrightarrow> f \<noteq> a"
    "t \<in> nodes (threads p) \<Longrightarrow> f \<in> nodes (fibers p) \<Longrightarrow> t \<noteq> f"
    "\<not> is_live s x \<Longrightarrow> x \<notin> nodes (threads p) \<and> x \<notin> nodes (fibers p) \<and> x \<noteq> a"
proof -
  have T: "\<exists>th. live_thread s t = Some th" if "t \<in> nodes (threads p)" for t
    using threads_okD [OF ok(1) that] by metis
  have F: "\<exists>fb. live_fiber s f = Some fb" if "f \<in> nodes (fibers p)" for f
    using fibers_okD [OF ok(2) that] by metis
  show "t \<in> nodes (threads p) \<Longrightarrow> t \<noteq> a" using T p live_types_differ(1) by metis
  show "f \<in> nodes (fibers p) \<Longrightarrow> f \<noteq> a" using F p live_types_differ(2) by metis
  show "t \<in> nodes (threads p) \<Longrightarrow> f \<in> nodes (fibers p) \<Longrightarrow> t \<noteq> f"
    using T F live_types_differ(3) by metis
  show "\<not> is_live s x \<Longrightarrow> x \<notin> nodes (threads p) \<and> x \<notin> nodes (fibers p) \<and> x \<noteq> a"
    using T F p live_is_live by metis
qed

lemma finite_owned:
  assumes "kapi_ok K"
  shows "threads_ok K s a p \<Longrightarrow> finite (nodes (threads p))"
    "fibers_ok K s a p \<Longrightarrow> finite (nodes (fibers p))"
  using assms by (auto simp: threads_ok_def fibers_ok_def intro: finite_nodes kapi_ok_hash)

text \<open>The thread table when the fibers keep their attachments.\<close>

lemma threads_ok_same:
  assumes ok: "threads_ok K s a p" and p': "threads p' = threads p" "active_threads p' = active_threads p"
      "nodes (fibers p) \<subseteq> nodes (fibers p')"
    and T: "\<And>t. t \<in> nodes (threads p) \<Longrightarrow> live_thread s' t = live_thread s t"
    and F: "\<And>f. f \<in> nodes (fibers p) \<Longrightarrow> live_fiber s' f = live_fiber s f"
  shows "threads_ok K s' a p'"
proof -
  have "thread_ok s' a p' t th" if "thread_ok s a p t th" for t th
    using that F p'(3) unfolding thread_ok_def by fastforce
  moreover have "table_ok (hash_min K) (tkey s') (threads p)"
    by (rule table_ok_cong [of _ "tkey s"]) (use ok T in \<open>simp_all add: threads_ok_def tkey_def\<close>)
  ultimately show ?thesis
    using ok T unfolding threads_ok_def p'(1,2) by auto
qed

text \<open>The fiber table with one fiber more.\<close>

lemma fibers_ok_add:
  assumes ok: "fibers_ok K s a p" and K: "kapi_ok K" and new: "f \<notin> nodes (fibers p)"
    and bound: "unat (last_fiber_id p) + 1 < 2 ^ 31"
    and fid: "unat (fiber_id fb) = unat (last_fiber_id p) + 1"
    and p': "p' = p\<lparr>last_fiber_id := last_fiber_id p + 1,
      fibers := hash_add_rcu (hash_min K) (fibers p) f (fiber_id fb)\<rparr>"
    and T: "\<And>t. t \<in> nodes (threads p) \<Longrightarrow> live_thread s' t = live_thread s t"
    and F: "\<And>x. x \<in> nodes (fibers p) \<Longrightarrow> live_fiber s' x = live_fiber s x"
    and f: "live_fiber s' f = Some fb" "fiber_ok s' a p' f fb"
  shows "fibers_ok K s' a p'"
proof -
  have last: "unat (last_fiber_id p + 1) = unat (last_fiber_id p) + 1"
    using bound by (intro unat_Suc_word) simp
  have "table_ok (hash_min K) (fkey s') (fibers p)"
    by (rule table_ok_cong [of _ "fkey s"]) (use ok F in \<open>simp_all add: fibers_ok_def fkey_def\<close>)
  moreover have "fkey s' x \<noteq> Some (fiber_id fb)" if x: "x \<in> nodes (fibers p)" for x
  proof -
    obtain xb where "live_fiber s x = Some xb" "unat (fiber_id xb) \<le> unat (last_fiber_id p)"
      using fibers_okD [OF ok x] by (metis fiber_ok_def)
    then show ?thesis using F [OF x] fid by (auto simp: fkey_def)
  qed
  ultimately have tab: "table_ok (hash_min K) (fkey s') (fibers p')"
    unfolding p' using new f by (auto intro!: table_ok_add simp: fkey_def)
  have "fiber_ok s' a p' x xb" if "x \<in> nodes (fibers p)" "fiber_ok s a p x xb" for x xb
    using that T last unfolding fiber_ok_def p' by auto
  then have "\<forall>x \<in> nodes (fibers p'). \<exists>xb. live_fiber s' x = Some xb \<and> fiber_ok s' a p' x xb"
    using ok F f unfolding fibers_ok_def p' by auto
  then show ?thesis
    using tab ok new finite_owned(2) [OF K ok] last bound unfolding fibers_ok_def p' by simp
qed

text \<open>A new fiber, attached to no thread, under the next number.\<close>

lemma inv_new_fiber:
  assumes inv: "kinv K s" and K: "kapi_ok K"
    and a: "a \<in> nodes (processes s)" "live_process s a = Some p" and new: "\<not> is_live s f"
    and bound: "unat (last_fiber_id p) + 1 < 2 ^ 31"
    and fb: "fiber_id fb = ucast (last_fiber_id p + 1)" "parent_process fb = Some a"
      "attached_thread fb = NULL" "\<not> fiber_lock fb"
      "name fb = snprintf 256 (dec_int (sint (fiber_id fb)))"
    and p': "p' = p\<lparr>last_fiber_id := last_fiber_id p + 1,
      fibers := hash_add_rcu (hash_min K) (fibers p) f (fiber_id fb)\<rparr>"
    and s': "heap s' = (heap s)(a \<mapsto> Live (OProcess p'), f \<mapsto> Live (OFiber fb))"
      "processes s' = processes s" "\<not> struct_process_lock s'"
  shows "kinv K s'"
proof -
  have ok: "threads_ok K s a p" "fibers_ok K s a p"
    using inv_process [OF inv a(1)] a(2) by auto
  note apart = nodes_apart [OF a(2) ok]
  have last: "unat (last_fiber_id p + 1) = unat (last_fiber_id p) + 1"
    using bound by (intro unat_Suc_word) simp
  have fid: "unat (fiber_id fb) = unat (last_fiber_id p) + 1"
    using bound last fb(1) unat_ucast_small [of "last_fiber_id p + 1", where 'b = 32] by simp
  have live: "live_process s' a = Some p'" "live_fiber s' f = Some fb"
    "\<And>x. x \<noteq> a \<Longrightarrow> x \<noteq> f \<Longrightarrow> live_thread s' x = live_thread s x \<and> live_fiber s' x = live_fiber s x"
    using apart(4) [OF new] s'(1) by (auto simp: live_process_def live_thread_def live_fiber_def)
  have T: "live_thread s' t = live_thread s t" if "t \<in> nodes (threads p)" for t
    using live(3) [of t] apart(1,4) that new by blast
  have F: "live_fiber s' x = live_fiber s x" if "x \<in> nodes (fibers p)" for x
    using live(3) [of x] apart(2,4) that new by blast
  have "threads_ok K s' a p'"
    by (rule threads_ok_same [OF ok(1) _ _ _ T F]) (auto simp: p')
  moreover have "fiber_ok s' a p' f fb"
    using fb fid last unfolding fiber_ok_def p' by simp
  then have "fibers_ok K s' a p'"
    using fibers_ok_add [OF ok(2) K _ bound fid p' T F live(2)] apart(4) [OF new] by blast
  ultimately have new_ok: "process_ok K s' a"
    using live(1) by (auto simp: process_ok_def)
  show ?thesis
  proof (rule inv_update [OF inv a(1) _ s'(2,3) new_ok])
    show "heap s' x = heap s x" if "owner s x = Some b" "b \<noteq> a" for x b
      using that new s'(1) owner_live(1) [OF a(2)]
      by (auto simp: owner_def is_live_def split: option.splits cell.splits)
    show "pkey s' a = pkey s a" using live(1) a(2) by (simp add: pkey_def p')
    show "is_live s x \<and> x \<notin> owned s a \<or> x \<in> owned s' a" if "is_live s' x" for x
      using that s'(1) live(1) a(2) by (auto simp: is_live_def owned_def p' split: if_splits)
  qed
qed

section \<open>Attaching and detaching\<close>

text \<open>What a change of attachments inside one process has to provide: the tables stay
  in order, and the two directions of the link between threads and fibers agree.\<close>

lemma process_ok_relink:
  assumes ok: "threads_ok K s a p" "fibers_ok K s a p" and p: "live_process s' a = Some p'"
    and fibs: "fibers p' = fibers p" "last_fiber_id p' = last_fiber_id p"
    and tab: "table_ok (hash_min K) (tkey s') (threads p')"
      "unat (active_threads p') = card (nodes (threads p'))"
    and fkeep: "\<And>f fb. f \<in> nodes (fibers p) \<Longrightarrow> live_fiber s f = Some fb \<Longrightarrow>
      \<exists>fb'. live_fiber s' f = Some fb' \<and> fiber_id fb' = fiber_id fb \<and> name fb' = name fb \<and>
        parent_process fb' = parent_process fb \<and> (fiber_lock fb' \<longleftrightarrow> attached_thread fb' \<noteq> NULL)"
    and up: "\<And>t. t \<in> nodes (threads p') \<Longrightarrow> \<exists>th f fb. live_thread s' t = Some th \<and> parent th = Some a \<and>
      selected_fiber th = Some f \<and> f \<in> nodes (fibers p) \<and> live_fiber s' f = Some fb \<and>
      attached_thread fb = Some t"
    and down: "\<And>f fb t. f \<in> nodes (fibers p) \<Longrightarrow> live_fiber s' f = Some fb \<Longrightarrow> attached_thread fb = Some t \<Longrightarrow>
      t \<in> nodes (threads p') \<and> (\<exists>th. live_thread s' t = Some th \<and> selected_fiber th = Some f)"
  shows "process_ok K s' a"
proof -
  have "threads_ok K s' a p'"
    using tab up unfolding threads_ok_def thread_ok_def fibs(1) by blast
  moreover have fib: "\<exists>fb'. live_fiber s' f = Some fb' \<and> fiber_ok s' a p' f fb'" "fkey s' f = fkey s f"
    if f: "f \<in> nodes (fibers p)" for f
  proof -
    obtain fb where fb: "live_fiber s f = Some fb" "fiber_ok s a p f fb"
      using fibers_okD [OF ok(2) f] .
    obtain fb' where fb': "live_fiber s' f = Some fb'" "fiber_id fb' = fiber_id fb" "name fb' = name fb"
        "parent_process fb' = parent_process fb" "fiber_lock fb' \<longleftrightarrow> attached_thread fb' \<noteq> NULL"
      using fkeep [OF f fb(1)] by blast
    have "fiber_ok s' a p' f fb'"
      using fb(2) fb' down [OF f fb'(1)] fibs unfolding fiber_ok_def by metis
    with fb'(1) show "\<exists>fb'. live_fiber s' f = Some fb' \<and> fiber_ok s' a p' f fb'" by blast
    show "fkey s' f = fkey s f" using fb(1) fb'(1,2) by (simp add: fkey_def)
  qed
  moreover have "table_ok (hash_min K) (fkey s') (fibers p)"
    by (rule table_ok_cong [of _ "fkey s"]) (use ok(2) fib in \<open>simp_all add: fibers_ok_def\<close>)
  ultimately show ?thesis
    using p ok(2) fibs unfolding process_ok_def fibers_ok_def by auto
qed

lemma threads_table_add:
  assumes ok: "threads_ok K s a p" and K: "kapi_ok K" and new: "t \<notin> nodes (threads p)"
    and tid: "thread_of K s p tid = None" "tkey s' t = Some tid"
    and T: "\<And>x. x \<in> nodes (threads p) \<Longrightarrow> live_thread s' x = live_thread s x"
  shows "table_ok (hash_min K) (tkey s') (hash_add_rcu (hash_min K) (threads p) t tid)"
    "unat (active_threads p + 1) = card (nodes (hash_add_rcu (hash_min K) (threads p) t tid))"
proof -
  have same: "table_ok (hash_min K) (tkey s') (threads p)"
    by (rule table_ok_cong [of _ "tkey s"]) (use ok T in \<open>simp_all add: threads_ok_def tkey_def\<close>)
  have "tkey s' x \<noteq> Some tid" if "x \<in> nodes (threads p)" for x
    using tid(1) T [OF that] that by (simp add: thread_of_None [OF ok] tkey_def)
  then show "table_ok (hash_min K) (tkey s') (hash_add_rcu (hash_min K) (threads p) t tid)"
    by (rule table_ok_add [OF same tid(2) new])
  have "unat (active_threads p) = card (nodes (threads p))" "card (nodes (threads p)) \<le> 2 ^ 32"
    using ok card_nodes_bound [of "hash_min K" "tkey s" "threads p"] by (simp_all add: threads_ok_def)
  then show "unat (active_threads p + 1) = card (nodes (hash_add_rcu (hash_min K) (threads p) t tid))"
    using new finite_owned(1) [OF K ok] by (simp add: unat_Suc_word)
qed

text \<open>The links of an object into its process.\<close>

lemma thread_links:
  assumes "threads_ok K s a p" "t \<in> nodes (threads p)" "live_thread s t = Some th"
  shows "owner s t = Some a" "parent th = Some a"
    "\<exists>f fb. selected_fiber th = Some f \<and> f \<in> nodes (fibers p) \<and> live_fiber s f = Some fb \<and>
       attached_thread fb = Some t"
  using threads_okD [OF assms(1,2)] assms(3) owner_live(2) by (metis option.inject)+

lemma fiber_links:
  assumes "fibers_ok K s a p" "f \<in> nodes (fibers p)" "live_fiber s f = Some fb"
  shows "owner s f = Some a" "fiber_ok s a p f fb"
    "attached_thread fb = Some t \<Longrightarrow> t \<in> nodes (threads p) \<and>
       (\<exists>th. live_thread s t = Some th \<and> selected_fiber th = Some f)"
    "fiber_lock fb \<longleftrightarrow> attached_thread fb \<noteq> NULL"
  using fibers_okD [OF assms(1,2)] assms(3) owner_live(3) by (metis option.inject fiber_ok_def)+

text \<open>A new thread takes an unattached fiber.\<close>

lemma process_ok_attach:
  assumes ok: "threads_ok K s a p" "fibers_ok K s a p" and K: "kapi_ok K"
    and new: "t \<notin> nodes (threads p)" and tid: "thread_of K s p tid = None"
    and f: "f \<in> nodes (fibers p)" "live_fiber s f = Some fb" "attached_thread fb = NULL"
    and p': "live_process s' a = Some (p\<lparr>active_threads := active_threads p + 1,
      threads := hash_add_rcu (hash_min K) (threads p) t tid\<rparr>)"
    and t: "live_thread s' t = Some \<lparr>thread_id = tid, parent = Some a, selected_fiber = Some f\<rparr>"
    and f': "live_fiber s' f = Some fb'" "fiber_id fb' = fiber_id fb" "name fb' = name fb"
      "parent_process fb' = parent_process fb" "fiber_lock fb'" "attached_thread fb' = Some t"
    and T: "\<And>x. x \<in> nodes (threads p) \<Longrightarrow> live_thread s' x = live_thread s x"
    and F: "\<And>x. x \<in> nodes (fibers p) \<Longrightarrow> x \<noteq> f \<Longrightarrow> live_fiber s' x = live_fiber s x"
  shows "process_ok K s' a"
proof -
  have "tkey s' t = Some tid" using t by (simp add: tkey_def)
  note tab = threads_table_add [OF ok(1) K new tid this T]
  show ?thesis
  proof (rule process_ok_relink [OF ok p'])
    fix x xb
    assume x: "x \<in> nodes (fibers p)" "live_fiber s x = Some xb"
    show "\<exists>xb'. live_fiber s' x = Some xb' \<and> fiber_id xb' = fiber_id xb \<and> name xb' = name xb \<and>
        parent_process xb' = parent_process xb \<and> (fiber_lock xb' \<longleftrightarrow> attached_thread xb' \<noteq> NULL)"
      using fiber_links(4) [OF ok(2) x] x F [OF x(1)] f(2) f' by (cases "x = f") auto
  next
    fix x
    assume "x \<in> nodes (threads (p\<lparr>active_threads := active_threads p + 1,
      threads := hash_add_rcu (hash_min K) (threads p) t tid\<rparr>))"
    then consider "x = t" | "x \<in> nodes (threads p)" by auto
    then show "\<exists>xh g gb. live_thread s' x = Some xh \<and> parent xh = Some a \<and> selected_fiber xh = Some g \<and>
        g \<in> nodes (fibers p) \<and> live_fiber s' g = Some gb \<and> attached_thread gb = Some x"
    proof cases
      case 1
      then show ?thesis using t f(1) f' by simp
    next
      case 2
      then show ?thesis
        using threads_okD [OF ok(1) 2] T [OF 2] F f(2,3) by (metis option.distinct(1) option.inject)
    qed
  next
    fix x xb y
    assume x: "x \<in> nodes (fibers p)" "live_fiber s' x = Some xb" "attached_thread xb = Some y"
    then show "y \<in> nodes (threads (p\<lparr>active_threads := active_threads p + 1,
      threads := hash_add_rcu (hash_min K) (threads p) t tid\<rparr>)) \<and>
        (\<exists>xh. live_thread s' y = Some xh \<and> selected_fiber xh = Some x)"
      using fiber_links(3) [OF ok(2) x(1)] F [OF x(1)] T t f' by (cases "x = f") auto
  qed (use tab in simp_all)
qed

lemma inv_attach_thread:
  assumes inv: "kinv K s" and K: "kapi_ok K"
    and a: "a \<in> nodes (processes s)" "live_process s a = Some p" and new: "\<not> is_live s t"
    and f: "f \<in> nodes (fibers p)" "live_fiber s f = Some fb" "attached_thread fb = NULL"
    and tid: "thread_of K s p tid = None"
    and p': "p' = p\<lparr>active_threads := active_threads p + 1,
      threads := hash_add_rcu (hash_min K) (threads p) t tid\<rparr>"
    and th: "th = \<lparr>thread_id = tid, parent = Some a, selected_fiber = Some f\<rparr>"
    and fb': "fiber_id fb' = fiber_id fb" "name fb' = name fb" "parent_process fb' = parent_process fb"
      "fiber_lock fb'" "attached_thread fb' = Some t"
    and s': "heap s' = (heap s)(a \<mapsto> Live (OProcess p'), t \<mapsto> Live (OThread th), f \<mapsto> Live (OFiber fb'))"
      "processes s' = processes s" "\<not> struct_process_lock s'"
  shows "kinv K s'"
proof -
  have ok: "threads_ok K s a p" "fibers_ok K s a p"
    using inv_process [OF inv a(1)] a(2) by auto
  note apart = nodes_apart [OF a(2) ok]
  have ne: "t \<noteq> a" "t \<noteq> f" "f \<noteq> a" "t \<notin> nodes (threads p)" "t \<notin> nodes (fibers p)"
    using apart(2) [OF f(1)] apart(4) [OF new] f(1) by auto
  have live: "live_process s' a = Some p'" "live_thread s' t = Some th" "live_fiber s' f = Some fb'"
    "\<And>x. x \<noteq> a \<Longrightarrow> x \<noteq> t \<Longrightarrow> x \<noteq> f \<Longrightarrow> live_thread s' x = live_thread s x \<and> live_fiber s' x = live_fiber s x"
    using ne s'(1) by (auto simp: live_process_def live_thread_def live_fiber_def)
  have new_ok: "process_ok K s' a"
  proof (rule process_ok_attach [OF ok K ne(4) tid f _ _ live(3) fb'])
    show "live_thread s' x = live_thread s x" if "x \<in> nodes (threads p)" for x
      using live(4) [of x] apart(1,3) f(1) ne that by blast
    show "live_fiber s' x = live_fiber s x" if "x \<in> nodes (fibers p)" "x \<noteq> f" for x
      using live(4) [of x] apart(2) ne that by blast
  qed (use live p' th in simp_all)
  show ?thesis
  proof (rule inv_update [OF inv a(1) _ s'(2,3) new_ok])
    show "heap s' x = heap s x" if "owner s x = Some b" "b \<noteq> a" for x b
      using that new s'(1) owner_live(1) [OF a(2)] fiber_links(1) [OF ok(2) f(1,2)]
      by (auto simp: owner_def is_live_def split: option.splits cell.splits)
    show "pkey s' a = pkey s a" using live(1) a(2) by (simp add: pkey_def p')
    show "is_live s x \<and> x \<notin> owned s a \<or> x \<in> owned s' a" if "is_live s' x" for x
      using that s'(1) live(1) a(2) f(1) by (auto simp: is_live_def owned_def p' split: if_splits)
  qed
qed

text \<open>A thread leaves its fiber for an unattached one.\<close>

lemma process_ok_switch:
  assumes ok: "threads_ok K s a p" "fibers_ok K s a p" and p: "live_process s' a = Some p"
    and t: "t \<in> nodes (threads p)" "live_thread s t = Some th" "selected_fiber th = Some g"
    and g: "live_fiber s g = Some gb" "attached_thread gb = Some t"
    and f: "f \<in> nodes (fibers p)" "live_fiber s f = Some fb" "attached_thread fb = NULL"
    and t': "live_thread s' t = Some (th\<lparr>selected_fiber := Some f\<rparr>)"
    and f': "live_fiber s' f = Some fb'" "fiber_id fb' = fiber_id fb" "name fb' = name fb"
      "parent_process fb' = parent_process fb" "fiber_lock fb'" "attached_thread fb' = Some t"
    and g': "live_fiber s' g = Some gb'" "fiber_id gb' = fiber_id gb" "name gb' = name gb"
      "parent_process gb' = parent_process gb" "\<not> fiber_lock gb'" "attached_thread gb' = NULL"
    and T: "\<And>x. x \<in> nodes (threads p) \<Longrightarrow> x \<noteq> t \<Longrightarrow> live_thread s' x = live_thread s x"
    and F: "\<And>x. x \<in> nodes (fibers p) \<Longrightarrow> x \<noteq> f \<Longrightarrow> x \<noteq> g \<Longrightarrow> live_fiber s' x = live_fiber s x"
  shows "process_ok K s' a"
proof (rule process_ok_relink [OF ok p])
  have "tkey s' x = tkey s x" if "x \<in> nodes (threads p)" for x
    using T [OF that] t' t(2) by (cases "x = t") (simp_all add: tkey_def)
  then show "table_ok (hash_min K) (tkey s') (threads p)"
    by (rule table_ok_cong [of _ "tkey s", rotated]) (use ok(1) in \<open>simp_all add: threads_ok_def\<close>)
  show "unat (active_threads p) = card (nodes (threads p))"
    using ok(1) by (simp add: threads_ok_def)
next
  fix x xb
  assume x: "x \<in> nodes (fibers p)" "live_fiber s x = Some xb"
  show "\<exists>xb'. live_fiber s' x = Some xb' \<and> fiber_id xb' = fiber_id xb \<and> name xb' = name xb \<and>
      parent_process xb' = parent_process xb \<and> (fiber_lock xb' \<longleftrightarrow> attached_thread xb' \<noteq> NULL)"
    using fiber_links(4) [OF ok(2) x] x F [OF x(1)] f(2) g(1) f' g' by (cases "x = f"; cases "x = g") auto
next
  fix x
  assume x: "x \<in> nodes (threads p)"
  show "\<exists>xh y yb. live_thread s' x = Some xh \<and> parent xh = Some a \<and> selected_fiber xh = Some y \<and>
      y \<in> nodes (fibers p) \<and> live_fiber s' y = Some yb \<and> attached_thread yb = Some x"
  proof (cases "x = t")
    case True
    then show ?thesis using t' f' f(1) thread_links(2) [OF ok(1) t(1,2)] by simp
  next
    case False
    then show ?thesis
      using threads_okD [OF ok(1) x] T [OF x False] F f(2,3) g
      by (metis option.distinct(1) option.inject)
  qed
next
  fix x xb y
  assume x: "x \<in> nodes (fibers p)" "live_fiber s' x = Some xb" "attached_thread xb = Some y"
  then consider "x = f" | "x \<noteq> f" "x \<noteq> g" using g' by force
  then show "y \<in> nodes (threads p) \<and> (\<exists>xh. live_thread s' y = Some xh \<and> selected_fiber xh = Some x)"
  proof cases
    case 1
    then show ?thesis using x t' f' t(1) by simp
  next
    case 2
    then have y: "y \<in> nodes (threads p)" "\<exists>yh. live_thread s y = Some yh \<and> selected_fiber yh = Some x"
      using fiber_links(3) [OF ok(2) x(1) _ x(3)] x(2) F [OF x(1)] by auto
    then have "y \<noteq> t" using 2 t(2,3) by auto
    then show ?thesis using y T by auto
  qed
qed simp_all

lemma inv_switch:
  assumes inv: "kinv K s" and a: "a \<in> nodes (processes s)" "live_process s a = Some p"
    and t: "t \<in> nodes (threads p)" "live_thread s t = Some th" "selected_fiber th = Some g"
    and g: "live_fiber s g = Some gb"
    and f: "f \<in> nodes (fibers p)" "live_fiber s f = Some fb" "attached_thread fb = NULL"
    and th': "th' = th\<lparr>selected_fiber := Some f\<rparr>"
    and fb': "fiber_id fb' = fiber_id fb" "name fb' = name fb" "parent_process fb' = parent_process fb"
      "fiber_lock fb'" "attached_thread fb' = Some t"
    and gb': "fiber_id gb' = fiber_id gb" "name gb' = name gb" "parent_process gb' = parent_process gb"
      "\<not> fiber_lock gb'" "attached_thread gb' = NULL"
    and s': "heap s' = (heap s)(f \<mapsto> Live (OFiber fb'), t \<mapsto> Live (OThread th'), g \<mapsto> Live (OFiber gb'))"
      "processes s' = processes s" "\<not> struct_process_lock s'"
  shows "kinv K s'"
proof -
  have ok: "threads_ok K s a p" "fibers_ok K s a p"
    using inv_process [OF inv a(1)] a(2) by auto
  note apart = nodes_apart [OF a(2) ok]
  have gn: "g \<in> nodes (fibers p)" "attached_thread gb = Some t"
    using thread_links(3) [OF ok(1) t(1,2)] t(3) g by auto
  have ne: "f \<noteq> g" "t \<noteq> f" "t \<noteq> g" "a \<notin> {f, g, t}"
    using f gn g apart(1-3) t(1) by auto
  have live: "live_process s' a = Some p" "live_thread s' t = Some th'" "live_fiber s' f = Some fb'"
    "live_fiber s' g = Some gb'"
    "\<And>x. x \<noteq> t \<Longrightarrow> x \<noteq> f \<Longrightarrow> x \<noteq> g \<Longrightarrow> live_thread s' x = live_thread s x \<and> live_fiber s' x = live_fiber s x"
    using ne s'(1) a(2) by (auto simp: live_process_def live_thread_def live_fiber_def)
  have new_ok: "process_ok K s' a"
  proof (rule process_ok_switch [OF ok live(1) t g gn(2) f _ live(3) fb' live(4) gb'])
    show "live_thread s' x = live_thread s x" if "x \<in> nodes (threads p)" "x \<noteq> t" for x
      using live(5) [of x] apart(3) that f(1) gn by blast
    show "live_fiber s' x = live_fiber s x" if "x \<in> nodes (fibers p)" "x \<noteq> f" "x \<noteq> g" for x
      using live(5) [of x] apart(3) that t by blast
  qed (use live(2) th' in simp)
  show ?thesis
  proof (rule inv_update [OF inv a(1) _ s'(2,3) new_ok])
    show "heap s' x = heap s x" if "owner s x = Some b" "b \<noteq> a" for x b
      using that s'(1) fiber_links(1) [OF ok(2) f(1,2)] fiber_links(1) [OF ok(2) gn(1) g]
        thread_links(1) [OF ok(1) t(1,2)] by auto
    show "pkey s' a = pkey s a" using live(1) a(2) by (simp add: pkey_def)
    show "is_live s x \<and> x \<notin> owned s a \<or> x \<in> owned s' a" if "is_live s' x" for x
      using that s'(1) live(1) a(2) f(1) t(1) gn(1) by (auto simp: is_live_def owned_def split: if_splits)
  qed
qed

text \<open>A thread leaves its fiber and the process.\<close>

lemma process_ok_detach:
  assumes ok: "threads_ok K s a p" "fibers_ok K s a p" and K: "kapi_ok K"
    and p: "live_process s' a = Some (p\<lparr>active_threads := active_threads p - 1,
      threads := hash_del_rcu (threads p) t\<rparr>)"
    and t: "t \<in> nodes (threads p)" "live_thread s t = Some th" "selected_fiber th = Some g"
    and g: "live_fiber s g = Some gb" "attached_thread gb = Some t"
    and g': "live_fiber s' g = Some gb'" "fiber_id gb' = fiber_id gb" "name gb' = name gb"
      "parent_process gb' = parent_process gb" "\<not> fiber_lock gb'" "attached_thread gb' = NULL"
    and T: "\<And>x. x \<in> nodes (threads p) \<Longrightarrow> x \<noteq> t \<Longrightarrow> live_thread s' x = live_thread s x"
    and F: "\<And>x. x \<in> nodes (fibers p) \<Longrightarrow> x \<noteq> g \<Longrightarrow> live_fiber s' x = live_fiber s x"
  shows "process_ok K s' a"
proof (rule process_ok_relink [OF ok p])
  let ?p = "p\<lparr>active_threads := active_threads p - 1, threads := hash_del_rcu (threads p) t\<rparr>"
  have "table_ok (hash_min K) (tkey s) (hash_del_rcu (threads p) t)"
    using ok(1) by (simp add: threads_ok_def table_ok_del)
  then have "table_ok (hash_min K) (tkey s') (hash_del_rcu (threads p) t)"
    by (rule table_ok_cong) (use T in \<open>simp add: tkey_def\<close>)
  then show "table_ok (hash_min K) (tkey s') (threads ?p)" by simp
  have "unat (active_threads p) = card (nodes (threads p))" "0 < card (nodes (threads p))"
    using ok(1) t(1) finite_owned(1) [OF K ok(1)] by (auto simp: threads_ok_def card_gt_0_iff)
  then show "unat (active_threads ?p) = card (nodes (threads ?p))"
    using t(1) by (simp add: unat_pred_word)
next
  fix x xb
  assume x: "x \<in> nodes (fibers p)" "live_fiber s x = Some xb"
  show "\<exists>xb'. live_fiber s' x = Some xb' \<and> fiber_id xb' = fiber_id xb \<and> name xb' = name xb \<and>
      parent_process xb' = parent_process xb \<and> (fiber_lock xb' \<longleftrightarrow> attached_thread xb' \<noteq> NULL)"
    using fiber_links(4) [OF ok(2) x] x F [OF x(1)] g(1) g' by (cases "x = g") auto
next
  fix x
  assume "x \<in> nodes (threads (p\<lparr>active_threads := active_threads p - 1, threads := hash_del_rcu (threads p) t\<rparr>))"
  then have x: "x \<in> nodes (threads p)" "x \<noteq> t" by auto
  show "\<exists>xh y yb. live_thread s' x = Some xh \<and> parent xh = Some a \<and> selected_fiber xh = Some y \<and>
      y \<in> nodes (fibers p) \<and> live_fiber s' y = Some yb \<and> attached_thread yb = Some x"
    using threads_okD [OF ok(1) x(1)] T [OF x] F g x(2) by (metis option.inject)
next
  fix x xb y
  assume x: "x \<in> nodes (fibers p)" "live_fiber s' x = Some xb" "attached_thread xb = Some y"
  then have xg: "x \<noteq> g" using g' by force
  then have y: "y \<in> nodes (threads p)" "\<exists>yh. live_thread s y = Some yh \<and> selected_fiber yh = Some x"
    using fiber_links(3) [OF ok(2) x(1) _ x(3)] x(2) F [OF x(1)] by auto
  then have "y \<noteq> t" using xg t(2,3) by auto
  then show "y \<in> nodes (threads (p\<lparr>active_threads := active_threads p - 1, threads := hash_del_rcu (threads p) t\<rparr>)) \<and>
      (\<exists>xh. live_thread s' y = Some xh \<and> selected_fiber xh = Some x)"
    using y T by auto
qed simp_all

lemma inv_detach:
  assumes inv: "kinv K s" and K: "kapi_ok K"
    and a: "a \<in> nodes (processes s)" "live_process s a = Some p"
    and t: "t \<in> nodes (threads p)" "live_thread s t = Some th" "selected_fiber th = Some g"
    and g: "live_fiber s g = Some gb"
    and p': "p' = p\<lparr>active_threads := active_threads p - 1, threads := hash_del_rcu (threads p) t\<rparr>"
    and gb': "fiber_id gb' = fiber_id gb" "name gb' = name gb" "parent_process gb' = parent_process gb"
      "\<not> fiber_lock gb'" "attached_thread gb' = NULL"
    and s': "heap s' = (heap s)(a \<mapsto> Live (OProcess p'), g \<mapsto> Live (OFiber gb'), t \<mapsto> Freed x0)"
      "processes s' = processes s" "\<not> struct_process_lock s'"
  shows "kinv K s'"
proof -
  have ok: "threads_ok K s a p" "fibers_ok K s a p"
    using inv_process [OF inv a(1)] a(2) by auto
  note apart = nodes_apart [OF a(2) ok]
  have gn: "g \<in> nodes (fibers p)" "attached_thread gb = Some t"
    using thread_links(3) [OF ok(1) t(1,2)] t(3) g by auto
  have ne: "t \<noteq> g" "a \<noteq> g" "a \<noteq> t"
    using gn apart(1-3) t(1) by auto
  have live: "live_process s' a = Some p'" "live_fiber s' g = Some gb'"
    "\<And>x. x \<noteq> t \<Longrightarrow> x \<noteq> a \<Longrightarrow> x \<noteq> g \<Longrightarrow> live_thread s' x = live_thread s x \<and> live_fiber s' x = live_fiber s x"
    using ne s'(1) a(2) by (auto simp: live_process_def live_thread_def live_fiber_def)
  have new_ok: "process_ok K s' a"
  proof (rule process_ok_detach [OF ok K _ t g gn(2) live(2) gb'])
    show "live_thread s' x = live_thread s x" if "x \<in> nodes (threads p)" "x \<noteq> t" for x
      using live(3) [of x] apart(1,3) that gn by blast
    show "live_fiber s' x = live_fiber s x" if "x \<in> nodes (fibers p)" "x \<noteq> g" for x
      using live(3) [of x] apart(2,3) that t by blast
  qed (use live(1) p' in simp)
  show ?thesis
  proof (rule inv_update [OF inv a(1) _ s'(2,3) new_ok])
    show "heap s' x = heap s x" if "owner s x = Some b" "b \<noteq> a" for x b
      using that s'(1) fiber_links(1) [OF ok(2) gn(1) g] thread_links(1) [OF ok(1) t(1,2)]
        owner_live(1) [OF a(2)] by auto
    show "pkey s' a = pkey s a" using live(1) a(2) by (simp add: pkey_def p')
    show "is_live s x \<and> x \<notin> owned s a \<or> x \<in> owned s' a" if "is_live s' x" for x
      using that s'(1) live(1) a(2) gn(1) by (auto simp: is_live_def owned_def p' split: if_splits)
  qed
qed

text \<open>A process leaves the table together with everything it owns.\<close>

lemma inv_drop_process:
  assumes inv: "kinv K s" and a: "a \<in> nodes (processes s)"
    and other: "\<And>x b. owner s x = Some b \<Longrightarrow> b \<noteq> a \<Longrightarrow> heap s' x = heap s x"
    and dead: "\<And>x. x \<in> owned s a \<Longrightarrow> \<not> is_live s' x"
    and live: "\<And>x. is_live s' x \<Longrightarrow> is_live s x"
    and s': "processes s' = hash_del_rcu (processes s) a" "\<not> struct_process_lock s'"
  shows "kinv K s'"
proof -
  have frame: "process_ok K s' b" "owned s' b = owned s b" "pkey s' b = pkey s b"
    if "b \<in> nodes (processes s)" "b \<noteq> a" for b
  proof -
    have "process_ok K s b" using inv that by (simp add: kinv_def)
    then show "process_ok K s' b" "owned s' b = owned s b" "pkey s' b = pkey s b"
      using process_ok_frame [of K s b s'] other that(2) by blast+
  qed
  have "table_ok (hash_min K) (pkey s) (processes s')"
    using inv s'(1) by (simp add: kinv_def table_ok_del)
  then have "table_ok (hash_min K) (pkey s') (processes s')"
    by (rule table_ok_cong) (use frame(3) s'(1) in auto)
  moreover have "\<exists>b \<in> nodes (processes s'). x \<in> owned s' b" if x: "is_live s' x" for x
  proof -
    obtain b where "b \<in> nodes (processes s)" "x \<in> owned s b"
      using live [OF x] inv by (auto simp: kinv_def)
    moreover from this have "b \<noteq> a" using dead x by auto
    ultimately show ?thesis using frame(2) s'(1) by auto
  qed
  ultimately show ?thesis
    using frame(1) s' by (simp add: kinv_def)
qed

end
