(* ===== verification/Fiber_Ops.thy ===== *)
theory Fiber_Ops
  imports Fiber_Inv
begin

text \<open>
  The fiber operations of \<^verbatim>\<open>module/fibers.c\<close>: converting a thread, creating a fiber,
  switching. Each takes the platform \<open>K\<close>, the task \<open>me\<close> that executes it (the
  \<open>current\<close> of the kernel) and the module state, and returns the value of the C
  function with the new state. The lemmas describe what each does in a state that
  satisfies the invariant, and that the invariant holds again afterwards.
\<close>

section \<open>Operations\<close>

text \<open>\<open>spin_trylock\<close> on the lock of a fiber: whether the lock was free, and the lock
  taken in either case. The preemption counter is not part of the state of the module.\<close>

definition spin_trylock :: "kapi \<Rightarrow> addr \<Rightarrow> kstate \<Rightarrow> (bool \<times> kstate) option" where
  "spin_trylock K f s = do {
     fb \<leftarrow> get_fiber K s f;
     s \<leftarrow> upd_fiber s f (\<lambda>x. x\<lparr>fiber_lock := True\<rparr>);
     Some (\<not> fiber_lock fb, s) }"

text \<open>The part of the conversion after the process structure was found or made.\<close>

definition convert_thread :: "kapi \<Rightarrow> pid_t \<Rightarrow> addr \<Rightarrow> pid_t \<Rightarrow> kstate \<Rightarrow> (pid_t \<times> kstate) option" where
  "convert_thread K me ep tid s = do {
     cur \<leftarrow> tasks s me;
     gp \<leftarrow> find_thread_by_pid K tid ep s;
     (case gp of
        Some gp \<Rightarrow> Some (-1, s)
      | None \<Rightarrow> do {
          (gp, s) \<leftarrow> init_thread K ep tid s;
          (fp, s) \<leftarrow> init_fiber K me ep (-1) 0 s;
          s \<leftarrow> upd_fiber s fp (\<lambda>f. f\<lparr>registers := (registers f)\<lparr>sp := sp (user_regs cur), bp := bp (user_regs cur)\<rparr>\<rparr>);
          s \<leftarrow> upd_fiber s fp (\<lambda>f. f\<lparr>activation_counter := activation_counter f + 1\<rparr>);
          s \<leftarrow> upd_fiber s fp (\<lambda>f. f\<lparr>attached_thread := Some gp\<rparr>);
          s \<leftarrow> upd_thread s gp (\<lambda>t. t\<lparr>selected_fiber := Some fp\<rparr>);
          (locked, s) \<leftarrow> spin_trylock K fp s;
          f \<leftarrow> get_fiber K s fp;
          Some (if locked then fiber_id f else -1, s) }) }"

definition do_ConvertThreadToFiber :: "kapi \<Rightarrow> pid_t \<Rightarrow> pid_t \<Rightarrow> kstate \<Rightarrow> (pid_t \<times> kstate) option" where
  "do_ConvertThreadToFiber K me tid s = do {
     cur \<leftarrow> tasks s me;
     s \<leftarrow> spin_lock_struct_process s;
     ep \<leftarrow> find_process_by_tgid K (task_tgid cur) s;
     (ep, s) \<leftarrow> (case ep of None \<Rightarrow> init_process K me s | Some ep \<Rightarrow> Some (ep, s));
     let s = spin_unlock_struct_process s;
     convert_thread K me ep tid s }"

definition do_CreateFiber ::
  "kapi \<Rightarrow> pid_t \<Rightarrow> ulong \<Rightarrow> ulong \<Rightarrow> ulong \<Rightarrow> ulong \<Rightarrow> pid_t \<Rightarrow> kstate \<Rightarrow> (pid_t \<times> kstate) option" where
  "do_CreateFiber K me stack_pointer stack_size fiber_function parameters tid s = do {
     cur \<leftarrow> tasks s me;
     ep \<leftarrow> find_process_by_tgid K (task_tgid cur) s;
     (case ep of None \<Rightarrow> Some (-1, s)
      | Some ep \<Rightarrow> do {
          gp \<leftarrow> find_thread_by_pid K tid ep s;
          (case gp of None \<Rightarrow> Some (-1, s)
           | Some gp \<Rightarrow> do {
               (fp, s) \<leftarrow> init_fiber K me ep (uint stack_size) stack_pointer s;
               s \<leftarrow> upd_fiber s fp (\<lambda>f. f\<lparr>registers := (registers f)\<lparr>ip := fiber_function, di := parameters\<rparr>,
                 start_address := fiber_function\<rparr>);
               f \<leftarrow> get_fiber K s fp;
               Some (fiber_id f, s) }) }) }"

text \<open>The switch proper, once the lock of the target \<open>f\<close> is taken: the steps in the
  order of the code. \<open>task_pt_regs(current)\<close> is the saved user context of the
  calling task; the FPU registers are those it runs with.\<close>

definition switch_to :: "kapi \<Rightarrow> pid_t \<Rightarrow> addr \<Rightarrow> addr \<Rightarrow> kstate \<Rightarrow> (long \<times> kstate) option" where
  "switch_to K me tp f s = do {
     cur \<leftarrow> tasks s me;
     s \<leftarrow> upd_fiber s f (\<lambda>x. x\<lparr>attached_thread := Some tp, activation_counter := activation_counter x + 1\<rparr>);
     t \<leftarrow> get_thread K s tp;
     let prev = selected_fiber t;
     s \<leftarrow> upd_thread s tp (\<lambda>t. t\<lparr>selected_fiber := Some f\<rparr>);
     prev_fiber \<leftarrow> prev;
     s \<leftarrow> upd_fiber s prev_fiber (\<lambda>x. x\<lparr>total_time := total_time x + utime cur,
       registers := user_regs cur, fpu := fx cur\<rparr>);
     s \<leftarrow> upd_fiber s prev_fiber (\<lambda>x. x\<lparr>attached_thread := NULL, fiber_lock := False\<rparr>);
     fb \<leftarrow> get_fiber K s f;
     Some (0, set_task s me (cur\<lparr>user_regs := registers fb, fx := fpu fb\<rparr>)) }"

definition do_SwitchToFiber :: "kapi \<Rightarrow> pid_t \<Rightarrow> pid_t \<Rightarrow> pid_t \<Rightarrow> kstate \<Rightarrow> (long \<times> kstate) option" where
  "do_SwitchToFiber K me fid tid s = do {
     cur \<leftarrow> tasks s me;
     ep \<leftarrow> find_process_by_tgid K (task_tgid cur) s;
     (case ep of None \<Rightarrow> Some (-1, s)
      | Some ep \<Rightarrow> do {
          tp \<leftarrow> find_thread_by_pid K tid ep s;
          (case tp of None \<Rightarrow> Some (-1, s)
           | Some tp \<Rightarrow> do {
               f \<leftarrow> find_fiber_by_id K fid ep s;
               (case f of None \<Rightarrow> Some (-1, s)
                | Some f \<Rightarrow> do {
                    (locked, s) \<leftarrow> spin_trylock K f s;
                    fb \<leftarrow> get_fiber K s f;
                    if \<not> locked \<or> attached_thread fb \<noteq> NULL then do {
                      s \<leftarrow> upd_fiber s f (\<lambda>x. x\<lparr>failed_activation_counter := failed_activation_counter x + 1\<rparr>);
                      Some (-1, s) }
                    else switch_to K me tp f s }) }) }) }"

section \<open>Allocation\<close>

text \<open>The bookkeeping of a request to \<open>kmalloc\<close>.\<close>

definition alloc_step :: "kstate \<Rightarrow> kstate" where
  "alloc_step s = s\<lparr>allocs := Suc (allocs s), slept_in_atomic := (slept_in_atomic s \<or> struct_process_lock s)\<rparr>"

lemma alloc_step_fields [simp]:
  "heap (alloc_step s) = heap s" "processes (alloc_step s) = processes s"
  "struct_process_lock (alloc_step s) = struct_process_lock s" "tasks (alloc_step s) = tasks s"
  "allocs (alloc_step s) = Suc (allocs s)"
  by (simp_all add: alloc_step_def)

lemma live_alloc_step [simp]:
  "live_process (alloc_step s) = live_process s" "live_thread (alloc_step s) = live_thread s"
  "live_fiber (alloc_step s) = live_fiber s" "is_live (alloc_step s) = is_live s"
  by (simp_all add: alloc_step_def)

lemma kmalloc_eq: "kmalloc K s = (kmalloc_at K (allocs s) (is_live s), alloc_step s)"
  by (simp add: kmalloc_def alloc_step_def)

lemma init_process_eq:
  assumes "tasks s me = Some cur"
  shows "init_process K me s = (case kmalloc_at K (allocs s) (is_live s) of None \<Rightarrow> None
    | Some a \<Rightarrow> Some (a, (store (alloc_step s) a (OProcess
        \<lparr>process_id = task_tgid cur, last_fiber_id = 0, active_threads = 0,
         threads = hash_init, fibers = hash_init\<rparr>))
        \<lparr>processes := hash_add_rcu (hash_min K) (processes s) a (task_tgid cur)\<rparr>))"
  using assms by (simp add: init_process_def kmalloc_eq split: option.split)

definition add_thread :: "kapi \<Rightarrow> process \<Rightarrow> addr \<Rightarrow> pid_t \<Rightarrow> process" where
  "add_thread K p t tid = p\<lparr>active_threads := active_threads p + 1,
     threads := hash_add_rcu (hash_min K) (threads p) t tid\<rparr>"

definition next_fid :: "process \<Rightarrow> pid_t" where
  "next_fid p = ucast (last_fiber_id p + 1)"

definition add_fiber :: "kapi \<Rightarrow> process \<Rightarrow> addr \<Rightarrow> process" where
  "add_fiber K p f = p\<lparr>last_fiber_id := last_fiber_id p + 1,
     fibers := hash_add_rcu (hash_min K) (fibers p) f (next_fid p)\<rparr>"

lemma init_thread_eq:
  assumes K: "kapi_ok K" and p: "live_process s a = Some p"
  shows "init_thread K a tid s = (case kmalloc_at K (allocs s) (is_live s) of None \<Rightarrow> None
    | Some t \<Rightarrow> Some (t, store (store (alloc_step s) t (OThread
        \<lparr>thread_id = tid, parent = Some a, selected_fiber = NULL\<rparr>)) a (OProcess (add_thread K p t tid))))"
proof (cases "kmalloc_at K (allocs s) (is_live s)")
  case (Some t)
  then have "t \<noteq> a" using kapi_ok_fresh [OF K Some] live_is_live(1) [OF p] by auto
  then show ?thesis using Some p
    by (simp add: init_thread_def kmalloc_eq upd_process_def live_simps add_thread_def)
qed (simp add: init_thread_def kmalloc_eq)

lemma init_fiber_eq:
  assumes K: "kapi_ok K" and p: "live_process s a = Some p" and cur: "tasks s me = Some cur"
  shows "init_fiber K me a ss ptr s = (case kmalloc_at K (allocs s) (is_live s) of None \<Rightarrow> None
    | Some f \<Rightarrow> Some (f, store (store (alloc_step s) a (OProcess (add_fiber K p f))) f
        (OFiber (new_fiber cur a ss ptr (next_fid p)))))"
  using p cur get_live(1) [of "alloc_step s" a p K]
  by (simp add: init_fiber_def kmalloc_eq upd_process_def add_fiber_def next_fid_def Let_def split: option.split)

lemma new_fiber_fields [simp]:
  "fiber_id (new_fiber cur a ss ptr fid) = fid" "fiber_lock (new_fiber cur a ss ptr fid) = False"
  "attached_thread (new_fiber cur a ss ptr fid) = NULL" "parent_process (new_fiber cur a ss ptr fid) = Some a"
  "name (new_fiber cur a ss ptr fid) = snprintf 256 (dec_int (sint fid))"
  "fls_bitmap (new_fiber cur a ss ptr fid) = bitmap_zero"
  by (simp_all add: new_fiber_def Let_def)

lemma store_same [simp]: "store (store s a x) a y = store s a y"
  by (simp add: store_def)

lemma upd_fiber_store [simp]:
  "upd_fiber (store s f (OFiber fb)) f g = Some (store s f (OFiber (g fb)))"
  by (simp add: upd_fiber_def live_simps)

lemma get_fiber_store [simp]: "get_fiber K (store s f (OFiber fb)) f = Some fb"
  by (rule get_live) (simp add: live_simps)

lemma upd_fiber_live: "live_fiber s f = Some fb \<Longrightarrow> upd_fiber s f g = Some (store s f (OFiber (g fb)))"
  by (simp add: upd_fiber_def)

lemma upd_thread_live: "live_thread s t = Some th \<Longrightarrow> upd_thread s t g = Some (store s t (OThread (g th)))"
  by (simp add: upd_thread_def)

lemma spin_trylock_live:
  "live_fiber s f = Some fb \<Longrightarrow>
     spin_trylock K f s = Some (\<not> fiber_lock fb, store s f (OFiber (fb\<lparr>fiber_lock := True\<rparr>)))"
  by (simp add: spin_trylock_def get_live upd_fiber_live)

section \<open>Creating a fiber\<close>

definition created_fiber :: "task \<Rightarrow> addr \<Rightarrow> ulong \<Rightarrow> ulong \<Rightarrow> ulong \<Rightarrow> ulong \<Rightarrow> pid_t \<Rightarrow> fiber" where
  "created_fiber cur a ptr sz func par fid =
     (let f = new_fiber cur a (uint sz) ptr fid
      in f\<lparr>registers := (registers f)\<lparr>ip := func, di := par\<rparr>, start_address := func\<rparr>)"

lemma created_fiber_fields [simp]:
  "fiber_id (created_fiber cur a ptr sz func par fid) = fid"
  "fiber_lock (created_fiber cur a ptr sz func par fid) = False"
  "attached_thread (created_fiber cur a ptr sz func par fid) = NULL"
  "parent_process (created_fiber cur a ptr sz func par fid) = Some a"
  "name (created_fiber cur a ptr sz func par fid) = snprintf 256 (dec_int (sint fid))"
  by (simp_all add: created_fiber_def Let_def)

text \<open>The complete behaviour of \<open>do_CreateFiber\<close> by cases.\<close>

lemma create_unregistered:
  assumes "kinv K s" "tasks s me = Some cur" "proc_of K s (task_tgid cur) = None"
  shows "do_CreateFiber K me ptr sz func par tid s = Some (-1, s)"
  using assms by (simp add: do_CreateFiber_def find_process_eq)

lemma create_not_converted:
  assumes "kinv K s" "tasks s me = Some cur" "proc_of K s (task_tgid cur) = Some a"
    and "live_process s a = Some p" "thread_of K s p tid = None"
  shows "do_CreateFiber K me ptr sz func par tid s = Some (-1, s)"
proof -
  have "threads_ok K s a p"
    using assms(3,4) by (auto simp: proc_of_Some [OF assms(1)] elim: inv_process [OF assms(1)])
  then show ?thesis
    using assms by (simp add: do_CreateFiber_def find_process_eq find_thread_eq)
qed

lemma create_converted:
  assumes inv: "kinv K s" and K: "kapi_ok K" and cur: "tasks s me = Some cur"
    and a: "proc_of K s (task_tgid cur) = Some a" and p: "live_process s a = Some p"
    and t: "thread_of K s p tid = Some t"
  shows "do_CreateFiber K me ptr sz func par tid s =
    (case kmalloc_at K (allocs s) (is_live s) of None \<Rightarrow> None
     | Some f \<Rightarrow> Some (next_fid p, store (store (alloc_step s) a (OProcess (add_fiber K p f))) f
         (OFiber (created_fiber cur a ptr sz func par (next_fid p)))))"
proof -
  have "threads_ok K s a p"
    using a p by (auto simp: proc_of_Some [OF inv] elim: inv_process [OF inv])
  then show ?thesis
    using assms
    by (simp add: do_CreateFiber_def find_process_eq find_thread_eq init_fiber_eq created_fiber_def Let_def
        split: option.split)
qed

text \<open>The room left in the numbers of the fibers of the calling process.\<close>

definition ids_left :: "kapi \<Rightarrow> pid_t \<Rightarrow> kstate \<Rightarrow> bool" where
  "ids_left K me s \<longleftrightarrow> (\<forall>cur a p. tasks s me = Some cur \<longrightarrow> proc_of K s (task_tgid cur) = Some a \<longrightarrow>
     live_process s a = Some p \<longrightarrow> unat (last_fiber_id p) + 1 < 2 ^ 31)"

lemma ids_left_code [code]:
  "ids_left K me s = (case tasks s me of None \<Rightarrow> True | Some cur \<Rightarrow>
     (case proc_of K s (task_tgid cur) of None \<Rightarrow> True | Some a \<Rightarrow>
       (case live_process s a of None \<Rightarrow> True | Some p \<Rightarrow> last_fiber_id p < 2147483647)))"
  by (auto simp: ids_left_def word_less_nat_alt split: option.split)

lemma create_inv:
  assumes inv: "kinv K s" and K: "kapi_ok K" and ids: "ids_left K me s"
    and res: "do_CreateFiber K me ptr sz func par tid s = Some (r, s')"
  shows "kinv K s'"
proof -
  obtain cur where cur: "tasks s me = Some cur"
    using res by (auto simp: do_CreateFiber_def bind_eq_Some_conv)
  show ?thesis
  proof (cases "proc_of K s (task_tgid cur)")
    case None
    then show ?thesis using res inv create_unregistered [OF inv cur] by simp
  next
    case (Some a)
    then obtain p where a: "a \<in> nodes (processes s)" and p: "live_process s a = Some p"
      by (auto simp: proc_of_Some [OF inv])
    show ?thesis
    proof (cases "thread_of K s p tid")
      case None
      then show ?thesis using res inv create_not_converted [OF inv cur Some p] by simp
    next
      case t: (Some t)
      obtain f where f: "kmalloc_at K (allocs s) (is_live s) = Some f"
        and s': "s' = store (store (alloc_step s) a (OProcess (add_fiber K p f))) f
          (OFiber (created_fiber cur a ptr sz func par (next_fid p)))"
        using res create_converted [OF inv K cur Some p t] by (auto split: option.splits)
      have bound: "unat (last_fiber_id p) + 1 < 2 ^ 31"
        using ids cur Some p by (simp add: ids_left_def)
      show ?thesis
        by (rule inv_new_fiber [OF inv K a p kapi_ok_fresh [OF K f] bound, where p' = "add_fiber K p f"
              and fb = "created_fiber cur a ptr sz func par (next_fid p)"])
          (use inv in \<open>simp_all add: s' next_fid_def add_fiber_def kinv_def\<close>)
    qed
  qed
qed

section \<open>Converting a thread\<close>

text \<open>The context of the first fiber of a thread is the one the thread came with; only
  its stack fields are the defaults.\<close>

definition converted_fiber :: "task \<Rightarrow> addr \<Rightarrow> pid_t \<Rightarrow> addr \<Rightarrow> fiber" where
  "converted_fiber cur a fid t = (new_fiber cur a (-1) 0 fid)
     \<lparr>registers := user_regs cur, activation_counter := 1, attached_thread := Some t, fiber_lock := True\<rparr>"

lemma converted_fiber_fields [simp]:
  "fiber_id (converted_fiber cur a fid t) = fid" "fiber_lock (converted_fiber cur a fid t)"
  "attached_thread (converted_fiber cur a fid t) = Some t"
  "parent_process (converted_fiber cur a fid t) = Some a"
  "name (converted_fiber cur a fid t) = snprintf 256 (dec_int (sint fid))"
  "registers (converted_fiber cur a fid t) = user_regs cur" "fpu (converted_fiber cur a fid t) = fx cur"
  by (simp_all add: converted_fiber_def new_fiber_def Let_def)

definition converted_state :: "kapi \<Rightarrow> task \<Rightarrow> addr \<Rightarrow> process \<Rightarrow> addr \<Rightarrow> addr \<Rightarrow> pid_t \<Rightarrow> kstate \<Rightarrow> kstate" where
  "converted_state K cur a p t f tid s = (alloc_step (alloc_step s))\<lparr>heap := (heap s)
     (a \<mapsto> Live (OProcess (add_fiber K (add_thread K p t tid) f)),
      t \<mapsto> Live (OThread \<lparr>thread_id = tid, parent = Some a, selected_fiber = Some f\<rparr>),
      f \<mapsto> Live (OFiber (converted_fiber cur a (next_fid p) t)))\<rparr>"

text \<open>The two allocations a conversion makes: a thread and a fiber.\<close>

definition two_blocks :: "kapi \<Rightarrow> kstate \<Rightarrow> (addr \<times> addr) option" where
  "two_blocks K s = do {
     t \<leftarrow> kmalloc_at K (allocs s) (is_live s);
     f \<leftarrow> kmalloc_at K (Suc (allocs s)) (\<lambda>x. x = t \<or> is_live s x);
     Some (t, f) }"

lemma two_blocks_fresh:
  assumes "kapi_ok K" "two_blocks K s = Some (t, f)"
  shows "\<not> is_live s t" "\<not> is_live s f" "t \<noteq> f"
  using assms by (auto simp: two_blocks_def bind_eq_Some_conv dest: kapi_ok_fresh [OF assms(1)])

lemma convert_thread_again:
  assumes "threads_ok K s a p" "live_process s a = Some p" "tasks s me = Some cur"
    and "thread_of K s p tid = Some t"
  shows "convert_thread K me a tid s = Some (-1, s)"
  using assms by (simp add: convert_thread_def find_thread_eq)

lemma convert_thread_new:
  assumes K: "kapi_ok K" and ok: "threads_ok K s a p" and p: "live_process s a = Some p"
    and cur: "tasks s me = Some cur" and t: "thread_of K s p tid = None"
  shows "convert_thread K me a tid s = (case two_blocks K s of None \<Rightarrow> None
    | Some (t, f) \<Rightarrow> Some (next_fid p, converted_state K cur a p t f tid s))"
proof (cases "kmalloc_at K (allocs s) (is_live s)")
  case None
  then show ?thesis
    using assms by (simp add: convert_thread_def find_thread_eq init_thread_eq two_blocks_def)
next
  case t1: (Some t)
  let ?s1 = "store (store (alloc_step s) t (OThread \<lparr>thread_id = tid, parent = Some a, selected_fiber = NULL\<rparr>))
    a (OProcess (add_thread K p t tid))"
  have ta: "t \<noteq> a" using kapi_ok_fresh [OF K t1] live_is_live(1) [OF p] by auto
  have p1: "live_process ?s1 a = Some (add_thread K p t tid)" by (simp add: live_simps)
  have lv: "is_live ?s1 = (\<lambda>x. x = t \<or> is_live s x)"
    using live_is_live(1) [OF p] by (auto simp: fun_eq_iff live_simps)
  have nf: "next_fid (add_thread K p t tid) = next_fid p" by (simp add: next_fid_def add_thread_def)
  show ?thesis
  proof (cases "kmalloc_at K (Suc (allocs s)) (\<lambda>x. x = t \<or> is_live s x)")
    case None
    then show ?thesis
      using assms t1 init_fiber_eq [OF K p1, of me cur] lv
      by (simp add: convert_thread_def find_thread_eq init_thread_eq two_blocks_def)
  next
    case f: (Some f)
    then have tf: "t \<noteq> f" "f \<noteq> a"
      using kapi_ok_fresh [OF K f] live_is_live(1) [OF p] by auto
    let ?s2 = "store (alloc_step ?s1) a (OProcess (add_fiber K (add_thread K p t tid) f))"
    let ?th = "\<lparr>thread_id = tid, parent = Some a, selected_fiber = Some f\<rparr>"
    have lt: "live_thread (store ?s2 f (OFiber y)) t =
      Some \<lparr>thread_id = tid, parent = Some a, selected_fiber = NULL\<rparr>" for y
      using tf ta by (simp add: live_simps)
    let ?fb = "(converted_fiber cur a (next_fid p) t)\<lparr>fiber_lock := False\<rparr>"
    have lf: "live_fiber (store (store ?s2 f (OFiber ?fb)) t (OThread ?th)) f = Some ?fb"
      using tf by (simp add: live_simps)
    have "convert_thread K me a tid s = Some (next_fid p,
        store (store (store ?s2 f (OFiber ?fb)) t (OThread ?th)) f (OFiber (?fb\<lparr>fiber_lock := True\<rparr>)))"
      using assms t1 f init_fiber_eq [OF K p1, of me cur] lv lt spin_trylock_live [OF lf]
      by (simp add: convert_thread_def find_thread_eq init_thread_eq upd_thread_live nf
          live_simps converted_fiber_def new_fiber_def Let_def)
    also have "store (store (store ?s2 f (OFiber ?fb)) t (OThread ?th)) f (OFiber (?fb\<lparr>fiber_lock := True\<rparr>)) =
        converted_state K cur a p t f tid s"
      using tf ta by (auto simp: converted_state_def store_def alloc_step_def converted_fiber_def fun_eq_iff)
    finally show ?thesis
      using t1 f by (simp add: two_blocks_def)
  qed
qed

lemma thread_of_frame:
  assumes "threads_ok K s a p" "threads p' = threads p"
    and "\<And>t. t \<in> nodes (threads p) \<Longrightarrow> live_thread s' t = live_thread s t"
  shows "thread_of K s' p' = thread_of K s p"
proof
  fix tid
  have "table_ok (hash_min K) (tkey s) (threads p)" using assms(1) by (simp add: threads_ok_def)
  then show "thread_of K s' p' tid = thread_of K s p tid"
    unfolding thread_of_def assms(2) by (rule table_find_cong) (simp add: tkey_def assms(3))
qed

lemma converted_state_inv:
  assumes inv: "kinv K s" and K: "kapi_ok K" and a: "a \<in> nodes (processes s)" "live_process s a = Some p"
    and bound: "unat (last_fiber_id p) + 1 < 2 ^ 31" and t: "thread_of K s p tid = None"
    and new: "\<not> is_live s t" "\<not> is_live s f" "t \<noteq> f"
  shows "kinv K (converted_state K cur a p t f tid s)"
proof -
  let ?p1 = "add_fiber K p f" and ?fb = "new_fiber cur a (-1) 0 (next_fid p)"
  let ?s1 = "s\<lparr>heap := (heap s)(a \<mapsto> Live (OProcess ?p1), f \<mapsto> Live (OFiber ?fb))\<rparr>"
  have ok: "threads_ok K s a p" "fibers_ok K s a p"
    using inv_process [OF inv a(1)] a(2) by auto
  note apart = nodes_apart [OF a(2) ok]
  have af: "a \<noteq> f" "a \<noteq> t" using apart(4) [OF new(1)] apart(4) [OF new(2)] by auto
  have inv1: "kinv K ?s1"
    by (rule inv_new_fiber [OF inv K a new(2) bound, where p' = ?p1 and fb = ?fb])
      (use inv in \<open>simp_all add: next_fid_def add_fiber_def kinv_def\<close>)
  have live: "live_process ?s1 a = Some ?p1" "live_fiber ?s1 f = Some ?fb" "\<not> is_live ?s1 t"
    using af new by (simp_all add: heap_live is_live_def)
  have "live_thread ?s1 x = live_thread s x" if "x \<in> nodes (threads p)" for x
    using apart(1,4) that new(2) by (auto simp: live_thread_def)
  then have t1: "thread_of K ?s1 ?p1 tid = None"
    using thread_of_frame [OF ok(1), of ?p1 ?s1] t by (simp add: add_fiber_def)
  show ?thesis
    by (rule inv_attach_thread [OF inv1 K _ live(1,3) _ live(2) _ t1,
          where p' = "add_fiber K (add_thread K p t tid) f" and fb' = "converted_fiber cur a (next_fid p) t"])
      (use inv a(1) af new(3) in \<open>simp_all add: converted_state_def add_fiber_def add_thread_def next_fid_def
        fun_eq_iff kinv_def\<close>)
qed

lemma convert_thread_inv:
  assumes inv: "kinv K s" and K: "kapi_ok K" and a: "a \<in> nodes (processes s)" "live_process s a = Some p"
    and bound: "unat (last_fiber_id p) + 1 < 2 ^ 31"
    and res: "convert_thread K me a tid s = Some (r, s')"
  shows "kinv K s'"
proof -
  have ok: "threads_ok K s a p" using inv_process [OF inv a(1)] a(2) by auto
  obtain cur where cur: "tasks s me = Some cur"
    using res by (auto simp: convert_thread_def bind_eq_Some_conv)
  show ?thesis
  proof (cases "thread_of K s p tid")
    case None
    then obtain t f where "two_blocks K s = Some (t, f)" "s' = converted_state K cur a p t f tid s"
      using res convert_thread_new [OF K ok a(2) cur None] by (auto split: option.splits)
    then show ?thesis
      using converted_state_inv [OF inv K a bound None] two_blocks_fresh [OF K] by auto
  next
    case (Some t)
    then show ?thesis using res inv convert_thread_again [OF ok a(2) cur] by simp
  qed
qed

text \<open>The two ways into \<open>convert_thread\<close>.\<close>

lemma convert_registered:
  assumes inv: "kinv K s" and cur: "tasks s me = Some cur" and a: "proc_of K s (task_tgid cur) = Some a"
  shows "do_ConvertThreadToFiber K me tid s = convert_thread K me a tid s"
proof -
  have "find_process_by_tgid K (task_tgid cur) (s\<lparr>struct_process_lock := True\<rparr>) = find_process_by_tgid K (task_tgid cur) s"
    by (simp add: find_process_by_tgid_def get_process_def get_obj_def)
  moreover have eq: "s\<lparr>struct_process_lock := False\<rparr> = s"
    using inv by (cases s) (simp add: kinv_def)
  have "convert_thread K me a tid (s\<lparr>struct_process_lock := False\<rparr>) = convert_thread K me a tid s"
    by (simp only: eq)
  ultimately show ?thesis
    using assms find_process_eq [OF inv, of "task_tgid cur"]
    by (simp add: do_ConvertThreadToFiber_def spin_lock_struct_process_def spin_unlock_struct_process_def
        kinv_def Let_def)
qed

text \<open>The process structure is made with the lock held: the allocation is a sleeping
  one in atomic context.\<close>

definition new_process :: "task \<Rightarrow> process" where
  "new_process cur = \<lparr>process_id = task_tgid cur, last_fiber_id = 0, active_threads = 0,
     threads = hash_init, fibers = hash_init\<rparr>"

definition registered_state :: "kapi \<Rightarrow> task \<Rightarrow> addr \<Rightarrow> kstate \<Rightarrow> kstate" where
  "registered_state K cur a s = s\<lparr>heap := (heap s)(a \<mapsto> Live (OProcess (new_process cur))),
     processes := hash_add_rcu (hash_min K) (processes s) a (task_tgid cur),
     allocs := Suc (allocs s), slept_in_atomic := True\<rparr>"

lemma convert_unregistered:
  assumes inv: "kinv K s" and cur: "tasks s me = Some cur" and np: "proc_of K s (task_tgid cur) = None"
  shows "do_ConvertThreadToFiber K me tid s = (case kmalloc_at K (allocs s) (is_live s) of None \<Rightarrow> None
    | Some a \<Rightarrow> convert_thread K me a tid (registered_state K cur a s))"
proof -
  let ?s = "s\<lparr>struct_process_lock := True\<rparr>"
  have "find_process_by_tgid K (task_tgid cur) ?s = Some None"
    using find_process_eq [OF inv, of "task_tgid cur"] np
    by (simp add: find_process_by_tgid_def get_process_def get_obj_def)
  moreover have "spin_lock_struct_process s = Some ?s"
    using inv by (simp add: spin_lock_struct_process_def kinv_def)
  moreover have "spin_unlock_struct_process ((store (alloc_step ?s) a (OProcess (new_process cur)))
      \<lparr>processes := hash_add_rcu (hash_min K) (processes s) a (task_tgid cur)\<rparr>) = registered_state K cur a s" for a
    using inv by (simp add: spin_unlock_struct_process_def registered_state_def store_def alloc_step_def kinv_def)
  ultimately show ?thesis
    using cur init_process_eq [of ?s me cur K]
    by (simp add: do_ConvertThreadToFiber_def Let_def new_process_def split: option.split)
qed

lemma registered_state_inv:
  assumes inv: "kinv K s" and K: "kapi_ok K" and np: "proc_of K s (task_tgid cur) = None" and new: "\<not> is_live s a"
  shows "kinv K (registered_state K cur a s)" "a \<in> nodes (processes (registered_state K cur a s))"
    "live_process (registered_state K cur a s) a = Some (new_process cur)"
proof -
  show "kinv K (registered_state K cur a s)"
    by (rule inv_new_process [OF inv new, where p = "new_process cur"])
      (use np inv in \<open>simp_all add: new_process_def registered_state_def kinv_def\<close>)
  show "a \<in> nodes (processes (registered_state K cur a s))"
    "live_process (registered_state K cur a s) a = Some (new_process cur)"
    by (simp_all add: registered_state_def heap_live)
qed

lemma convert_inv:
  assumes inv: "kinv K s" and K: "kapi_ok K" and ids: "ids_left K me s"
    and res: "do_ConvertThreadToFiber K me tid s = Some (r, s')"
  shows "kinv K s'"
proof -
  obtain cur where cur: "tasks s me = Some cur"
    using res by (auto simp: do_ConvertThreadToFiber_def bind_eq_Some_conv)
  show ?thesis
  proof (cases "proc_of K s (task_tgid cur)")
    case None
    then obtain a where a: "kmalloc_at K (allocs s) (is_live s) = Some a"
      and res': "convert_thread K me a tid (registered_state K cur a s) = Some (r, s')"
      using res convert_unregistered [OF inv cur None] by (auto split: option.splits)
    show ?thesis
      using convert_thread_inv [OF registered_state_inv(1) [OF inv K None kapi_ok_fresh [OF K a]] K
          registered_state_inv(2,3) [OF inv K None kapi_ok_fresh [OF K a]] _ res']
      by (simp add: new_process_def)
  next
    case (Some a)
    then obtain p where a: "a \<in> nodes (processes s)" "live_process s a = Some p"
      by (auto simp: proc_of_Some [OF inv])
    show ?thesis
      using convert_thread_inv [OF inv K a] ids cur Some a(2) res convert_registered [OF inv cur Some]
      by (auto simp: ids_left_def)
  qed
qed

section \<open>Switching\<close>

text \<open>A registered process together with a converted thread, as the operations that
  need one find them.\<close>

definition caller :: "kapi \<Rightarrow> kstate \<Rightarrow> pid_t \<Rightarrow> pid_t \<Rightarrow> (addr \<times> process \<times> addr) option" where
  "caller K s me tid = do {
     cur \<leftarrow> tasks s me;
     a \<leftarrow> proc_of K s (task_tgid cur);
     p \<leftarrow> live_process s a;
     t \<leftarrow> thread_of K s p tid;
     Some (a, p, t) }"

lemma callerD:
  assumes inv: "kinv K s" and c: "caller K s me tid = Some (a, p, t)"
  shows "a \<in> nodes (processes s)" "live_process s a = Some p" "threads_ok K s a p" "fibers_ok K s a p"
    "t \<in> nodes (threads p)" "thread_of K s p tid = Some t"
    "\<exists>cur. tasks s me = Some cur \<and> proc_of K s (task_tgid cur) = Some a \<and> process_id p = task_tgid cur"
    "\<exists>th. live_thread s t = Some th \<and> thread_id th = tid"
proof -
  obtain cur where c: "tasks s me = Some cur" "proc_of K s (task_tgid cur) = Some a"
      "live_process s a = Some p" "thread_of K s p tid = Some t"
    using c by (auto simp: caller_def bind_eq_Some_conv)
  show a: "a \<in> nodes (processes s)" "live_process s a = Some p" "thread_of K s p tid = Some t"
    and "\<exists>cur. tasks s me = Some cur \<and> proc_of K s (task_tgid cur) = Some a \<and> process_id p = task_tgid cur"
    using c by (auto simp: proc_of_Some [OF inv])
  show ok: "threads_ok K s a p" "fibers_ok K s a p"
    using inv_process [OF inv a(1)] a(2) by auto
  show "t \<in> nodes (threads p)" "\<exists>th. live_thread s t = Some th \<and> thread_id th = tid"
    using a(3) by (auto simp: thread_of_Some [OF ok(1)])
qed

lemma caller_None:
  assumes inv: "kinv K s" and cur: "tasks s me = Some cur" and c: "caller K s me tid = None"
  shows "proc_of K s (task_tgid cur) = None \<or>
    (\<exists>a p. proc_of K s (task_tgid cur) = Some a \<and> live_process s a = Some p \<and> thread_of K s p tid = None)"
  using c cur by (auto simp: caller_def proc_of_Some [OF inv] split: bind_splits)

text \<open>What the operations of a converted thread do first.\<close>

lemma find_caller:
  assumes inv: "kinv K s" and c: "caller K s me tid = Some (a, p, t)"
  shows "find_thread_by_pid K tid a s = Some (Some t)" "find_fiber_by_id K fid a s = Some (fiber_of K s p fid)"
  using callerD [OF inv c] find_thread_eq find_fiber_eq by metis+

lemma switch_no_caller:
  assumes inv: "kinv K s" and cur: "tasks s me = Some cur" and c: "caller K s me tid = None"
  shows "do_SwitchToFiber K me fid tid s = Some (-1, s)"
  using caller_None [OF assms]
proof (elim disjE exE conjE)
  assume "proc_of K s (task_tgid cur) = None"
  then show ?thesis using inv cur by (simp add: do_SwitchToFiber_def find_process_eq)
next
  fix a p
  assume a: "proc_of K s (task_tgid cur) = Some a" "live_process s a = Some p" "thread_of K s p tid = None"
  then have "threads_ok K s a p" by (auto simp: proc_of_Some [OF inv] elim: inv_process [OF inv])
  then show ?thesis using inv cur a by (simp add: do_SwitchToFiber_def find_process_eq find_thread_eq)
qed

lemma switch_no_fiber:
  assumes inv: "kinv K s" and c: "caller K s me tid = Some (a, p, t)" and f: "fiber_of K s p fid = None"
  shows "do_SwitchToFiber K me fid tid s = Some (-1, s)"
  using callerD(7) [OF inv c] find_caller [OF inv c] f
  by (auto simp: do_SwitchToFiber_def find_process_eq [OF inv])

definition refused_fiber :: "fiber \<Rightarrow> fiber" where
  "refused_fiber fb = fb\<lparr>failed_activation_counter := failed_activation_counter fb + 1\<rparr>"

lemma switch_busy:
  assumes inv: "kinv K s" and c: "caller K s me tid = Some (a, p, t)" and f: "fiber_of K s p fid = Some f"
    and fb: "live_fiber s f = Some fb" "attached_thread fb \<noteq> NULL"
  shows "do_SwitchToFiber K me fid tid s = Some (-1, store s f (OFiber (refused_fiber fb)))"
proof -
  have "f \<in> nodes (fibers p)" using f by (auto simp: fiber_of_Some [OF callerD(4) [OF inv c]])
  then have "fiber_lock fb" using fiber_links(4) [OF callerD(4) [OF inv c] _ fb(1)] fb(2) by simp
  then have eq: "fb\<lparr>fiber_lock := True, failed_activation_counter := n\<rparr> = fb\<lparr>failed_activation_counter := n\<rparr>" for n
    by (cases fb) simp
  have "store s f (OFiber (fb\<lparr>fiber_lock := True, failed_activation_counter := failed_activation_counter fb + 1\<rparr>)) =
      store s f (OFiber (refused_fiber fb))"
    by (simp only: eq refused_fiber_def)
  then show ?thesis
    using callerD(7) [OF inv c] find_caller [OF inv c] f fb \<open>fiber_lock fb\<close>
    by (auto simp: do_SwitchToFiber_def find_process_eq [OF inv] spin_trylock_live)
qed

text \<open>The three objects and the task a successful switch writes.\<close>

definition resumed_fiber :: "addr \<Rightarrow> fiber \<Rightarrow> fiber" where
  "resumed_fiber t fb = fb\<lparr>fiber_lock := True, attached_thread := Some t,
     activation_counter := activation_counter fb + 1\<rparr>"

definition suspended_fiber :: "task \<Rightarrow> fiber \<Rightarrow> fiber" where
  "suspended_fiber cur gb = gb\<lparr>total_time := total_time gb + utime cur, registers := user_regs cur,
     fpu := fx cur, attached_thread := NULL, fiber_lock := False\<rparr>"

definition switched_state :: "pid_t \<Rightarrow> task \<Rightarrow> addr \<Rightarrow> thread \<Rightarrow> addr \<Rightarrow> fiber \<Rightarrow> addr \<Rightarrow> fiber \<Rightarrow> kstate \<Rightarrow> kstate" where
  "switched_state me cur t th g gb f fb s = s\<lparr>heap := (heap s)
     (f \<mapsto> Live (OFiber (resumed_fiber t fb)), t \<mapsto> Live (OThread (th\<lparr>selected_fiber := Some f\<rparr>)),
      g \<mapsto> Live (OFiber (suspended_fiber cur gb))),
     tasks := (tasks s)(me \<mapsto> cur\<lparr>user_regs := registers fb, fx := fpu fb\<rparr>)\<rparr>"

lemma switch_free:
  assumes inv: "kinv K s" and c: "caller K s me tid = Some (a, p, t)" and f: "fiber_of K s p fid = Some f"
    and fb: "live_fiber s f = Some fb" "attached_thread fb = NULL" and cur: "tasks s me = Some cur"
    and th: "live_thread s t = Some th" "selected_fiber th = Some g" and gb: "live_fiber s g = Some gb"
  shows "do_SwitchToFiber K me fid tid s = Some (0, switched_state me cur t th g gb f fb s)"
proof -
  note cd = callerD [OF inv c]
  have fn: "f \<in> nodes (fibers p)" using f by (auto simp: fiber_of_Some [OF cd(4)])
  then have unl: "\<not> fiber_lock fb" using fiber_links(4) [OF cd(4) fn fb(1)] fb(2) by simp
  have g: "attached_thread gb = Some t"
    using thread_links(3) [OF cd(3,5) th(1)] th(2) gb by auto
  have ne: "f \<noteq> g" "t \<noteq> f" "t \<noteq> g"
    using g fb gb live_types_differ(3) [OF th(1)] by auto
  let ?s0 = "store s f (OFiber (fb\<lparr>fiber_lock := True\<rparr>))"
  have lf: "live_fiber ?s0 f = Some (fb\<lparr>fiber_lock := True\<rparr>)" by (simp add: live_simps)
  have lt: "get_thread K (store s f (OFiber x)) t = Some th" for x
    using ne th(1) by (intro get_live) (simp add: live_simps)
  have lt': "upd_thread (store s f (OFiber x)) t u = Some (store (store s f (OFiber x)) t (OThread (u th)))" for x u
    using ne th(1) by (intro upd_thread_live) (simp add: live_simps)
  have lg: "upd_fiber (store (store s f (OFiber x)) t (OThread y)) g u =
      Some (store (store (store s f (OFiber x)) t (OThread y)) g (OFiber (u gb)))" for x y u
    using ne gb by (intro upd_fiber_live) (simp add: live_simps)
  have gf: "get_fiber K (store (store (store s f (OFiber x)) t (OThread y)) g (OFiber z)) f = Some x" for x y z
    using ne by (intro get_live) (simp add: live_simps)
  have "switch_to K me t f ?s0 = Some (0, set_task (store (store (store s f (OFiber (resumed_fiber t fb)))
      t (OThread (th\<lparr>selected_fiber := Some f\<rparr>))) g (OFiber (suspended_fiber cur gb)))
      me (cur\<lparr>user_regs := registers fb, fx := fpu fb\<rparr>))"
    using cur th(2) lt lt' lg gf
    by (simp add: switch_to_def resumed_fiber_def suspended_fiber_def)
  also have "\<dots> = Some (0, switched_state me cur t th g gb f fb s)"
    by (simp add: switched_state_def set_task_def store_def)
  finally have "switch_to K me t f ?s0 = Some (0, switched_state me cur t th g gb f fb s)" .
  then show ?thesis
    using cd(7) find_caller [OF inv c] f fb unl cur
    by (auto simp: do_SwitchToFiber_def find_process_eq [OF inv] spin_trylock_live)
qed

text \<open>Every call is one of the cases above.\<close>

lemma switch_cases [consumes 2]:
  assumes inv: "kinv K s" and cur: "tasks s me = Some cur"
  obtains (no_caller) "caller K s me tid = None"
  | (no_fiber) a p t where "caller K s me tid = Some (a, p, t)" "fiber_of K s p fid = None"
  | (busy) a p t f fb where "caller K s me tid = Some (a, p, t)" "fiber_of K s p fid = Some f"
      "live_fiber s f = Some fb" "attached_thread fb \<noteq> NULL" "f \<in> nodes (fibers p)"
  | (free) a p t f fb th g gb where "caller K s me tid = Some (a, p, t)" "fiber_of K s p fid = Some f"
      "live_fiber s f = Some fb" "attached_thread fb = NULL" "f \<in> nodes (fibers p)" "live_thread s t = Some th"
      "selected_fiber th = Some g" "live_fiber s g = Some gb"
proof (cases "caller K s me tid")
  case None
  then show ?thesis by (rule no_caller)
next
  case (Some apt)
  then obtain a p t where c: "caller K s me tid = Some (a, p, t)" by (cases apt) auto
  note cd = callerD [OF inv c]
  show ?thesis
  proof (cases "fiber_of K s p fid")
    case None
    then show ?thesis using c by (rule no_fiber [rotated])
  next
    case (Some f)
    then have fn: "f \<in> nodes (fibers p)" by (auto simp: fiber_of_Some [OF cd(4)])
    then obtain fb where fb: "live_fiber s f = Some fb" using fibers_okD [OF cd(4)] by metis
    obtain th g gb where "live_thread s t = Some th" "selected_fiber th = Some g" "live_fiber s g = Some gb"
      using threads_okD [OF cd(3,5)] by metis
    then show ?thesis
      using busy [OF c Some fb _ fn] free [OF c Some fb _ fn] by blast
  qed
qed

lemma fiber_frame_refused: "fiber_frame refused_fiber"
  by (simp add: fiber_frame_def refused_fiber_def)

lemma switched_state_inv:
  assumes inv: "kinv K s" and c: "caller K s me tid = Some (a, p, t)"
    and f: "f \<in> nodes (fibers p)" "live_fiber s f = Some fb" "attached_thread fb = NULL"
    and th: "live_thread s t = Some th" "selected_fiber th = Some g" "live_fiber s g = Some gb"
  shows "kinv K (switched_state me cur t th g gb f fb s)"
  by (rule inv_switch [OF inv callerD(1,2,5) [OF inv c] th f, where th' = "th\<lparr>selected_fiber := Some f\<rparr>"
        and fb' = "resumed_fiber t fb" and gb' = "suspended_fiber cur gb"])
    (use inv in \<open>simp_all add: switched_state_def resumed_fiber_def suspended_fiber_def kinv_def\<close>)

lemma switch_inv:
  assumes inv: "kinv K s" and res: "do_SwitchToFiber K me fid tid s = Some (r, s')"
  shows "kinv K s'"
proof -
  obtain cur where cur: "tasks s me = Some cur"
    using res by (auto simp: do_SwitchToFiber_def bind_eq_Some_conv)
  from inv cur show ?thesis
  proof (cases rule: switch_cases [where tid = tid and fid = fid])
    case no_caller
    then show ?thesis using switch_no_caller [OF inv cur] res inv by simp
  next
    case (no_fiber a p t)
    then show ?thesis using switch_no_fiber [OF inv] res inv by simp
  next
    case (busy a p t f fb)
    then have "s' = store s f (OFiber (refused_fiber fb))"
      using switch_busy [OF inv busy(1-4)] res by simp
    then show ?thesis
      using inv_fiber_frame [OF inv busy(3) fiber_frame_refused] by simp
  next
    case (free a p t f fb th g gb)
    then show ?thesis
      using switch_free [OF inv free(1-4) cur free(6-8)] res switched_state_inv [OF inv] by simp
  qed
qed

text \<open>No call faults: a switch always returns.\<close>

lemma switch_returns:
  assumes inv: "kinv K s" and cur: "tasks s me = Some cur"
  shows "\<exists>r s'. do_SwitchToFiber K me fid tid s = Some (r, s')"
  using inv cur
proof (cases rule: switch_cases [where tid = tid and fid = fid])
  case (free a p t f fb th g gb)
  then show ?thesis using switch_free [OF inv free(1-4) cur free(6-8)] by blast
qed (use switch_no_caller [OF inv cur] switch_no_fiber [OF inv] switch_busy [OF inv] in blast)+

section \<open>Views of the state after an operation\<close>

text \<open>The look-ups depend on the processes and on the keys of the objects only.\<close>

lemma caller_frame:
  assumes "processes s' = processes s" "map_option task_tgid (tasks s' me) = map_option task_tgid (tasks s me)"
    and "live_process s' = live_process s" "tkey s' = tkey s"
  shows "caller K s' me tid = caller K s me tid"
proof (cases "tasks s me")
  case None
  then show ?thesis using assms(2) by (simp add: caller_def)
next
  case (Some cur)
  then obtain cur' where "tasks s' me = Some cur'" "task_tgid cur' = task_tgid cur" using assms(2) by auto
  then show ?thesis
    using Some assms(1,3,4) by (simp add: caller_def proc_of_def thread_of_def pkey_def [abs_def])
qed

lemma fiber_of_frame: "fkey s' = fkey s \<Longrightarrow> fiber_of K s' p = fiber_of K s p"
  by (simp add: fiber_of_def)

lemma switched_views:
  fixes me :: pid_t and cur :: task
  assumes "live_thread s t = Some th" "live_fiber s f = Some fb" "live_fiber s g = Some gb" "f \<noteq> g"
  defines "s' \<equiv> switched_state me cur t th g gb f fb s"
  shows "live_process s' = live_process s" "tkey s' = tkey s" "fkey s' = fkey s"
    "live_thread s' t = Some (th\<lparr>selected_fiber := Some f\<rparr>)"
    "live_fiber s' f = Some (resumed_fiber t fb)" "live_fiber s' g = Some (suspended_fiber cur gb)"
    "tasks s' = (tasks s)(me \<mapsto> cur\<lparr>user_regs := registers fb, fx := fpu fb\<rparr>)" "processes s' = processes s"
proof -
  have ne: "t \<noteq> f" "t \<noteq> g" using live_types_differ(3) assms(1-3) by blast+
  have h: "heap s' = (heap s)(f \<mapsto> Live (OFiber (resumed_fiber t fb)),
      t \<mapsto> Live (OThread (th\<lparr>selected_fiber := Some f\<rparr>)), g \<mapsto> Live (OFiber (suspended_fiber cur gb)))"
    by (simp add: s'_def switched_state_def)
  show "live_process s' = live_process s"
    using assms(1-3) by (auto simp: fun_eq_iff live_process_def live_thread_def live_fiber_def h split: option.splits cell.splits kobj.splits)
  show lt: "live_thread s' t = Some (th\<lparr>selected_fiber := Some f\<rparr>)"
    and lf: "live_fiber s' f = Some (resumed_fiber t fb)" "live_fiber s' g = Some (suspended_fiber cur gb)"
    using ne assms(4) by (simp_all add: heap_live h)
  have other: "live_thread s' x = live_thread s x" if "x \<noteq> t" for x
    using that assms(2,3) by (auto simp: live_thread_def heap_live h)
  show "tkey s' = tkey s"
  proof
    show "tkey s' x = tkey s x" for x
      using lt assms(1) other [of x] by (cases "x = t") (simp_all add: tkey_def)
  qed
  have other: "live_fiber s' x = live_fiber s x" if "x \<noteq> f" "x \<noteq> g" for x
    using that assms(1) by (auto simp: live_fiber_def heap_live h)
  show "fkey s' = fkey s"
  proof
    show "fkey s' x = fkey s x" for x
      using lf assms(2,3) other [of x]
      by (cases "x = f \<or> x = g") (auto simp: fkey_def resumed_fiber_def suspended_fiber_def)
  qed
qed (simp_all add: s'_def switched_state_def)

text \<open>After a successful switch the caller can go back: everything a second switch
  needs, also after user code has run.\<close>

lemma after_switch:
  assumes inv: "kinv K s" and c: "caller K s me tid = Some (a, p, t)" and cur: "tasks s me = Some cur"
    and th: "live_thread s t = Some th" "selected_fiber th = Some g" "live_fiber s g = Some gb"
    and f: "fiber_of K s p fid = Some f" "live_fiber s f = Some fb" "attached_thread fb = NULL"
    and cur2: "task_tgid cur2 = task_tgid cur"
  defines "s' \<equiv> set_task (switched_state me cur t th g gb f fb s) me cur2"
  shows "kinv K s'" "caller K s' me tid = Some (a, p, t)" "tasks s' me = Some cur2"
    "live_thread s' t = Some (th\<lparr>selected_fiber := Some f\<rparr>)" "live_fiber s' f = Some (resumed_fiber t fb)"
    "fiber_of K s' p (fiber_id gb) = Some g" "live_fiber s' g = Some (suspended_fiber cur gb)" "f \<noteq> g"
proof -
  note cd = callerD [OF inv c]
  obtain gn: "g \<in> nodes (fibers p)" and ga: "attached_thread gb = Some t"
    using thread_links(3) [OF cd(3,5) th(1)] th by auto
  show fg: "f \<noteq> g" using ga f th(3) by auto
  have fn: "f \<in> nodes (fibers p)" using f(1) by (simp add: fiber_of_Some [OF cd(4)])
  note v = switched_views [OF th(1) f(2) th(3) fg, of me cur]
  show "kinv K s'"
    using switched_state_inv [OF inv c fn f(2,3) th] by (simp add: s'_def set_task_def)
  show "caller K s' me tid = Some (a, p, t)"
    using caller_frame [of s' s me K tid] v(1,2,7,8) cur cur2 c
    by (simp add: s'_def set_task_def tkey_def [abs_def])
  show "tasks s' me = Some cur2" by (simp add: s'_def set_task_def)
  have "fkey s' = fkey s" using v(3) by (simp add: s'_def set_task_def fkey_def [abs_def])
  then show "fiber_of K s' p (fiber_id gb) = Some g"
    using gn th(3) by (simp add: fiber_of_frame [of s' s] fiber_of_Some [OF cd(4)])
  show "live_thread s' t = Some (th\<lparr>selected_fiber := Some f\<rparr>)" "live_fiber s' f = Some (resumed_fiber t fb)"
    "live_fiber s' g = Some (suspended_fiber cur gb)"
    using v(4-6) by (simp_all add: s'_def set_task_def)
qed

text \<open>After a fiber was created the caller can switch to it.\<close>

lemma after_create:
  assumes inv: "kinv K s" and K: "kapi_ok K" and ids: "ids_left K me s" and cur: "tasks s me = Some cur"
    and c: "caller K s me tid = Some (a, p, t)" and res: "do_CreateFiber K me ptr sz func par tid s = Some (r, s')"
  obtains f where "r = next_fid p" "kinv K s'" "tasks s' me = Some cur" "\<not> is_live s f"
    "caller K s' me tid = Some (a, add_fiber K p f, t)" "fiber_of K s' (add_fiber K p f) r = Some f"
    "live_fiber s' f = Some (created_fiber cur a ptr sz func par r)" "live_thread s' t = live_thread s t"
    "\<forall>x. x \<noteq> f \<longrightarrow> live_fiber s' x = live_fiber s x"
proof -
  note cd = callerD [OF inv c]
  have a: "proc_of K s (task_tgid cur) = Some a" using cd(7) cur by auto
  obtain f where f: "kmalloc_at K (allocs s) (is_live s) = Some f" and r: "r = next_fid p"
    and s': "s' = store (store (alloc_step s) a (OProcess (add_fiber K p f))) f
        (OFiber (created_fiber cur a ptr sz func par r))"
    using res create_converted [OF inv K cur a cd(2,6)] by (auto split: option.splits)
  have inv': "kinv K s'" by (rule create_inv [OF inv K ids res])
  have new: "\<not> is_live s f" using kapi_ok_fresh [OF K f] .
  note apart = nodes_apart [OF cd(2,3,4)]
  have fa: "f \<noteq> a" "f \<noteq> t" using apart(4) [OF new] cd(5) by auto
  have p': "live_process s' a = Some (add_fiber K p f)" using fa by (simp add: s' live_simps)
  have lf: "live_fiber s' x = live_fiber s x" if "x \<noteq> f" for x
  proof -
    have "live_fiber s a = None" using cd(2) by (simp add: heap_live live_fiber_def)
    then show ?thesis using that by (simp add: s' live_simps)
  qed
  have lt: "live_thread s' x = live_thread s x" if "x \<in> nodes (threads p)" for x
    using that apart(1) apart(4) [OF new] by (auto simp: s' live_simps)
  have proc: "proc_of K s' (task_tgid cur) = Some a"
  proof -
    have "processes s' = processes s" "process_id (add_fiber K p f) = process_id p"
      by (simp_all add: s' add_fiber_def)
    then show ?thesis using p' cd(1,7) cur by (auto simp: proc_of_Some [OF inv'])
  qed
  have th: "thread_of K s' (add_fiber K p f) tid = Some t"
    using thread_of_frame [OF cd(3), of "add_fiber K p f" s'] lt cd(6) by (simp add: add_fiber_def)
  have cs: "caller K s' me tid = Some (a, add_fiber K p f, t)"
    using cur proc p' th by (simp add: caller_def s')
  have ff: "live_fiber s' f = Some (created_fiber cur a ptr sz func par r)" by (simp add: s' live_simps)
  have "f \<in> nodes (fibers (add_fiber K p f))" by (simp add: add_fiber_def)
  then have "fiber_of K s' (add_fiber K p f) r = Some f"
    using ff by (simp add: fiber_of_Some [OF callerD(4) [OF inv' cs]])
  then show ?thesis
    using that [OF r inv' _ new cs] ff lt [OF cd(5)] lf cur by (simp add: s')
qed

text \<open>The fiber with a given number in the process of a task.\<close>

definition fiber_named :: "kapi \<Rightarrow> kstate \<Rightarrow> pid_t \<Rightarrow> pid_t \<Rightarrow> (addr \<times> fiber) option" where
  "fiber_named K s me fid = do {
     cur \<leftarrow> tasks s me;
     a \<leftarrow> proc_of K s (task_tgid cur);
     p \<leftarrow> live_process s a;
     f \<leftarrow> fiber_of K s p fid;
     fb \<leftarrow> live_fiber s f;
     Some (f, fb) }"

lemma fiber_named_caller:
  assumes inv: "kinv K s" and c: "caller K s me tid = Some (a, p, t)"
  shows "fiber_named K s me fid = Some (f, fb) \<longleftrightarrow> fiber_of K s p fid = Some f \<and> live_fiber s f = Some fb"
  using c by (auto simp: fiber_named_def caller_def bind_eq_Some_conv)

end
