(* ===== verification/Fls.thy ===== *)
theory Fls
  imports Fiber_Ops
begin

text \<open>
  Fiber local storage: the four FLS operations of \<^verbatim>\<open>module/fibers.c\<close>. They act on the
  fiber the calling thread runs: a bitmap of allocated indices and an array of
  4096 values. The interface locale states what a store of this kind promises to
  its client; it is interpreted on the storage of the current fiber.
\<close>

section \<open>Operations\<close>

text \<open>What the four functions do first: find the process, the thread and the fiber it
  runs. \<^term>\<open>Some NULL\<close> is the early error return of the caller.\<close>

definition fls_fiber :: "kapi \<Rightarrow> pid_t \<Rightarrow> pid_t \<Rightarrow> kstate \<Rightarrow> ptr option" where
  "fls_fiber K me tid s = do {
     cur \<leftarrow> tasks s me;
     p \<leftarrow> find_process_by_tgid K (task_tgid cur) s;
     (case p of None \<Rightarrow> Some NULL
      | Some p \<Rightarrow> do {
          t \<leftarrow> find_thread_by_pid K tid p s;
          (case t of None \<Rightarrow> Some NULL
           | Some t \<Rightarrow> do {
               th \<leftarrow> get_thread K s t;
               Some (selected_fiber th) }) }) }"

text \<open>An access to the array of values, which is an error of the C program outside
  its 4096 cells.\<close>

definition fls_cell :: "fiber \<Rightarrow> nat \<Rightarrow> longlong option" where
  "fls_cell f i = (if i < MAX_FLS_POINTERS then Some (fls f i) else None)"

definition fls_write :: "nat \<Rightarrow> longlong \<Rightarrow> fiber \<Rightarrow> fiber option" where
  "fls_write i v f = (if i < MAX_FLS_POINTERS then Some (f\<lparr>fls := (fls f)(i := v)\<rparr>) else None)"

definition bad_index :: "long \<Rightarrow> bool" where
  "bad_index index \<longleftrightarrow> sint index \<ge> int MAX_FLS_POINTERS \<or> sint index < 0"

definition do_FlsAlloc :: "kapi \<Rightarrow> pid_t \<Rightarrow> pid_t \<Rightarrow> kstate \<Rightarrow> (long \<times> kstate) option" where
  "do_FlsAlloc K me tid s = do {
     f \<leftarrow> fls_fiber K me tid s;
     (case f of None \<Rightarrow> Some (-1, s)
      | Some f \<Rightarrow> do {
          fb \<leftarrow> get_fiber K s f;
          let index = find_first_zero_bit (fls_bitmap fb) MAX_FLS_POINTERS;
          if index = MAX_FLS_POINTERS then Some (-1, s)
          else do {
            s \<leftarrow> upd_fiber s f (\<lambda>x. x\<lparr>fls_bitmap := change_bit index (fls_bitmap x)\<rparr>);
            Some (of_nat index, s) } }) }"

definition do_FlsFree :: "kapi \<Rightarrow> pid_t \<Rightarrow> long \<Rightarrow> pid_t \<Rightarrow> kstate \<Rightarrow> (bool \<times> kstate) option" where
  "do_FlsFree K me index tid s = do {
     f \<leftarrow> fls_fiber K me tid s;
     (case f of None \<Rightarrow> Some (False, s)
      | Some f \<Rightarrow>
          if bad_index index then Some (False, s)
          else do {
            fb \<leftarrow> get_fiber K s f;
            if \<not> test_bit_nr (unat index) (fls_bitmap fb) then Some (False, s)
            else do {
              s \<leftarrow> upd_fiber s f (\<lambda>x. x\<lparr>fls_bitmap := change_bit (unat index) (fls_bitmap x)\<rparr>);
              Some (True, s) } }) }"

definition do_FlsGetValue :: "kapi \<Rightarrow> pid_t \<Rightarrow> long \<Rightarrow> pid_t \<Rightarrow> kstate \<Rightarrow> longlong option" where
  "do_FlsGetValue K me index tid s = do {
     f \<leftarrow> fls_fiber K me tid s;
     (case f of None \<Rightarrow> Some (-1)
      | Some f \<Rightarrow>
          if bad_index index then Some (-1)
          else do {
            fb \<leftarrow> get_fiber K s f;
            if \<not> test_bit_nr (unat index) (fls_bitmap fb) then Some (-1)
            else fls_cell fb (unat index) }) }"

definition do_FlsSetValue :: "kapi \<Rightarrow> pid_t \<Rightarrow> long \<Rightarrow> longlong \<Rightarrow> pid_t \<Rightarrow> kstate \<Rightarrow> kstate option" where
  "do_FlsSetValue K me index value tid s = do {
     f \<leftarrow> fls_fiber K me tid s;
     (case f of None \<Rightarrow> Some s
      | Some f \<Rightarrow>
          if bad_index index then Some s
          else do {
            fb \<leftarrow> get_fiber K s f;
            if \<not> test_bit_nr (unat index) (fls_bitmap fb) then Some s
            else do {
              fb' \<leftarrow> fls_write (unat index) value fb;
              upd_fiber s f (\<lambda>_. fb') } }) }"

section \<open>The running fiber\<close>

definition running :: "kapi \<Rightarrow> pid_t \<Rightarrow> pid_t \<Rightarrow> kstate \<Rightarrow> (addr \<times> fiber) option" where
  "running K me tid s = do {
     (a, p, t) \<leftarrow> caller K s me tid;
     th \<leftarrow> live_thread s t;
     f \<leftarrow> selected_fiber th;
     fb \<leftarrow> live_fiber s f;
     Some (f, fb) }"

lemma runningD:
  assumes inv: "kinv K s" and r: "running K me tid s = Some (f, fb)"
  obtains a p t th where "caller K s me tid = Some (a, p, t)" "live_thread s t = Some th"
    "selected_fiber th = Some f" "live_fiber s f = Some fb" "f \<in> nodes (fibers p)" "attached_thread fb = Some t"
proof -
  obtain a p t th where c: "caller K s me tid = Some (a, p, t)" "live_thread s t = Some th"
      "selected_fiber th = Some f" "live_fiber s f = Some fb"
    using r by (auto simp: running_def bind_eq_Some_conv)
  then show ?thesis
    using that [OF c] thread_links(3) [OF callerD(3,5) [OF inv c(1)] c(2)] by auto
qed

lemma running_None: 
  assumes inv: "kinv K s"
  shows "running K me tid s = None \<longleftrightarrow> caller K s me tid = None"
proof
  assume n: "running K me tid s = None"
  show "caller K s me tid = None"
  proof (rule ccontr)
    assume "caller K s me tid \<noteq> None"
    then obtain a p t where c: "caller K s me tid = Some (a, p, t)" by auto
    obtain th f fb where "live_thread s t = Some th" "selected_fiber th = Some f" "live_fiber s f = Some fb"
      using threads_okD [OF callerD(3,5) [OF inv c]] by metis
    then show False
      using n c by (simp add: running_def)
  qed
qed (simp add: running_def)

lemma fls_fiber_eq:
  assumes inv: "kinv K s" and cur: "tasks s me = Some cur"
  shows "fls_fiber K me tid s = Some (map_option fst (running K me tid s))"
proof (cases "caller K s me tid")
  case None
  then have r: "running K me tid s = None" by (simp add: running_None [OF inv])
  from caller_None [OF inv cur None] show ?thesis
  proof (elim disjE exE conjE)
    assume "proc_of K s (task_tgid cur) = None"
    then show ?thesis using inv cur r by (simp add: fls_fiber_def find_process_eq)
  next
    fix a p
    assume a: "proc_of K s (task_tgid cur) = Some a" "live_process s a = Some p" "thread_of K s p tid = None"
    then have "threads_ok K s a p" by (auto simp: proc_of_Some [OF inv] elim: inv_process [OF inv])
    then show ?thesis using inv cur a r by (simp add: fls_fiber_def find_process_eq find_thread_eq)
  qed
next
  case (Some apt)
  then obtain a p t where c: "caller K s me tid = Some (a, p, t)" by (cases apt) auto
  obtain th f fb where t: "live_thread s t = Some th" "selected_fiber th = Some f" "live_fiber s f = Some fb"
    using threads_okD [OF callerD(3,5) [OF inv c]] by metis
  then show ?thesis
    using callerD(7) [OF inv c] find_caller(1) [OF inv c] c
    by (auto simp: fls_fiber_def find_process_eq [OF inv] get_live running_def)
qed

text \<open>Writing a fiber changes neither the processes nor the threads.\<close>

lemma live_store_fiber:
  assumes "live_fiber s f = Some fb"
  shows "live_process (store s f (OFiber x)) = live_process s"
    "live_thread (store s f (OFiber x)) = live_thread s"
proof -
  have "live_process s f = None" "live_thread s f = None"
    using assms by (auto simp: heap_live live_process_def live_thread_def)
  then show "live_process (store s f (OFiber x)) = live_process s"
    "live_thread (store s f (OFiber x)) = live_thread s"
    by (auto simp: live_simps fun_eq_iff)
qed

lemma caller_store_fiber:
  assumes "live_fiber s f = Some fb"
  shows "caller K (store s f (OFiber x)) me tid = caller K s me tid"
  using live_store_fiber [OF assms, of x]
  by (simp add: caller_def proc_of_def thread_of_def pkey_def [abs_def] tkey_def [abs_def])

lemma running_store:
  assumes inv: "kinv K s" and r: "running K me tid s = Some (f, fb)"
  shows "running K me tid (store s f (OFiber x)) = Some (f, x)"
proof -
  obtain a p t th where c: "caller K s me tid = Some (a, p, t)" "live_thread s t = Some th"
      "selected_fiber th = Some f" "live_fiber s f = Some fb"
    using runningD [OF inv r] by metis
  then show ?thesis
    by (simp add: running_def caller_store_fiber [OF c(4)] live_store_fiber [OF c(4)] live_simps)
qed

lemma running_live: "running K me tid s = Some (f, fb) \<Longrightarrow> live_fiber s f = Some fb \<and> (\<exists>cur. tasks s me = Some cur)"
  by (auto simp: running_def caller_def bind_eq_Some_conv)

lemma fls_fiber_running:
  assumes inv: "kinv K s" and r: "running K me tid s = Some (f, fb)"
  shows "fls_fiber K me tid s = Some (Some f)"
proof -
  obtain cur where "tasks s me = Some cur" using running_live [OF r] by blast
  then show ?thesis using fls_fiber_eq [OF inv, of me cur tid] r by simp
qed

section \<open>The operations on the running fiber\<close>

lemma index_of_nat:
  assumes "i < MAX_FLS_POINTERS"
  shows "\<not> bad_index (of_nat i)" "unat (of_nat i :: long) = i"
proof -
  have "sint (of_nat i :: long) = int i"
    using assms by (intro sint_of_nat_small) (simp add: MAX_FLS_POINTERS_def)
  then show "\<not> bad_index (of_nat i)" using assms by (simp add: bad_index_def)
  show "unat (of_nat i :: long) = i" using assms by (simp add: unat_of_nat MAX_FLS_POINTERS_def)
qed

lemma good_index:
  assumes "\<not> bad_index index"
  shows "unat index < MAX_FLS_POINTERS"
proof -
  have "uint index < int MAX_FLS_POINTERS"
    using assms sint_eq_uint_pos [of index] by (simp add: bad_index_def)
  then show ?thesis unfolding uint_nat by (rule of_nat_less_imp_less)
qed

text \<open>Marking and unmarking an index, and writing a value, as updates of the fiber.\<close>

definition fls_flip :: "nat \<Rightarrow> fiber \<Rightarrow> fiber" where
  "fls_flip i fb = fb\<lparr>fls_bitmap := change_bit i (fls_bitmap fb)\<rparr>"

definition fls_store_at :: "nat \<Rightarrow> longlong \<Rightarrow> fiber \<Rightarrow> fiber" where
  "fls_store_at i v fb = fb\<lparr>fls := (fls fb)(i := v)\<rparr>"

lemma fiber_frame_fls [simp]: "fiber_frame (fls_flip i)" "fiber_frame (fls_store_at i v)"
  by (simp_all add: fiber_frame_def fls_flip_def fls_store_at_def)

lemma fls_alloc_eq:
  assumes inv: "kinv K s" and r: "running K me tid s = Some (f, fb)"
  shows "do_FlsAlloc K me tid s =
    (let i = find_first_zero_bit (fls_bitmap fb) MAX_FLS_POINTERS
     in if i = MAX_FLS_POINTERS then Some (-1, s)
        else Some (of_nat i, store s f (OFiber (fls_flip i fb))))"
  using fls_fiber_running [OF inv r] running_live [OF r]
  by (simp add: do_FlsAlloc_def get_live upd_fiber_live fls_flip_def Let_def)

lemma fls_free_eq:
  assumes inv: "kinv K s" and r: "running K me tid s = Some (f, fb)"
  shows "do_FlsFree K me index tid s =
    (if bad_index index \<or> \<not> fls_bitmap fb (unat index) then Some (False, s)
     else Some (True, store s f (OFiber (fls_flip (unat index) fb))))"
  using fls_fiber_running [OF inv r] running_live [OF r]
  by (simp add: do_FlsFree_def get_live upd_fiber_live fls_flip_def test_bit_nr_def)

lemma fls_get_eq:
  assumes inv: "kinv K s" and r: "running K me tid s = Some (f, fb)"
  shows "do_FlsGetValue K me index tid s =
    (if bad_index index \<or> \<not> fls_bitmap fb (unat index) then Some (-1) else Some (fls fb (unat index)))"
  using fls_fiber_running [OF inv r] running_live [OF r] good_index [of index]
  by (simp add: do_FlsGetValue_def get_live test_bit_nr_def fls_cell_def)

lemma fls_set_eq:
  assumes inv: "kinv K s" and r: "running K me tid s = Some (f, fb)"
  shows "do_FlsSetValue K me index v tid s =
    (if bad_index index \<or> \<not> fls_bitmap fb (unat index) then Some s
     else Some (store s f (OFiber (fls_store_at (unat index) v fb))))"
  using fls_fiber_running [OF inv r] running_live [OF r] good_index [of index]
  by (simp add: do_FlsSetValue_def get_live upd_fiber_live test_bit_nr_def fls_write_def fls_store_at_def)

text \<open>A thread that is not a fiber gets the error value and changes nothing.\<close>

lemma fls_not_running:
  assumes inv: "kinv K s" and cur: "tasks s me = Some cur" and r: "running K me tid s = None"
  shows "do_FlsAlloc K me tid s = Some (-1, s)" "do_FlsFree K me index tid s = Some (False, s)"
    "do_FlsGetValue K me index tid s = Some (-1)" "do_FlsSetValue K me index v tid s = Some s"
  using fls_fiber_eq [OF inv cur, of tid] r
  by (simp_all add: do_FlsAlloc_def do_FlsFree_def do_FlsGetValue_def do_FlsSetValue_def)

section \<open>The storage contract\<close>

text \<open>What a client of a local storage may rely on. \<open>used\<close> is the set of allocated
  indices of a state, \<open>contents\<close> its values, \<open>size\<close> the number of indices.\<close>

locale local_storage =
  fixes ready :: "'s \<Rightarrow> bool"
    and used :: "'s \<Rightarrow> nat \<Rightarrow> bool"
    and contents :: "'s \<Rightarrow> nat \<Rightarrow> longlong"
    and slots :: nat
    and alloc :: "'s \<Rightarrow> (long \<times> 's) option"
    and free :: "long \<Rightarrow> 's \<Rightarrow> (bool \<times> 's) option"
    and getv :: "long \<Rightarrow> 's \<Rightarrow> longlong option"
    and setv :: "long \<Rightarrow> longlong \<Rightarrow> 's \<Rightarrow> 's option"
  assumes alloc_free_slot: "\<lbrakk>ready s; i < slots; \<not> used s i; \<forall>j < i. used s j\<rbrakk> \<Longrightarrow>
        \<exists>s'. alloc s = Some (of_nat i, s') \<and> ready s' \<and> used s' = (used s)(i := True) \<and> contents s' = contents s"
    and alloc_full: "\<lbrakk>ready s; \<forall>i < slots. used s i\<rbrakk> \<Longrightarrow> alloc s = Some (-1, s)"
    and free_used: "\<lbrakk>ready s; i < slots; used s i\<rbrakk> \<Longrightarrow>
        \<exists>s'. free (of_nat i) s = Some (True, s') \<and> ready s' \<and> used s' = (used s)(i := False) \<and> contents s' = contents s"
    and free_unused: "\<lbrakk>ready s; i < slots; \<not> used s i\<rbrakk> \<Longrightarrow> free (of_nat i) s = Some (False, s)"
    and get_used: "\<lbrakk>ready s; i < slots; used s i\<rbrakk> \<Longrightarrow> getv (of_nat i) s = Some (contents s i)"
    and get_unused: "\<lbrakk>ready s; i < slots; \<not> used s i\<rbrakk> \<Longrightarrow> getv (of_nat i) s = Some (-1)"
    and set_used: "\<lbrakk>ready s; i < slots; used s i\<rbrakk> \<Longrightarrow>
        \<exists>s'. setv (of_nat i) v s = Some s' \<and> ready s' \<and> used s' = used s \<and> contents s' = (contents s)(i := v)"
    and set_unused: "\<lbrakk>ready s; i < slots; \<not> used s i\<rbrakk> \<Longrightarrow> setv (of_nat i) v s = Some s"
begin

lemma set_get:
  assumes "ready s" "i < slots" "used s i"
  shows "\<exists>s'. setv (of_nat i) v s = Some s' \<and> getv (of_nat i) s' = Some v"
  using set_used [OF assms, of v] get_used [OF _ assms(2)] assms(3) by fastforce

lemma set_get_other:
  assumes "ready s" "i < slots" "used s i" "j < slots" "j \<noteq> i"
  shows "\<exists>s'. setv (of_nat i) v s = Some s' \<and> getv (of_nat j) s' = getv (of_nat j) s"
proof -
  obtain s' where s': "setv (of_nat i) v s = Some s'" "ready s'" "used s' = used s" "contents s' = (contents s)(i := v)"
    using set_used [OF assms(1-3), of v] by blast
  have "getv (of_nat j) s' = getv (of_nat j) s"
    using s' assms get_used [of _ j] get_unused [of _ j] by (cases "used s j") auto
  with s'(1) show ?thesis by blast
qed

lemma free_get:
  assumes "ready s" "i < slots" "used s i"
  shows "\<exists>s'. free (of_nat i) s = Some (True, s') \<and> getv (of_nat i) s' = Some (-1) \<and>
    free (of_nat i) s' = Some (False, s')"
  using free_used [OF assms] get_unused [OF _ assms(2)] free_unused [OF _ assms(2)] by fastforce

text \<open>The whole life of an index: allocated, written, read, given back, and allocated
  again, when it still shows the value it was left with.\<close>

lemma life_cycle:
  assumes "ready s" "i < slots" "\<not> used s i" "\<forall>j < i. used s j"
  shows "\<exists>s1 s2 s3 s4. alloc s = Some (of_nat i, s1) \<and> setv (of_nat i) v s1 = Some s2 \<and>
    getv (of_nat i) s2 = Some v \<and> free (of_nat i) s2 = Some (True, s3) \<and> getv (of_nat i) s3 = Some (-1) \<and>
    alloc s3 = Some (of_nat i, s4) \<and> getv (of_nat i) s4 = Some v"
proof -
  obtain s1 where s1: "alloc s = Some (of_nat i, s1)" "ready s1" "used s1 = (used s)(i := True)"
    using alloc_free_slot [OF assms] by blast
  obtain s2 where s2: "setv (of_nat i) v s1 = Some s2" "ready s2" "used s2 = used s1" "contents s2 = (contents s1)(i := v)"
    using set_used [OF s1(2) assms(2), of v] s1(3) by auto
  obtain s3 where s3: "free (of_nat i) s2 = Some (True, s3)" "ready s3" "used s3 = used s" "contents s3 = contents s2"
    using free_used [OF s2(2) assms(2)] s1(3) s2(3) fun_upd_idem [of "used s" i False] assms(3) by auto
  obtain s4 where s4: "alloc s3 = Some (of_nat i, s4)" "ready s4" "used s4 = (used s)(i := True)" "contents s4 = contents s3"
    using alloc_free_slot [OF s3(2) assms(2)] s3(3) assms(3,4) by auto
  show ?thesis
    using s1 s2 s3 s4 get_used [OF s2(2) assms(2)] get_unused [OF s3(2) assms(2)] get_used [OF s4(2) assms(2)] assms(3)
    by auto
qed

end

text \<open>The state as the storage of the fiber that a thread runs.\<close>

definition fls_ready :: "kapi \<Rightarrow> pid_t \<Rightarrow> pid_t \<Rightarrow> kstate \<Rightarrow> bool" where
  "fls_ready K me tid s \<longleftrightarrow> kinv K s \<and> running K me tid s \<noteq> None"

definition fls_used :: "kapi \<Rightarrow> pid_t \<Rightarrow> pid_t \<Rightarrow> kstate \<Rightarrow> nat \<Rightarrow> bool" where
  "fls_used K me tid s = (case running K me tid s of None \<Rightarrow> (\<lambda>_. False) | Some (f, fb) \<Rightarrow> fls_bitmap fb)"

definition fls_contents :: "kapi \<Rightarrow> pid_t \<Rightarrow> pid_t \<Rightarrow> kstate \<Rightarrow> nat \<Rightarrow> longlong" where
  "fls_contents K me tid s = (case running K me tid s of None \<Rightarrow> (\<lambda>_. 0) | Some (f, fb) \<Rightarrow> fls fb)"

lemma fls_store_views:
  assumes inv: "kinv K s" and r: "running K me tid s = Some (f, fb)" and g: "fiber_frame g"
  shows "fls_ready K me tid (store s f (OFiber (g fb)))"
    "fls_used K me tid (store s f (OFiber (g fb))) = fls_bitmap (g fb)"
    "fls_contents K me tid (store s f (OFiber (g fb))) = fls (g fb)"
  using running_store [OF inv r, of "g fb"] inv_fiber_frame [OF inv _ g] running_live [OF r]
  by (auto simp: fls_ready_def fls_used_def fls_contents_def)

interpretation kfls: local_storage "fls_ready K me tid" "fls_used K me tid" "fls_contents K me tid" MAX_FLS_POINTERS
  "do_FlsAlloc K me tid" "\<lambda>i. do_FlsFree K me i tid" "\<lambda>i. do_FlsGetValue K me i tid"
  "\<lambda>i v. do_FlsSetValue K me i v tid"
  for K :: kapi and me tid :: pid_t
proof (unfold_locales, goal_cases)
  case (1 s i)
  then obtain f fb where inv: "kinv K s" and r: "running K me tid s = Some (f, fb)"
    by (auto simp: fls_ready_def)
  have u: "fls_used K me tid s = fls_bitmap fb" "fls_contents K me tid s = fls fb"
    using r by (simp_all add: fls_used_def fls_contents_def)
  have "find_first_zero_bit (fls_bitmap fb) MAX_FLS_POINTERS = i"
    using 1 u find_first_zero_bit_least [of i "fls_bitmap fb" MAX_FLS_POINTERS]
      find_first_zero_bit_free [of "fls_bitmap fb" MAX_FLS_POINTERS] by (metis linorder_neqE_nat order_less_trans)
  then show ?case
    using fls_alloc_eq [OF inv r] 1 u fls_store_views [OF inv r fiber_frame_fls(1) [of i]]
    by (simp add: fls_flip_def change_bit_def)
next
  case (2 s)
  then obtain f fb where inv: "kinv K s" and r: "running K me tid s = Some (f, fb)"
    by (auto simp: fls_ready_def)
  then show ?case
    using fls_alloc_eq [OF inv r] 2 find_first_zero_bit_full [of "fls_bitmap fb" MAX_FLS_POINTERS]
    by (simp add: fls_used_def)
next
  case (3 s i)
  then obtain f fb where inv: "kinv K s" and r: "running K me tid s = Some (f, fb)"
    by (auto simp: fls_ready_def)
  then show ?case
    using fls_free_eq [OF inv r, of "of_nat i"] 3 index_of_nat [of i] fls_store_views [OF inv r fiber_frame_fls(1) [of i]]
    by (simp add: fls_used_def fls_contents_def fls_flip_def change_bit_def)
next
  case (4 s i)
  then obtain f fb where inv: "kinv K s" and r: "running K me tid s = Some (f, fb)"
    by (auto simp: fls_ready_def)
  then show ?case
    using fls_free_eq [OF inv r, of "of_nat i"] 4 index_of_nat [of i] by (simp add: fls_used_def)
next
  case (5 s i)
  then obtain f fb where inv: "kinv K s" and r: "running K me tid s = Some (f, fb)"
    by (auto simp: fls_ready_def)
  then show ?case
    using fls_get_eq [OF inv r, of "of_nat i"] 5 index_of_nat [of i] by (simp add: fls_used_def fls_contents_def)
next
  case (6 s i)
  then obtain f fb where inv: "kinv K s" and r: "running K me tid s = Some (f, fb)"
    by (auto simp: fls_ready_def)
  then show ?case
    using fls_get_eq [OF inv r, of "of_nat i"] 6 index_of_nat [of i] by (simp add: fls_used_def)
next
  case (7 s i v)
  then obtain f fb where inv: "kinv K s" and r: "running K me tid s = Some (f, fb)"
    by (auto simp: fls_ready_def)
  then show ?case
    using fls_set_eq [OF inv r, of "of_nat i" v] 7 index_of_nat [of i] fls_store_views [OF inv r fiber_frame_fls(2) [of i v]]
    by (simp add: fls_used_def fls_contents_def fls_store_at_def)
next
  case (8 s i v)
  then obtain f fb where inv: "kinv K s" and r: "running K me tid s = Some (f, fb)"
    by (auto simp: fls_ready_def)
  then show ?case
    using fls_set_eq [OF inv r, of "of_nat i" v] 8 index_of_nat [of i] by (simp add: fls_used_def)
qed

section \<open>Preservation of the invariant\<close>

text \<open>A call that returns left the state alone or rewrote the running fiber without
  touching its identity and its links.\<close>

definition fls_touched :: "kapi \<Rightarrow> pid_t \<Rightarrow> pid_t \<Rightarrow> kstate \<Rightarrow> kstate \<Rightarrow> bool" where
  "fls_touched K me tid s s' \<longleftrightarrow> s' = s \<or>
     (\<exists>f fb g. running K me tid s = Some (f, fb) \<and> fiber_frame g \<and> s' = store s f (OFiber (g fb)))"

lemma fls_touchedI:
  "fls_touched K me tid s s"
  "running K me tid s = Some (f, fb) \<Longrightarrow> fiber_frame g \<Longrightarrow> fls_touched K me tid s (store s f (OFiber (g fb)))"
  unfolding fls_touched_def by blast+

lemma fls_task:
  assumes "fls_fiber K me tid s = Some x"
  shows "\<exists>cur. tasks s me = Some cur"
  using assms by (auto simp: fls_fiber_def bind_eq_Some_conv)

lemma fls_results:
  assumes inv: "kinv K s"
  shows "do_FlsAlloc K me tid s = Some (r, s') \<Longrightarrow> fls_touched K me tid s s'"
    "do_FlsFree K me index tid s = Some (b, s') \<Longrightarrow> fls_touched K me tid s s'"
    "do_FlsSetValue K me index v tid s = Some s' \<Longrightarrow> fls_touched K me tid s s'"
proof -
  show "fls_touched K me tid s s'" if res: "do_FlsAlloc K me tid s = Some (r, s')"
  proof (cases "running K me tid s")
    case None
    obtain x where "fls_fiber K me tid s = Some x" using res unfolding do_FlsAlloc_def by (auto simp: bind_eq_Some_conv)
    then obtain cur where "tasks s me = Some cur" using fls_task by blast
    then show ?thesis using res fls_not_running(1) [OF inv _ None] by (simp add: fls_touchedI)
  next
    case (Some a)
    then obtain f fb where r: "running K me tid s = Some (f, fb)" by (cases a) auto
    then show ?thesis using res fls_alloc_eq [OF inv r]
      by (auto simp: fls_touchedI Let_def split: if_splits)
  qed
  show "fls_touched K me tid s s'" if res: "do_FlsFree K me index tid s = Some (b, s')"
  proof (cases "running K me tid s")
    case None
    obtain x where "fls_fiber K me tid s = Some x" using res unfolding do_FlsFree_def by (auto simp: bind_eq_Some_conv)
    then obtain cur where "tasks s me = Some cur" using fls_task by blast
    then show ?thesis using res fls_not_running(2) [OF inv _ None] by (simp add: fls_touchedI)
  next
    case (Some a)
    then obtain f fb where r: "running K me tid s = Some (f, fb)" by (cases a) auto
    then show ?thesis using res fls_free_eq [OF inv r]
      by (auto simp: fls_touchedI split: if_splits)
  qed
  show "fls_touched K me tid s s'" if res: "do_FlsSetValue K me index v tid s = Some s'"
  proof (cases "running K me tid s")
    case None
    obtain x where "fls_fiber K me tid s = Some x" using res unfolding do_FlsSetValue_def by (auto simp: bind_eq_Some_conv)
    then obtain cur where "tasks s me = Some cur" using fls_task by blast
    then show ?thesis using res fls_not_running(4) [OF inv _ None] by (simp add: fls_touchedI)
  next
    case (Some a)
    then obtain f fb where r: "running K me tid s = Some (f, fb)" by (cases a) auto
    then show ?thesis using res fls_set_eq [OF inv r]
      by (auto simp: fls_touchedI split: if_splits)
  qed
qed

lemma fls_touched_inv:
  assumes "kinv K s" "fls_touched K me tid s s'"
  shows "kinv K s'"
  using assms inv_fiber_frame [OF assms(1)] running_live unfolding fls_touched_def by blast

lemma fls_inv:
  assumes inv: "kinv K s"
  shows "do_FlsAlloc K me tid s = Some (r, s') \<Longrightarrow> kinv K s'"
    "do_FlsFree K me index tid s = Some (b, s') \<Longrightarrow> kinv K s'"
    "do_FlsSetValue K me index v tid s = Some s' \<Longrightarrow> kinv K s'"
  by (rule fls_touched_inv [OF inv], erule fls_results [OF inv])+

lemma fls_returns:
  assumes inv: "kinv K s" and cur: "tasks s me = Some cur"
  shows "\<exists>r s'. do_FlsAlloc K me tid s = Some (r, s')" "\<exists>r s'. do_FlsFree K me index tid s = Some (r, s')"
    "\<exists>v. do_FlsGetValue K me index tid s = Some v" "\<exists>s'. do_FlsSetValue K me index v tid s = Some s'"
  using fls_not_running [OF assms, of tid] fls_alloc_eq [OF inv, of me tid] fls_free_eq [OF inv, of me tid]
    fls_get_eq [OF inv, of me tid] fls_set_eq [OF inv, of me tid]
  by (cases "running K me tid s"; force simp: Let_def)+

section \<open>The fiber of a converted thread\<close>

lemma convert_new_cases:
  assumes inv: "kinv K s" and K: "kapi_ok K" and ids: "ids_left K me s" and cur: "tasks s me = Some cur"
    and c: "caller K s me tid = None" and res: "do_ConvertThreadToFiber K me tid s = Some (fid, s')"
  obtains a p t f s1 where "kinv K s1" "tasks s1 = tasks s" "a \<in> nodes (processes s1)" "live_process s1 a = Some p"
    "process_id p = task_tgid cur" "unat (last_fiber_id p) + 1 < 2 ^ 31" "thread_of K s1 p tid = None"
    "two_blocks K s1 = Some (t, f)" "fid = next_fid p" "s' = converted_state K cur a p t f tid s1"
proof -
  note result = that
  have finish: thesis if s1: "kinv K s1" "tasks s1 = tasks s" "a \<in> nodes (processes s1)" "live_process s1 a = Some p"
      "process_id p = task_tgid cur" "unat (last_fiber_id p) + 1 < 2 ^ 31" "thread_of K s1 p tid = None"
    and r: "convert_thread K me a tid s1 = Some (fid, s')" for s1 a p
  proof -
    have "threads_ok K s1 a p" using inv_process [OF s1(1,3)] s1(4) by auto
    then obtain t f where "two_blocks K s1 = Some (t, f)" "fid = next_fid p" "s' = converted_state K cur a p t f tid s1"
      using r convert_thread_new [OF K _ s1(4) _ s1(7), of me cur] s1(2) cur by (auto split: option.splits)
    then show thesis by (rule result [OF s1])
  qed
  show thesis
  proof (cases "proc_of K s (task_tgid cur)")
    case None
    then obtain a where a: "kmalloc_at K (allocs s) (is_live s) = Some a"
      and res': "convert_thread K me a tid (registered_state K cur a s) = Some (fid, s')"
      using res convert_unregistered [OF inv cur None] by (auto split: option.splits)
    note reg = registered_state_inv [OF inv K None kapi_ok_fresh [OF K a]]
    show thesis
      by (rule finish [OF reg(1) _ reg(2,3) _ _ _ res'])
        (simp_all add: registered_state_def new_process_def thread_of_def table_find_def hash_init_def)
  next
    case (Some a)
    then obtain p where p: "a \<in> nodes (processes s)" "live_process s a = Some p" "process_id p = task_tgid cur"
      by (auto simp: proc_of_Some [OF inv])
    have "thread_of K s p tid = None" using c cur Some p by (auto simp: caller_def split: bind_splits)
    then show thesis
      using finish [OF inv refl p] ids cur Some p(2) res convert_registered [OF inv cur Some]
      by (simp add: ids_left_def)
  qed
qed

lemma converted_running:
  assumes inv: "kinv K s" and K: "kapi_ok K" and cur: "tasks s me = Some cur"
    and a: "a \<in> nodes (processes s)" "live_process s a = Some p" "process_id p = task_tgid cur"
    and bound: "unat (last_fiber_id p) + 1 < 2 ^ 31" and t: "thread_of K s p tid = None"
    and new: "\<not> is_live s t" "\<not> is_live s f" "t \<noteq> f"
  shows "running K me tid (converted_state K cur a p t f tid s) = Some (f, converted_fiber cur a (next_fid p) t)"
proof -
  let ?s = "converted_state K cur a p t f tid s" and ?p = "add_fiber K (add_thread K p t tid) f"
  let ?th = "\<lparr>thread_id = tid, parent = Some a, selected_fiber = Some f\<rparr>"
  have inv': "kinv K ?s" by (rule converted_state_inv [OF inv K a(1,2) bound t new])
  have "a \<noteq> t" "a \<noteq> f" using new live_is_live(1) [OF a(2)] by auto
  then have live: "live_process ?s a = Some ?p" "live_thread ?s t = Some ?th"
      "live_fiber ?s f = Some (converted_fiber cur a (next_fid p) t)"
    using new(3) by (simp_all add: heap_live converted_state_def)
  have an: "a \<in> nodes (processes ?s)" using a(1) by (simp add: converted_state_def)
  have pid: "process_id ?p = task_tgid cur" using a(3) by (simp add: add_fiber_def add_thread_def)
  have pr: "proc_of K ?s (task_tgid cur) = Some a"
    using an live(1) pid by (simp add: proc_of_Some [OF inv'])
  have ok: "threads_ok K ?s a ?p" using inv_process [OF inv' an] live(1) by auto
  have tn: "t \<in> nodes (threads ?p)" by (simp add: add_fiber_def add_thread_def)
  have "thread_of K ?s ?p tid = Some t"
    using live(2) tn by (simp add: thread_of_Some [OF ok])
  then show ?thesis
    using cur pr live by (simp add: running_def caller_def converted_state_def)
qed

end
