(* ===== verification/Fiber_Exit.thy ===== *)
theory Fiber_Exit
  imports Fls
begin

text \<open>
  The end of threads and processes: \<open>process_cleanup\<close> of \<^verbatim>\<open>module/fibers.c\<close>, which runs
  when the device is closed, and the \<open>do_exit\<close> probe \<open>exit_cleanup\<close> of
  \<^verbatim>\<open>module/kprobes.c\<close>. Both give objects back with \<open>kfree\<close> inside a walk of the table the
  objects are chained in, so what they do depends on whether freed memory can
  still be read (\<open>stale_reads\<close>).
\<close>

section \<open>Operations\<close>

definition process_cleanup :: "kapi \<Rightarrow> pid_t \<Rightarrow> kstate \<Rightarrow> kstate option" where
  "process_cleanup K me s = do {
     cur \<leftarrow> tasks s me;
     p \<leftarrow> find_process_by_tgid K (task_tgid cur) s;
     (case p of None \<Rightarrow> Some s
      | Some p \<Rightarrow> do {
          pr \<leftarrow> get_process K s p;
          s \<leftarrow> kfree_each K (hash_nodes (threads pr)) s;
          pr \<leftarrow> get_process K s p;
          s \<leftarrow> kfree_each K (hash_nodes (fibers pr)) s;
          let s = s\<lparr>processes := hash_del_rcu (processes s) p\<rparr>;
          kfree s p }) }"

text \<open>The fiber of a dying thread keeps the context it had and can be taken by another
  thread.\<close>

definition leave_fiber :: "task \<Rightarrow> addr \<Rightarrow> kstate \<Rightarrow> kstate option" where
  "leave_fiber cur g s = do {
     s \<leftarrow> upd_fiber s g (\<lambda>x. x\<lparr>registers := user_regs cur, fpu := fx cur\<rparr>);
     s \<leftarrow> upd_fiber s g (\<lambda>x. x\<lparr>attached_thread := NULL\<rparr>);
     upd_fiber s g (\<lambda>x. x\<lparr>fiber_lock := False\<rparr>) }"

definition exit_cleanup :: "kapi \<Rightarrow> pid_t \<Rightarrow> kstate \<Rightarrow> kstate option" where
  "exit_cleanup K me s = do {
     cur \<leftarrow> tasks s me;
     p \<leftarrow> find_process_by_tgid K (task_tgid cur) s;
     (case p of None \<Rightarrow> Some s
      | Some p \<Rightarrow> do {
          t \<leftarrow> find_thread_by_pid K (task_pid cur) p s;
          (case t of None \<Rightarrow> Some s
           | Some t \<Rightarrow> do {
               th \<leftarrow> get_thread K s t;
               pa \<leftarrow> parent th;
               s \<leftarrow> upd_process s pa (\<lambda>p. p\<lparr>active_threads := active_threads p - 1\<rparr>);
               pr \<leftarrow> get_process K s pa;
               let ret = active_threads pr;
               s \<leftarrow> (case selected_fiber th of
                        Some g \<Rightarrow> if ret \<noteq> 0 then leave_fiber cur g s else Some s
                      | None \<Rightarrow> Some s);
               s \<leftarrow> upd_process s p (\<lambda>p. p\<lparr>threads := hash_del_rcu (threads p) t\<rparr>);
               s \<leftarrow> kfree s t;
               if ret = 0 then do {
                 pr \<leftarrow> get_process K s p;
                 s \<leftarrow> kfree_each K (hash_nodes (fibers pr)) s;
                 let s = s\<lparr>processes := hash_del_rcu (processes s) p\<rparr>;
                 kfree s p }
               else Some s }) }) }"

section \<open>Freeing\<close>

definition free_all :: "addr set \<Rightarrow> kstate \<Rightarrow> kstate" where
  "free_all A s = s\<lparr>heap := (\<lambda>x. if x \<in> A then
     (case heap s x of Some (Live y) \<Rightarrow> Some (Freed y) | c \<Rightarrow> c) else heap s x)\<rparr>"

lemma free_all_fields [simp]:
  "processes (free_all A s) = processes s" "tasks (free_all A s) = tasks s" "allocs (free_all A s) = allocs s"
  "struct_process_lock (free_all A s) = struct_process_lock s" "slept_in_atomic (free_all A s) = slept_in_atomic s"
  by (simp_all add: free_all_def)

lemma live_free_all [live_simps]:
  "is_live (free_all A s) x \<longleftrightarrow> x \<notin> A \<and> is_live s x"
  "live_process (free_all A s) x = (if x \<in> A then None else live_process s x)"
  "live_thread (free_all A s) x = (if x \<in> A then None else live_thread s x)"
  "live_fiber (free_all A s) x = (if x \<in> A then None else live_fiber s x)"
  by (auto simp: free_all_def is_live_def live_process_def live_thread_def live_fiber_def
      split: option.splits cell.splits)

lemma free_all_empty [simp]: "free_all {} s = s"
  by (simp add: free_all_def)

lemma free_all_free_all [simp]: "free_all B (free_all A s) = free_all (A \<union> B) s"
  by (auto simp: free_all_def fun_eq_iff split: option.split cell.split)

lemma heap_free_all: "x \<notin> A \<Longrightarrow> heap (free_all A s) x = heap s x"
  by (simp add: free_all_def)

lemma kfree_live: "is_live s a \<Longrightarrow> kfree s a = Some (free_all {a} s)"
  by (auto simp: kfree_def is_live_def free_all_def fun_eq_iff)

text \<open>The loop frees every node of the table when the freed nodes stay readable; it
  faults on the first node otherwise.\<close>

lemma kfree_each_stale:
  assumes "stale_reads K" "distinct as" "\<And>a. a \<in> set as \<Longrightarrow> is_live s a"
  shows "kfree_each K as s = Some (free_all (set as) s)"
  using assms(2,3)
proof (induction as arbitrary: s)
  case (Cons a as)
  have a: "is_live s a" using Cons.prems by simp
  then obtain x where "heap s a = Some (Live x)" by (auto simp: is_live_def)
  then have "get_obj K (free_all {a} s) a = Some x"
    using assms(1) by (simp add: get_obj_def free_all_def)
  moreover have "kfree_each K as (free_all {a} s) = Some (free_all (set as) (free_all {a} s))"
    using Cons.prems by (intro Cons.IH) (auto simp: live_simps)
  ultimately show ?case
    using a by (simp add: kfree_live)
qed simp

lemma kfree_result: "kfree s a = Some s' \<Longrightarrow> s' = free_all {a} s"
  by (auto simp: kfree_def free_all_def fun_eq_iff split: option.splits cell.splits)

lemma kfree_each_result: "kfree_each K as s = Some s' \<Longrightarrow> s' = free_all (set as) s"
proof (induction as arbitrary: s)
  case (Cons a as)
  then obtain s1 where "kfree s a = Some s1" "kfree_each K as s1 = Some s'"
    by (auto simp: bind_eq_Some_conv)
  then show ?case using Cons.IH [of s1] kfree_result [of s a s1] by simp
qed simp

lemma kfree_each_poisoned:
  assumes "\<not> stale_reads K" "as \<noteq> []"
  shows "kfree_each K as s = None"
  using assms
  by (cases as) (auto simp: kfree_def get_obj_def split: option.splits cell.splits)

text \<open>The end of a process: everything it owned is freed, it left the table, and
  nothing else changed.\<close>

definition torn_down :: "kstate \<Rightarrow> addr \<Rightarrow> kstate \<Rightarrow> bool" where
  "torn_down s a s' \<longleftrightarrow> (\<forall>x. x \<in> owned s a \<longrightarrow> \<not> is_live s' x) \<and> (\<forall>x. x \<notin> owned s a \<longrightarrow> heap s' x = heap s x) \<and>
     processes s' = hash_del_rcu (processes s) a \<and> tasks s' = tasks s \<and> allocs s' = allocs s \<and>
     struct_process_lock s' = struct_process_lock s \<and> slept_in_atomic s' = slept_in_atomic s"

lemma torn_down_inv:
  assumes inv: "kinv K s" and a: "a \<in> nodes (processes s)" and td: "torn_down s a s'"
  shows "kinv K s'"
proof (rule inv_drop_process [OF inv a])
  have own: "owner s x = Some a" if "x \<in> owned s a" for x
    using inv a that by (auto simp: kinv_def intro: owned_owner)
  show "heap s' x = heap s x" if "owner s x = Some b" "b \<noteq> a" for x b
    using td own [of x] that by (auto simp: torn_down_def)
  show "\<not> is_live s' x" if "x \<in> owned s a" for x
    using td that by (auto simp: torn_down_def)
  show "is_live s x" if "is_live s' x" for x
    using td that unfolding torn_down_def is_live_def by (metis (no_types))
qed (use td inv in \<open>auto simp: torn_down_def kinv_def\<close>)

lemma torn_down_proc_of:
  assumes inv: "kinv K s" and a: "proc_of K s tgid = Some a" and td: "torn_down s a s'"
  shows "proc_of K s' tgid = None"
proof -
  have an: "a \<in> nodes (processes s)" "pkey s a = Some tgid"
    using a by (auto simp: proc_of_Some [OF inv] pkey_def)
  note inv' = torn_down_inv [OF inv an(1) td]
  have procs: "processes s' = hash_del_rcu (processes s) a" using td by (simp add: torn_down_def)
  have "pkey s' b \<noteq> Some tgid" if "b \<in> nodes (processes s')" for b
  proof
    assume k: "pkey s' b = Some tgid"
    have b: "b \<in> nodes (processes s)" "b \<noteq> a" using that procs by auto
    have "b \<notin> owned s a"
      using td k by (auto simp: torn_down_def pkey_def dest: live_is_live)
    then have "pkey s b = Some tgid"
      using td k by (simp add: torn_down_def pkey_def live_process_def)
    then show False
      using b an inv by (auto simp: kinv_def dest: table_ok_inj)
  qed
  then show ?thesis by (simp add: proc_of_None [OF inv'])
qed

section \<open>Closing the device\<close>

lemma cleanup_unregistered:
  assumes "kinv K s" "tasks s me = Some cur" "proc_of K s (task_tgid cur) = None"
  shows "process_cleanup K me s = Some s"
  using assms by (simp add: process_cleanup_def find_process_eq)

text \<open>The nodes of the tables of a process, as the walks meet them.\<close>

lemma walk_nodes:
  assumes "kapi_ok K"
  shows "threads_ok K s a p \<Longrightarrow> set (hash_nodes (threads p)) = nodes (threads p) \<and> distinct (hash_nodes (threads p))"
    "fibers_ok K s a p \<Longrightarrow> set (hash_nodes (fibers p)) = nodes (fibers p) \<and> distinct (hash_nodes (fibers p))"
  using assms set_hash_nodes distinct_hash_nodes kapi_ok_hash
  by (metis threads_ok_def, metis fibers_ok_def)

lemma owned_live:
  assumes "threads_ok K s a p" "fibers_ok K s a p"
  shows "t \<in> nodes (threads p) \<Longrightarrow> is_live s t" "f \<in> nodes (fibers p) \<Longrightarrow> is_live s f"
  using threads_okD [OF assms(1)] fibers_okD [OF assms(2)] live_is_live by metis+

text \<open>If the clean-up returns, the process is gone; with readable freed memory it
  returns.\<close>

lemma cleanup_torn_down:
  assumes inv: "kinv K s" and K: "kapi_ok K" and cur: "tasks s me = Some cur"
    and a: "proc_of K s (task_tgid cur) = Some a" and res: "process_cleanup K me s = Some s'"
  shows "torn_down s a s'"
proof -
  obtain p where an: "a \<in> nodes (processes s)" and p: "live_process s a = Some p"
    using a by (auto simp: proc_of_Some [OF inv])
  have ok: "threads_ok K s a p" "fibers_ok K s a p"
    using inv_process [OF inv an] p by auto
  note apart = nodes_apart [OF p ok] and walk = walk_nodes(1) [OF K ok(1)] walk_nodes(2) [OF K ok(2)]
  let ?T = "nodes (threads p)" and ?F = "nodes (fibers p)"
  have aT: "a \<notin> ?T" using apart(1) by auto
  then have g: "get_process K (free_all ?T s) a = Some p"
    using p by (intro get_live) (simp add: live_simps)
  obtain s1 s2 where s1: "kfree_each K (hash_nodes (threads p)) s = Some s1"
    and s2: "get_process K s1 a \<bind> (\<lambda>pr. kfree_each K (hash_nodes (fibers pr)) s1) = Some s2"
    and s3: "kfree (s2\<lparr>processes := hash_del_rcu (processes s2) a\<rparr>) a = Some s'"
    using res cur a get_live(1) [OF p, of K]
    by (auto simp: process_cleanup_def find_process_eq [OF inv] bind_eq_Some_conv)
  have e1: "s1 = free_all ?T s" using kfree_each_result [OF s1] walk by simp
  then have e2: "s2 = free_all (?T \<union> ?F) s" using s2 g kfree_each_result walk by fastforce
  have own: "owned s a = insert a (?T \<union> ?F)" using p by (simp add: owned_def)
  show ?thesis
    using kfree_result [OF s3] own by (auto simp: e2 torn_down_def live_simps heap_free_all)
qed

lemma cleanup_returns:
  assumes inv: "kinv K s" and K: "kapi_ok K" and st: "stale_reads K" and cur: "tasks s me = Some cur"
  shows "\<exists>s'. process_cleanup K me s = Some s'"
proof (cases "proc_of K s (task_tgid cur)")
  case None
  then show ?thesis using cleanup_unregistered [OF inv cur] by blast
next
  case (Some a)
  then obtain p where an: "a \<in> nodes (processes s)" and p: "live_process s a = Some p"
    by (auto simp: proc_of_Some [OF inv])
  have ok: "threads_ok K s a p" "fibers_ok K s a p"
    using inv_process [OF inv an] p by auto
  note apart = nodes_apart [OF p ok] and walk = walk_nodes(1) [OF K ok(1)] walk_nodes(2) [OF K ok(2)]
  let ?T = "nodes (threads p)" and ?F = "nodes (fibers p)"
  have 1: "kfree_each K (hash_nodes (threads p)) s = Some (free_all ?T s)"
    using kfree_each_stale [OF st, of "hash_nodes (threads p)" s] walk owned_live [OF ok] by simp
  have 2: "kfree_each K (hash_nodes (fibers p)) (free_all ?T s) = Some (free_all (?T \<union> ?F) s)"
    using kfree_each_stale [OF st, of "hash_nodes (fibers p)" "free_all ?T s"] walk owned_live [OF ok] apart(3)
    by (auto simp: live_simps)
  have aT: "a \<notin> ?T" "a \<notin> ?F" using apart(1,2) by auto
  then have g: "get_process K (free_all ?T s) a = Some p"
    using p by (intro get_live) (simp add: live_simps)
  let ?s2 = "(free_all (?T \<union> ?F) s)\<lparr>processes := hash_del_rcu (processes s) a\<rparr>"
  have 3: "kfree ?s2 a = Some (free_all {a} ?s2)"
    using aT live_is_live(1) [OF p] by (intro kfree_live) (simp add: live_simps)
  show ?thesis
    using cur Some 1 2 3 g get_live(1) [OF p]
    by (simp add: process_cleanup_def find_process_eq [OF inv])
qed

lemma cleanup_poisoned:
  assumes inv: "kinv K s" and K: "kapi_ok K" and st: "\<not> stale_reads K" and cur: "tasks s me = Some cur"
    and a: "proc_of K s (task_tgid cur) = Some a" "live_process s a = Some p" and t: "t \<in> nodes (threads p)"
  shows "process_cleanup K me s = None"
proof -
  have "threads_ok K s a p" using a by (auto simp: proc_of_Some [OF inv] elim: inv_process [OF inv])
  then have "hash_nodes (threads p) \<noteq> []"
    using walk_nodes(1) [OF K] t by (metis empty_iff empty_set)
  then show ?thesis
    using cur a kfree_each_poisoned [OF st] get_live(1) [OF a(2)]
    by (simp add: process_cleanup_def find_process_eq [OF inv])
qed

lemma cleanup_inv:
  assumes inv: "kinv K s" and K: "kapi_ok K" and res: "process_cleanup K me s = Some s'"
  shows "kinv K s'"
proof -
  obtain cur where cur: "tasks s me = Some cur"
    using res by (auto simp: process_cleanup_def bind_eq_Some_conv)
  show ?thesis
  proof (cases "proc_of K s (task_tgid cur)")
    case None
    then show ?thesis using cleanup_unregistered [OF inv cur] res inv by simp
  next
    case (Some a)
    then have "a \<in> nodes (processes s)" by (simp add: proc_of_Some [OF inv])
    then show ?thesis
      using cleanup_torn_down [OF inv K cur Some res] torn_down_inv [OF inv] by blast
  qed
qed

section \<open>The exit of a thread\<close>

lemma exit_no_caller:
  assumes inv: "kinv K s" and cur: "tasks s me = Some cur" and c: "caller K s me (task_pid cur) = None"
  shows "exit_cleanup K me s = Some s"
  using caller_None [OF assms]
proof (elim disjE exE conjE)
  assume "proc_of K s (task_tgid cur) = None"
  then show ?thesis using inv cur by (simp add: exit_cleanup_def find_process_eq)
next
  fix a p
  assume a: "proc_of K s (task_tgid cur) = Some a" "live_process s a = Some p" "thread_of K s p (task_pid cur) = None"
  then have "threads_ok K s a p" by (auto simp: proc_of_Some [OF inv] elim: inv_process [OF inv])
  then show ?thesis using inv cur a by (simp add: exit_cleanup_def find_process_eq find_thread_eq)
qed

definition left_fiber :: "task \<Rightarrow> fiber \<Rightarrow> fiber" where
  "left_fiber cur gb = gb\<lparr>registers := user_regs cur, fpu := fx cur, attached_thread := NULL, fiber_lock := False\<rparr>"

definition less_thread :: "process \<Rightarrow> addr \<Rightarrow> process" where
  "less_thread p t = p\<lparr>active_threads := active_threads p - 1, threads := hash_del_rcu (threads p) t\<rparr>"

definition exited_state :: "task \<Rightarrow> addr \<Rightarrow> process \<Rightarrow> addr \<Rightarrow> thread \<Rightarrow> addr \<Rightarrow> fiber \<Rightarrow> kstate \<Rightarrow> kstate" where
  "exited_state cur a p t th g gb s = s\<lparr>heap := (heap s)
     (a \<mapsto> Live (OProcess (less_thread p t)), g \<mapsto> Live (OFiber (left_fiber cur gb)), t \<mapsto> Freed (OThread th))\<rparr>"

lemma leave_fiber_live:
  "live_fiber s g = Some gb \<Longrightarrow> leave_fiber cur g s = Some (store s g (OFiber (left_fiber cur gb)))"
  by (simp add: leave_fiber_def upd_fiber_live left_fiber_def)

lemma upd_process_live: "live_process s a = Some p \<Longrightarrow> upd_process s a g = Some (store s a (OProcess (g p)))"
  by (simp add: upd_process_def)

lemma exit_not_last:
  assumes inv: "kinv K s" and cur: "tasks s me = Some cur" and c: "caller K s me (task_pid cur) = Some (a, p, t)"
    and th: "live_thread s t = Some th" "selected_fiber th = Some g" "live_fiber s g = Some gb"
    and n: "active_threads p \<noteq> 1"
  shows "exit_cleanup K me s = Some (exited_state cur a p t th g gb s)"
proof -
  note cd = callerD [OF inv c]
  have ne: "a \<noteq> t" "a \<noteq> g" "t \<noteq> g"
    using live_types_differ cd(2) th by blast+
  let ?p1 = "p\<lparr>active_threads := active_threads p - 1\<rparr>"
  let ?s2 = "store (store s a (OProcess ?p1)) g (OFiber (left_fiber cur gb))"
  have pa: "parent th = Some a" using thread_links(2) [OF cd(3,5) th(1)] .
  have g: "get_process K (store s a (OProcess ?p1)) a = Some ?p1" by (intro get_live) (simp add: live_simps)
  have lg: "live_fiber (store s a (OProcess ?p1)) g = Some gb" using ne th(3) by (simp add: live_simps)
  have la: "live_process ?s2 a = Some ?p1" using ne by (simp add: live_simps)
  let ?s3 = "store ?s2 a (OProcess (?p1\<lparr>threads := hash_del_rcu (threads ?p1) t\<rparr>))"
  have "is_live ?s3 t" using live_is_live(2) [OF th(1)] by (simp add: live_simps)
  note kf = kfree_live [OF this]
  have "free_all {t} ?s3 = exited_state cur a p t th g gb s"
    using ne th(1) by (auto simp: free_all_def exited_state_def store_def less_thread_def heap_live fun_eq_iff)
  then show ?thesis
    using cur cd(2,7) find_caller(1) [OF inv c] get_live(2) [OF th(1)] pa g leave_fiber_live [OF lg, of cur] la n th(2) kf
    by (auto simp: exit_cleanup_def find_process_eq [OF inv] upd_process_live)
qed

lemma exited_state_inv:
  assumes inv: "kinv K s" and K: "kapi_ok K" and c: "caller K s me tid = Some (a, p, t)"
    and th: "live_thread s t = Some th" "selected_fiber th = Some g" "live_fiber s g = Some gb"
  shows "kinv K (exited_state cur a p t th g gb s)"
  by (rule inv_detach [OF inv K callerD(1,2,5) [OF inv c] th, where p' = "less_thread p t" and gb' = "left_fiber cur gb"])
    (use inv in \<open>simp_all add: exited_state_def less_thread_def left_fiber_def kinv_def\<close>)

text \<open>The last thread takes the process with it.\<close>

lemma one_thread:
  assumes "threads_ok K s a p" "t \<in> nodes (threads p)" "active_threads p = 1"
  shows "nodes (threads p) = {t}"
proof -
  have "card (nodes (threads p)) = 1" using assms(1,3) by (simp add: threads_ok_def)
  then show ?thesis using assms(2) by (metis card_1_singletonE singletonD)
qed

lemma exit_last_steps:
  assumes inv: "kinv K s" and cur: "tasks s me = Some cur" and c: "caller K s me (task_pid cur) = Some (a, p, t)"
    and n: "active_threads p = 1"
  defines "s1 \<equiv> free_all {t} (store s a (OProcess (less_thread p t)))"
  shows "exit_cleanup K me s = do {
    s2 \<leftarrow> kfree_each K (hash_nodes (fibers p)) s1;
    kfree (s2\<lparr>processes := hash_del_rcu (processes s2) a\<rparr>) a }"
proof -
  note cd = callerD [OF inv c]
  obtain th g gb where th: "live_thread s t = Some th" "parent th = Some a" "selected_fiber th = Some g"
    using threads_okD [OF cd(3,5)] by metis
  have ne: "a \<noteq> t" using live_types_differ cd(2) th(1) by blast
  let ?p1 = "p\<lparr>active_threads := active_threads p - 1\<rparr>"
  have la: "live_process (store s a (OProcess ?p1)) a = Some ?p1" by (simp add: live_simps)
  note g = get_live(1) [OF la, of K]
  have "is_live (store s a (OProcess (less_thread p t))) t"
    using live_is_live(2) [OF th(1)] by (simp add: live_simps)
  note kf = kfree_live [OF this]
  have g2: "get_process K s1 a = Some (less_thread p t)"
    using ne by (intro get_live) (simp add: s1_def live_simps)
  have up: "upd_process (store s a (OProcess ?p1)) a (\<lambda>p. p\<lparr>threads := hash_del_rcu (threads p) t\<rparr>) =
      Some (store s a (OProcess (less_thread p t)))"
    by (simp add: upd_process_live [OF la] less_thread_def)
  have up0: "upd_process s a (\<lambda>p. p\<lparr>active_threads := active_threads p - 1\<rparr>) = Some (store s a (OProcess ?p1))"
    by (rule upd_process_live [OF cd(2)])
  have fib: "fibers (less_thread p t) = fibers p" by (simp add: less_thread_def)
  show ?thesis
    using cur cd(2,7) find_caller(1) [OF inv c] get_live(2) [OF th(1)] th(2,3) g up up0 n kf g2 fib
    by (auto simp: exit_cleanup_def find_process_eq [OF inv] s1_def)
qed

lemma exit_last_torn_down:
  assumes inv: "kinv K s" and K: "kapi_ok K" and cur: "tasks s me = Some cur"
    and c: "caller K s me (task_pid cur) = Some (a, p, t)" and n: "active_threads p = 1"
    and res: "exit_cleanup K me s = Some s'"
  shows "torn_down s a s'"
proof -
  note cd = callerD [OF inv c]
  let ?s1 = "free_all {t} (store s a (OProcess (less_thread p t)))" and ?F = "nodes (fibers p)"
  obtain s2 where s2: "kfree_each K (hash_nodes (fibers p)) ?s1 = Some s2"
    and s3: "kfree (s2\<lparr>processes := hash_del_rcu (processes s2) a\<rparr>) a = Some s'"
    using res exit_last_steps [OF inv cur c n] by (auto simp: bind_eq_Some_conv)
  have e2: "s2 = free_all ?F ?s1" using kfree_each_result [OF s2] walk_nodes(2) [OF K cd(4)] by simp
  have "owned s a = insert a (insert t ?F)"
    using cd(2) one_thread [OF cd(3,5) n] by (simp add: owned_def)
  then show ?thesis
    using kfree_result [OF s3] by (auto simp: e2 torn_down_def live_simps heap_free_all)
qed

lemma exit_last_returns:
  assumes inv: "kinv K s" and K: "kapi_ok K" and st: "stale_reads K" and cur: "tasks s me = Some cur"
    and c: "caller K s me (task_pid cur) = Some (a, p, t)" and n: "active_threads p = 1"
  shows "\<exists>s'. exit_cleanup K me s = Some s'"
proof -
  note cd = callerD [OF inv c]
  note apart = nodes_apart [OF cd(2,3,4)] and walk = walk_nodes(2) [OF K cd(4)]
  let ?s1 = "free_all {t} (store s a (OProcess (less_thread p t)))" and ?F = "nodes (fibers p)"
  have aT: "a \<noteq> t" "a \<notin> ?F" using apart(1,2) cd(5) by auto
  have "is_live ?s1 f" if "f \<in> ?F" for f
    using that owned_live(2) [OF cd(3,4)] apart(3) [OF cd(5)] by (auto simp: live_simps)
  then have 1: "kfree_each K (hash_nodes (fibers p)) ?s1 = Some (free_all ?F ?s1)"
    using kfree_each_stale [OF st, of "hash_nodes (fibers p)" ?s1] walk by simp
  let ?s2 = "(free_all ?F ?s1)\<lparr>processes := hash_del_rcu (processes s) a\<rparr>"
  have 2: "kfree ?s2 a = Some (free_all {a} ?s2)"
    using aT by (intro kfree_live) (simp add: live_simps)
  show ?thesis
    using exit_last_steps [OF inv cur c n] 1 2 by simp
qed

lemma exit_poisoned:
  assumes inv: "kinv K s" and K: "kapi_ok K" and st: "\<not> stale_reads K" and cur: "tasks s me = Some cur"
    and c: "caller K s me (task_pid cur) = Some (a, p, t)" and n: "active_threads p = 1"
  shows "exit_cleanup K me s = None"
proof -
  note cd = callerD [OF inv c]
  obtain f where "f \<in> nodes (fibers p)" using threads_okD [OF cd(3,5)] by metis
  then have "hash_nodes (fibers p) \<noteq> []"
    using walk_nodes(2) [OF K cd(4)] by (metis empty_iff empty_set)
  then show ?thesis
    using exit_last_steps [OF inv cur c n] kfree_each_poisoned [OF st] by simp
qed

lemma exit_cases:
  assumes inv: "kinv K s" and K: "kapi_ok K" and cur: "tasks s me = Some cur"
    and res: "exit_cleanup K me s = Some s'"
  obtains (stranger) "caller K s me (task_pid cur) = None" "s' = s"
  | (last) a p t where "caller K s me (task_pid cur) = Some (a, p, t)" "active_threads p = 1" "torn_down s a s'"
  | (other) a p t th g gb where "caller K s me (task_pid cur) = Some (a, p, t)" "active_threads p \<noteq> 1"
      "live_thread s t = Some th" "selected_fiber th = Some g" "live_fiber s g = Some gb"
      "s' = exited_state cur a p t th g gb s"
proof (cases "caller K s me (task_pid cur)")
  case None
  then show ?thesis using exit_no_caller [OF inv cur] stranger res by auto
next
  case (Some apt)
  then obtain a p t where c: "caller K s me (task_pid cur) = Some (a, p, t)" by (cases apt) auto
  obtain th g gb where th: "live_thread s t = Some th" "selected_fiber th = Some g" "live_fiber s g = Some gb"
    using threads_okD [OF callerD(3,5) [OF inv c]] by metis
  show ?thesis
    using exit_last_torn_down [OF inv K cur c _ res] exit_not_last [OF inv cur c th] last [OF c] other [OF c _ th] res
    by (cases "active_threads p = 1") auto
qed

lemma exit_inv:
  assumes inv: "kinv K s" and K: "kapi_ok K" and res: "exit_cleanup K me s = Some s'"
  shows "kinv K s'"
proof -
  obtain cur where cur: "tasks s me = Some cur"
    using res by (auto simp: exit_cleanup_def bind_eq_Some_conv)
  from inv K cur res show ?thesis
  proof (cases rule: exit_cases)
    case stranger
    then show ?thesis using inv by simp
  next
    case (last a p t)
    then show ?thesis using torn_down_inv [OF inv callerD(1) [OF inv last(1)]] by simp
  next
    case (other a p t th g gb)
    then show ?thesis using exited_state_inv [OF inv K other(1,3-5)] by simp
  qed
qed

lemma exit_returns:
  assumes inv: "kinv K s" and K: "kapi_ok K" and st: "stale_reads K" and cur: "tasks s me = Some cur"
  shows "\<exists>s'. exit_cleanup K me s = Some s'"
proof (cases "caller K s me (task_pid cur)")
  case None
  then show ?thesis using exit_no_caller [OF inv cur] by blast
next
  case (Some apt)
  then obtain a p t where c: "caller K s me (task_pid cur) = Some (a, p, t)" by (cases apt) auto
  obtain th g gb where th: "live_thread s t = Some th" "selected_fiber th = Some g" "live_fiber s g = Some gb"
    using threads_okD [OF callerD(3,5) [OF inv c]] by metis
  show ?thesis
    using exit_last_returns [OF inv K st cur c] exit_not_last [OF inv cur c th] by (cases "active_threads p = 1") auto
qed

end
