(* ===== verification/Fiber_Timer.thy ===== *)
theory Fiber_Timer
  imports Fiber_Exit
begin

text \<open>
  The accounting of user time: \<open>fiber_timer\<close> of \<^verbatim>\<open>module/kprobes.c\<close>, the handler that runs
  on every return of \<open>finish_task_switch\<close>. Its state is per CPU: the task that ran
  before, and the preemption counter that \<open>get_cpu_var\<close> raises and \<open>put_cpu_var\<close>
  lowers.
\<close>

section \<open>The handler\<close>

record cpu =
  prev_task :: "pid_t option"
  preempt_count :: int

definition get_cpu_var :: "cpu \<Rightarrow> pid_t option \<times> cpu" where
  "get_cpu_var c = (prev_task c, c\<lparr>preempt_count := preempt_count c + 1\<rparr>)"

definition put_cpu_var :: "cpu \<Rightarrow> cpu" where
  "put_cpu_var c = c\<lparr>preempt_count := preempt_count c - 1\<rparr>"

text \<open>The part before the label \<open>end_not_our_fiber\<close>: two of its four exits skip
  \<open>put_cpu_var\<close>.\<close>

definition charge_prev :: "kapi \<Rightarrow> cpu \<Rightarrow> kstate \<Rightarrow> (cpu \<times> kstate) option" where
  "charge_prev K c s = do {
     let (prev, c) = get_cpu_var c;
     (case prev of
        None \<Rightarrow> Some (put_cpu_var c, s)
      | Some prev \<Rightarrow> do {
          prev \<leftarrow> tasks s prev;
          prev_p \<leftarrow> find_process_by_tgid K (task_tgid prev) s;
          (case prev_p of
             None \<Rightarrow> Some (put_cpu_var c, s)
           | Some prev_p \<Rightarrow> do {
               prev_th \<leftarrow> find_thread_by_pid K (task_pid prev) prev_p s;
               (case prev_th of
                  None \<Rightarrow> Some (c, s)
                | Some prev_th \<Rightarrow> do {
                    th \<leftarrow> get_thread K s prev_th;
                    (case selected_fiber th of
                       None \<Rightarrow> Some (c, s)
                     | Some prev_f \<Rightarrow> do {
                         s \<leftarrow> upd_fiber s prev_f (\<lambda>f. f\<lparr>total_time := total_time f + utime prev\<rparr>);
                         Some (put_cpu_var c, s) }) }) }) }) }"

definition fiber_timer :: "kapi \<Rightarrow> pid_t \<Rightarrow> cpu \<Rightarrow> kstate \<Rightarrow> (cpu \<times> kstate) option" where
  "fiber_timer K me c s = do {
     (c, s) \<leftarrow> charge_prev K c s;
     let (_, c) = get_cpu_var c;
     let c = c\<lparr>prev_task := Some me\<rparr>;
     Some (put_cpu_var c, s) }"

section \<open>What it does\<close>

definition charged_fiber :: "task \<Rightarrow> fiber \<Rightarrow> fiber" where
  "charged_fiber prev f = f\<lparr>total_time := total_time f + utime prev\<rparr>"

lemma fiber_frame_charged: "fiber_frame (charged_fiber prev)"
  by (simp add: fiber_frame_def charged_fiber_def)

text \<open>The previous task as the handler sees it.\<close>

datatype prev_kind =
    Idle \<comment> \<open>no previous task\<close>
  | Stranger \<comment> \<open>its process does not use fibers\<close>
  | Unconverted \<comment> \<open>its process does, but the thread was not converted\<close>
  | Running addr fiber task

definition prev_kind :: "kapi \<Rightarrow> cpu \<Rightarrow> kstate \<Rightarrow> prev_kind option" where
  "prev_kind K c s = (case prev_task c of None \<Rightarrow> Some Idle
     | Some me \<Rightarrow> do {
         prev \<leftarrow> tasks s me;
         Some (case proc_of K s (task_tgid prev) of None \<Rightarrow> Stranger
           | Some a \<Rightarrow> (case running K me (task_pid prev) s of None \<Rightarrow> Unconverted
               | Some (f, fb) \<Rightarrow> Running f fb prev)) })"

definition cpu_after :: "pid_t \<Rightarrow> int \<Rightarrow> cpu \<Rightarrow> cpu" where
  "cpu_after me d c = \<lparr>prev_task = Some me, preempt_count = preempt_count c + d\<rparr>"

lemma timer_end:
  assumes "charge_prev K c s = Some (c\<lparr>preempt_count := preempt_count c + d\<rparr>, s')"
  shows "fiber_timer K me c s = Some (cpu_after me d c, s')"
  using assms by (simp add: fiber_timer_def get_cpu_var_def put_cpu_var_def cpu_after_def)

lemma preempt_same [simp]: "c\<lparr>preempt_count := preempt_count c\<rparr> = c"
  by simp

lemma timer_by_kind:
  assumes inv: "kinv K s" and k: "prev_kind K c s = Some k"
  shows "fiber_timer K me c s = Some (case k of
      Running f fb prev \<Rightarrow> (cpu_after me 0 c, store s f (OFiber (charged_fiber prev fb)))
    | Unconverted \<Rightarrow> (cpu_after me 1 c, s)
    | _ \<Rightarrow> (cpu_after me 0 c, s))"
proof (cases "prev_task c")
  case None
  then have "charge_prev K c s = Some (c\<lparr>preempt_count := preempt_count c + 0\<rparr>, s)" "k = Idle"
    using k by (simp_all add: charge_prev_def get_cpu_var_def put_cpu_var_def prev_kind_def)
  then show ?thesis using timer_end by fastforce
next
  case (Some q)
  then obtain prev where prev: "tasks s q = Some prev"
    using k by (auto simp: prev_kind_def bind_eq_Some_conv)
  show ?thesis
  proof (cases "proc_of K s (task_tgid prev)")
    case None
    then have "charge_prev K c s = Some (c\<lparr>preempt_count := preempt_count c + 0\<rparr>, s)" "k = Stranger"
      using k Some prev by (simp_all add: charge_prev_def get_cpu_var_def put_cpu_var_def prev_kind_def
          find_process_eq [OF inv])
    then show ?thesis using timer_end by fastforce
  next
    case a: (Some a)
    then obtain p where p: "live_process s a = Some p" "a \<in> nodes (processes s)"
      by (auto simp: proc_of_Some [OF inv])
    have ok: "threads_ok K s a p" using inv_process [OF inv p(2)] p(1) by auto
    show ?thesis
    proof (cases "running K q (task_pid prev) s")
      case None
      then have "thread_of K s p (task_pid prev) = None"
        using running_None [OF inv] prev a p by (auto simp: caller_def split: bind_splits)
      then have "charge_prev K c s = Some (c\<lparr>preempt_count := preempt_count c + 1\<rparr>, s)" "k = Unconverted"
        using k Some prev a None find_thread_eq [OF ok p(1)]
        by (simp_all add: charge_prev_def get_cpu_var_def prev_kind_def find_process_eq [OF inv])
      then show ?thesis using timer_end by fastforce
    next
      case r: (Some ffb)
      then obtain f fb where r: "running K q (task_pid prev) s = Some (f, fb)" by (cases ffb) auto
      then have kk: "k = Running f fb prev" using k Some prev a by (simp add: prev_kind_def)
      obtain a' p' t th where c: "caller K s q (task_pid prev) = Some (a', p', t)" "live_thread s t = Some th"
          "selected_fiber th = Some f" "live_fiber s f = Some fb"
        using runningD [OF inv r] by metis
      have "a' = a" using callerD(7) [OF inv c(1)] a prev by auto
      then have "charge_prev K c s = Some (c\<lparr>preempt_count := preempt_count c + 0\<rparr>,
          store s f (OFiber (charged_fiber prev fb)))"
        using Some prev a find_caller(1) [OF inv c(1)] get_live(2) [OF c(2)] c(3) upd_fiber_live [OF c(4)]
        by (simp add: charge_prev_def get_cpu_var_def put_cpu_var_def find_process_eq [OF inv] charged_fiber_def)
      then show ?thesis using timer_end kk by fastforce
    qed
  qed
qed

lemma timer_results:
  assumes inv: "kinv K s" and res: "fiber_timer K me c s = Some (c', s')"
  shows "s' = s \<or> (\<exists>f fb prev. live_fiber s f = Some fb \<and> s' = store s f (OFiber (charged_fiber prev fb)))"
proof -
  have "prev_kind K c s \<noteq> None"
    using res by (auto simp: fiber_timer_def charge_prev_def get_cpu_var_def prev_kind_def bind_eq_Some_conv
        split: option.splits)
  then obtain k where k: "prev_kind K c s = Some k" by auto
  have "live_fiber s f = Some fb" if "k = Running f fb prev" for f fb prev
    using k that running_live by (fastforce simp: prev_kind_def bind_eq_Some_conv split: option.splits prod.splits)
  then show ?thesis
    using timer_by_kind [OF inv k, of me] res by (cases k) auto
qed

lemma timer_inv:
  assumes inv: "kinv K s" and res: "fiber_timer K me c s = Some (c', s')"
  shows "kinv K s'"
  using timer_results [OF inv res] inv inv_fiber_frame [OF inv _ fiber_frame_charged] by blast

end
