(* ===== verification/Ioctl.thy ===== *)
theory Ioctl
  imports Fiber_Timer
begin

unbundle bit_operations_syntax

text \<open>
  The system call interface: \<open>fibers_ioctl\<close> and \<open>publish_ioctl_message\<close> of
  \<^verbatim>\<open>module/ioctl.c\<close>, with the command numbers of \<^verbatim>\<open>module/ioctl.h\<close>.

  The memory of the calling process is a record: which ranges \<open>access_ok\<close> admits,
  the argument structures and the \<open>long long\<close> cells that can be copied in, and the
  cells that can be copied out to.
\<close>

section \<open>Arguments and user memory\<close>

record fiber_arguments =
  stack_pointer :: ulong
  stack_size :: ulong
  start_function_address :: ulong
  start_function_arguments :: ulong
  fa_fiber_id :: pid_t
  fa_index :: long
  fa_buffer :: longlong

definition sizeof_fiber_arguments :: nat where
  "sizeof_fiber_arguments = 56"

record uspace =
  access_ok :: "ulong \<Rightarrow> nat \<Rightarrow> bool"
  args_at :: "ulong \<rightharpoonup> fiber_arguments"
  cells :: "ulong \<rightharpoonup> longlong"
  writable :: "ulong \<Rightarrow> bool"

text \<open>\<open>copy_to_user\<close> of one \<open>long long\<close>: \<^term>\<open>None\<close> when not everything was copied.\<close>

definition copy_to_user :: "ulong \<Rightarrow> longlong \<Rightarrow> uspace \<Rightarrow> uspace option" where
  "copy_to_user dst v u = (if writable u dst then Some (u\<lparr>cells := (cells u)(dst \<mapsto> v)\<rparr>) else None)"

section \<open>Commands\<close>

text \<open>\<open>_IO(major, nr)\<close> with a \<open>long\<close> major number: no direction and no size bits.\<close>

definition IO_cmd :: "long \<Rightarrow> nat \<Rightarrow> long" where
  "IO_cmd major nr = push_bit 8 major OR of_nat nr"

definition EFAULT :: long where "EFAULT = 14"
definition EINVAL :: long where "EINVAL = 22"

text \<open>The common prologue of the commands with an argument.\<close>

definition get_arguments :: "ulong \<Rightarrow> uspace \<Rightarrow> fiber_arguments option" where
  "get_arguments arg u = (if \<not> access_ok u arg sizeof_fiber_arguments then None else args_at u arg)"

definition fibers_ioctl ::
  "kapi \<Rightarrow> long \<Rightarrow> pid_t \<Rightarrow> 32 word \<Rightarrow> ulong \<Rightarrow> uspace \<Rightarrow> kstate \<Rightarrow> (long \<times> uspace \<times> kstate) option" where
  "fibers_ioctl K major me cmd arg u s = do {
     cur \<leftarrow> tasks s me;
     let tid = task_pid cur;
     if ucast cmd = IO_cmd major 0 then do {
       (ret, s) \<leftarrow> do_ConvertThreadToFiber K me tid s;
       Some (scast ret, u, s) }
     else if ucast cmd = IO_cmd major 1 then
       (case get_arguments arg u of
          None \<Rightarrow> Some (- EFAULT, u, s)
        | Some fa \<Rightarrow> do {
            (ret, s) \<leftarrow> do_CreateFiber K me (stack_pointer fa) (stack_size fa)
              (start_function_address fa) (start_function_arguments fa) tid s;
            Some (scast ret, u, s) })
     else if ucast cmd = IO_cmd major 2 then
       (case get_arguments arg u of
          None \<Rightarrow> Some (- EFAULT, u, s)
        | Some fa \<Rightarrow> do {
            (ret, s) \<leftarrow> do_SwitchToFiber K me (fa_fiber_id fa) tid s;
            Some (ret, u, s) })
     else if ucast cmd = IO_cmd major 3 then do {
       (ret, s) \<leftarrow> do_FlsAlloc K me tid s;
       Some (ret, u, s) }
     else if ucast cmd = IO_cmd major 4 then
       (case get_arguments arg u of
          None \<Rightarrow> Some (- EFAULT, u, s)
        | Some fa \<Rightarrow> do {
            (ret, s) \<leftarrow> do_FlsFree K me (fa_index fa) tid s;
            Some (of_bool ret, u, s) })
     else if ucast cmd = IO_cmd major 5 then
       (case get_arguments arg u of
          None \<Rightarrow> Some (- EFAULT, u, s)
        | Some fa \<Rightarrow> do {
            ret \<leftarrow> do_FlsGetValue K me (fa_index fa) tid s;
            (case copy_to_user (fa_buffer fa) ret u of
               None \<Rightarrow> Some (- EFAULT, u, s)
             | Some u \<Rightarrow> Some (0, u, s)) })
     else if ucast cmd = IO_cmd major 6 then
       (case get_arguments arg u of
          None \<Rightarrow> Some (- EFAULT, u, s)
        | Some fa \<Rightarrow> do {
            s \<leftarrow> do_FlsSetValue K me (fa_index fa) (fa_buffer fa) tid s;
            Some (0, u, s) })
     else Some (- EINVAL, u, s) }"

definition MESSAGE_MAX_LEN :: nat where
  "MESSAGE_MAX_LEN = 256"

definition publish_ioctl_message :: "long \<Rightarrow> string" where
  "publish_ioctl_message major =
     snprintf MESSAGE_MAX_LEN (concat (map (\<lambda>nr. dec_int (sint (IO_cmd major nr)) @ [newline]) [0..<7]))"

section \<open>The numbers are distinct\<close>

lemma IO_cmd_low: "nr < 8 \<Longrightarrow> IO_cmd major nr AND 255 = of_nat nr"
proof -
  assume nr: "nr < 8"
  have "push_bit 8 major AND mask 8 = 0"
    unfolding take_bit_eq_mask [symmetric] by (simp add: take_bit_push_bit)
  then have "push_bit 8 major AND 255 = 0"
    by (simp add: mask_eq_exp_minus_1)
  moreover have "(of_nat nr :: long) AND 255 = of_nat nr"
  proof -
    have "nr = 0 \<or> nr = 1 \<or> nr = 2 \<or> nr = 3 \<or> nr = 4 \<or> nr = 5 \<or> nr = 6 \<or> nr = 7" using nr by arith
    then show ?thesis by (elim disjE) simp_all
  qed
  ultimately show ?thesis
    by (simp add: IO_cmd_def bit.conj_disj_distrib2)
qed

lemma IO_cmd_inj:
  assumes "i < 8" "j < 8" "IO_cmd major i = IO_cmd major j"
  shows "i = j"
proof -
  have "(of_nat i :: long) = of_nat j" using IO_cmd_low assms by metis
  then have "unat (of_nat i :: long) = unat (of_nat j :: long)" by simp
  then show ?thesis using assms(1,2) by (simp add: unat_of_nat)
qed

lemma IO_cmd_eq: "i < 8 \<Longrightarrow> j < 8 \<Longrightarrow> IO_cmd major i = IO_cmd major j \<longleftrightarrow> i = j"
  using IO_cmd_inj by blast

section \<open>Dispatch\<close>

text \<open>The command as the number of the operation it selects.\<close>

definition command :: "long \<Rightarrow> 32 word \<Rightarrow> nat option" where
  "command major cmd = find (\<lambda>nr. ucast cmd = IO_cmd major nr) [0..<7]"

lemma command_upt: "[0..<7] = [0, 1, 2, 3, 4, 5, 6 :: nat]"
  by (simp add: upt_rec)

lemma command_IO:
  assumes "nr < 7" "ucast cmd = IO_cmd major nr"
  shows "command major cmd = Some nr"
  unfolding command_def
  using assms by (intro find_eq_SomeI) (auto intro: IO_cmd_inj)

lemma ioctl_dispatch:
  assumes "tasks s me = Some cur"
  shows "fibers_ioctl K major me cmd arg u s = (case command major cmd of
      None \<Rightarrow> Some (- EINVAL, u, s)
    | Some nr \<Rightarrow>
        if nr = 0 then do_ConvertThreadToFiber K me (task_pid cur) s \<bind> (\<lambda>(r, s). Some (scast r, u, s))
        else if nr = 3 then do_FlsAlloc K me (task_pid cur) s \<bind> (\<lambda>(r, s). Some (r, u, s))
        else (case get_arguments arg u of None \<Rightarrow> Some (- EFAULT, u, s)
          | Some fa \<Rightarrow>
              if nr = 1 then do_CreateFiber K me (stack_pointer fa) (stack_size fa) (start_function_address fa)
                (start_function_arguments fa) (task_pid cur) s \<bind> (\<lambda>(r, s). Some (scast r, u, s))
              else if nr = 2 then do_SwitchToFiber K me (fa_fiber_id fa) (task_pid cur) s \<bind> (\<lambda>(r, s). Some (r, u, s))
              else if nr = 4 then do_FlsFree K me (fa_index fa) (task_pid cur) s \<bind> (\<lambda>(r, s). Some (of_bool r, u, s))
              else if nr = 5 then do_FlsGetValue K me (fa_index fa) (task_pid cur) s \<bind> (\<lambda>v.
                (case copy_to_user (fa_buffer fa) v u of None \<Rightarrow> Some (- EFAULT, u, s) | Some u \<Rightarrow> Some (0, u, s)))
              else do_FlsSetValue K me (fa_index fa) (fa_buffer fa) (task_pid cur) s \<bind> (\<lambda>s. Some (0, u, s))))"
proof (cases "command major cmd")
  case None
  then have "\<forall>nr \<in> set [0..<7]. ucast cmd \<noteq> IO_cmd major nr" by (simp add: command_def find_None_iff)
  then show ?thesis using assms None by (simp add: fibers_ioctl_def command_upt)
next
  case (Some nr)
  then have "nr \<in> set [0..<7]" and cmd: "ucast cmd = IO_cmd major nr"
    unfolding command_def by (auto dest: find_Some_in)
  then have "nr = 0 \<or> nr = 1 \<or> nr = 2 \<or> nr = 3 \<or> nr = 4 \<or> nr = 5 \<or> nr = 6" by auto
  then show ?thesis
    using assms Some cmd by (elim disjE) (simp_all add: fibers_ioctl_def IO_cmd_eq split: option.split)
qed

lemma ioctl_inv:
  assumes inv: "kinv K s" and K: "kapi_ok K" and ids: "ids_left K me s"
    and res: "fibers_ioctl K major me cmd arg u s = Some (r, u', s')"
  shows "kinv K s'"
proof -
  obtain cur where cur: "tasks s me = Some cur"
    using res by (auto simp: fibers_ioctl_def bind_eq_Some_conv)
  note keep = convert_inv [OF inv K ids] create_inv [OF inv K ids] switch_inv [OF inv] fls_inv [OF inv]
  show ?thesis
    using res inv unfolding ioctl_dispatch [OF cur]
    by (auto simp: bind_eq_Some_conv split: option.splits if_splits dest: keep)
qed

text \<open>The only fault left is the one of an allocation that fails. A call makes at most
  three requests: they succeed when the allocator has three more blocks.\<close>

definition memory_left :: "kapi \<Rightarrow> kstate \<Rightarrow> bool" where
  "memory_left K s \<longleftrightarrow> (case two_blocks K s of None \<Rightarrow> False
     | Some (a, b) \<Rightarrow> kmalloc_at K (Suc (Suc (allocs s))) (\<lambda>x. x = b \<or> x = a \<or> is_live s x) \<noteq> None)"

lemma memory_left_first:
  "memory_left K s \<Longrightarrow> \<exists>a. kmalloc_at K (allocs s) (is_live s) = Some a"
  by (auto simp: memory_left_def two_blocks_def split: option.splits bind_splits)

lemma memory_left_after:
  assumes m: "memory_left K s" and a: "kmalloc_at K (allocs s) (is_live s) = Some a"
  shows "two_blocks K (registered_state K cur a s) \<noteq> None"
proof -
  have "is_live (registered_state K cur a s) = (\<lambda>x. x = a \<or> is_live s x)"
    by (auto simp: registered_state_def is_live_def fun_eq_iff)
  moreover have "allocs (registered_state K cur a s) = Suc (allocs s)"
    by (simp add: registered_state_def)
  ultimately show ?thesis
    using m a by (auto simp: memory_left_def two_blocks_def split: bind_splits)
qed

lemma convert_thread_returns:
  assumes inv: "kinv K s" and K: "kapi_ok K" and m: "two_blocks K s \<noteq> None" and cur: "tasks s me = Some cur"
    and a: "a \<in> nodes (processes s)"
  shows "\<exists>r s'. convert_thread K me a tid s = Some (r, s')"
proof -
  obtain p where p: "live_process s a = Some p" "threads_ok K s a p" using inv_process [OF inv a] by metis
  show ?thesis
    using convert_thread_again [OF p(2,1) cur] convert_thread_new [OF K p(2,1) cur] m
    by (cases "thread_of K s p tid") auto
qed

lemma convert_returns:
  assumes inv: "kinv K s" and K: "kapi_ok K" and m: "memory_left K s" and cur: "tasks s me = Some cur"
  shows "\<exists>r s'. do_ConvertThreadToFiber K me tid s = Some (r, s')"
proof (cases "proc_of K s (task_tgid cur)")
  case None
  obtain a where a: "kmalloc_at K (allocs s) (is_live s) = Some a"
    using memory_left_first [OF m] by blast
  note reg = registered_state_inv [OF inv K None kapi_ok_fresh [OF K a]]
  have "tasks (registered_state K cur a s) me = Some cur" using cur by (simp add: registered_state_def)
  then show ?thesis
    using convert_thread_returns [OF reg(1) K memory_left_after [OF m a] _ reg(2)]
      convert_unregistered [OF inv cur None] a by simp
next
  case (Some a)
  have "two_blocks K s \<noteq> None" using m by (cases "two_blocks K s") (auto simp: memory_left_def)
  then show ?thesis
    using convert_thread_returns [OF inv K _ cur] convert_registered [OF inv cur Some] Some
    by (simp add: proc_of_Some [OF inv])
qed

lemma create_returns:
  assumes inv: "kinv K s" and K: "kapi_ok K" and m: "memory_left K s" and cur: "tasks s me = Some cur"
  shows "\<exists>r s'. do_CreateFiber K me ptr sz func par tid s = Some (r, s')"
proof (cases "proc_of K s (task_tgid cur)")
  case None
  then show ?thesis using create_unregistered [OF inv cur] by blast
next
  case (Some a)
  then obtain p where p: "live_process s a = Some p" by (auto simp: proc_of_Some [OF inv])
  obtain f where f: "kmalloc_at K (allocs s) (is_live s) = Some f"
    using memory_left_first [OF m] by blast
  show ?thesis
    using create_not_converted [OF inv cur Some p] create_converted [OF inv K cur Some p] f
    by (cases "thread_of K s p tid") auto
qed

lemma ioctl_returns:
  assumes inv: "kinv K s" and K: "kapi_ok K" and m: "memory_left K s" and cur: "tasks s me = Some cur"
  shows "\<exists>r u' s'. fibers_ioctl K major me cmd arg u s = Some (r, u', s')"
proof -
  obtain r0 s0 r3 s3 where ops: "do_ConvertThreadToFiber K me (task_pid cur) s = Some (r0, s0)"
      "do_FlsAlloc K me (task_pid cur) s = Some (r3, s3)"
    using convert_returns [OF inv K m cur] fls_returns(1) [OF inv cur] by meson
  show ?thesis
  proof (cases "get_arguments arg u")
    case None
    then show ?thesis using ops by (simp add: ioctl_dispatch [OF cur] split: option.split)
  next
    case (Some fa)
    obtain r1 s1 where 1: "do_CreateFiber K me (stack_pointer fa) (stack_size fa) (start_function_address fa)
        (start_function_arguments fa) (task_pid cur) s = Some (r1, s1)"
      using create_returns [OF inv K m cur] by meson
    obtain r2 s2 where 2: "do_SwitchToFiber K me (fa_fiber_id fa) (task_pid cur) s = Some (r2, s2)"
      using switch_returns [OF inv cur] by meson
    obtain r4 s4 v s6 where 3: "do_FlsFree K me (fa_index fa) (task_pid cur) s = Some (r4, s4)"
        "do_FlsGetValue K me (fa_index fa) (task_pid cur) s = Some v"
        "do_FlsSetValue K me (fa_index fa) (fa_buffer fa) (task_pid cur) s = Some s6"
      using fls_returns(2-4) [OF inv cur] by meson
    show ?thesis
      using ops Some 1 2 3 by (simp add: ioctl_dispatch [OF cur] split: option.split)
  qed
qed

end
