(* ===== verification/Device.thy ===== *)
theory Device
  imports Ioctl
begin

text \<open>
  The character device \<^verbatim>\<open>/dev/fibers\<close> (\<^verbatim>\<open>module/device.c\<close>): reading the published command
  numbers, opening and closing, and the registration with its error paths, and
  the loading and unloading of the module (\<^verbatim>\<open>module/module.c\<close>, with the registration
  functions of \<^verbatim>\<open>module/kprobes.c\<close>).

  The kernel functions called during registration are parameters: their results
  come from the record \<open>devapi\<close>, and the calls are recorded in the order they are
  made. What is acquired and not given back can then be read off the record.
\<close>

section \<open>Reading a file\<close>

text \<open>The contract between a file of the module and a reader that asks for the whole
  text at once and then once more: \<open>text\<close> is what the file contains, \<open>rd len off\<close> is
  the result of a read, the bytes it delivered and the new offset.\<close>

locale text_file =
  fixes contents :: string
    and rd :: "ulong \<Rightarrow> ulong \<Rightarrow> (long \<times> string \<times> ulong) option"
  assumes contents_small: "length contents < 2 ^ 31"
    and read_start: "length contents \<le> unat len \<Longrightarrow> contents \<noteq> [] \<Longrightarrow>
      rd len 0 = Some (of_nat (length contents), contents, of_nat (length contents))"
    and read_end: "length contents \<le> unat off \<Longrightarrow> rd len off = Some (0, [], off)"
begin

text \<open>Two reads give the text and the end of the file, whatever the second asks for.\<close>

lemma read_twice:
  assumes "length contents \<le> unat len" "contents \<noteq> []"
  shows "\<exists>off. rd len 0 = Some (of_nat (length contents), contents, off) \<and> rd len' off = Some (0, [], off)"
proof -
  have "unat (of_nat (length contents) :: ulong) = length contents"
    using contents_small by (simp add: unat_of_nat)
  then show ?thesis using read_start [OF assms] read_end by simp
qed

end

section \<open>The device file\<close>

text \<open>The message array: the text behind which the rest of the 256 bytes are NUL.\<close>

definition message_array :: "string \<Rightarrow> char list" where
  "message_array msg = msg @ replicate (MESSAGE_MAX_LEN - length msg) nul"

text \<open>\<open>fibers_read\<close>: the result, the bytes copied to the user and the new offset.
  \<open>copies n\<close> tells whether \<open>copy_to_user\<close> of \<open>n\<close> bytes succeeds. Reading outside
  the message array is an error of the program.\<close>

definition fibers_read ::
  "char list \<Rightarrow> (nat \<Rightarrow> bool) \<Rightarrow> ulong \<Rightarrow> ulong \<Rightarrow> (long \<times> string \<times> ulong) option" where
  "fibers_read string_message copies len off =
     (let n = strnlen string_message MESSAGE_MAX_LEN
      in if n \<le> unat off then Some (0, [], off)
         else let i = min (unat len) n
           in if length string_message < unat off + i then None
              else if \<not> copies i then Some (- EFAULT, [], off)
              else Some (of_nat i, take i (drop (unat off) string_message), off + of_nat i))"

definition fiber_open :: "bool \<Rightarrow> int \<Rightarrow> int \<times> int" where
  "fiber_open got refs = (if \<not> got then (-1, refs) else (0, refs + 1))"

definition fiber_close :: "kapi \<Rightarrow> pid_t \<Rightarrow> int \<Rightarrow> kstate \<Rightarrow> (int \<times> int \<times> kstate) option" where
  "fiber_close K me refs s = do {
     s \<leftarrow> process_cleanup K me s;
     Some (0, refs - 1, s) }"

lemma strnlen_message:
  assumes "nul \<notin> set msg" "length msg \<le> MESSAGE_MAX_LEN"
  shows "strnlen (message_array msg) MESSAGE_MAX_LEN = length msg"
proof -
  have "takeWhile (\<lambda>c. c \<noteq> nul) (msg @ replicate n nul) = msg" for n
    using assms(1) by (induction msg) (auto simp: takeWhile_replicate)
  then show ?thesis using assms(2) by (simp add: strnlen_def message_array_def)
qed

lemma length_message [simp]: "length msg \<le> MESSAGE_MAX_LEN \<Longrightarrow> length (message_array msg) = MESSAGE_MAX_LEN"
  by (simp add: message_array_def)

text \<open>The published message: seven lines of plain digits that fit the array.\<close>

definition command_lines :: "long \<Rightarrow> string" where
  "command_lines major = concat (map (\<lambda>nr. dec_int (sint (IO_cmd major nr)) @ [newline]) [0..<7])"

lemma length_dec_word: "length (dec_int (sint (w :: long))) \<le> 20"
proof -
  have "- (2 ^ 63) \<le> sint w" "sint w < 2 ^ 63" using sint_ge [of w] sint_lt [of w] by simp_all
  then have "\<bar>sint w\<bar> < 10 ^ 19" by (auto simp: abs_le_iff)
  then show ?thesis using length_dec_int [of "sint w" 19] by simp
qed

lemma length_command_lines: "length (command_lines major) \<le> 147"
proof -
  have "length (concat (map (\<lambda>nr. dec_int (sint (IO_cmd major nr)) @ [newline]) ns)) \<le> 21 * length ns" for ns
  proof (induction ns)
    case (Cons n ns)
    then show ?case using length_dec_word [of "IO_cmd major n"] by simp
  qed simp
  from this [of "[0..<7]"] show ?thesis by (simp add: command_lines_def)
qed

lemma publish_untruncated: "publish_ioctl_message major = command_lines major"
  using length_command_lines [of major]
  by (simp add: publish_ioctl_message_def command_lines_def snprintf_def MESSAGE_MAX_LEN_def)

lemma nul_not_in_lines: "nul \<notin> set (command_lines major)"
  using dec_int_plain by (auto simp: command_lines_def newline_def nul_def)

lemma command_lines_nonempty: "command_lines major \<noteq> []"
  by (simp add: command_lines_def upt_rec)

interpretation dev_file: text_file "publish_ioctl_message major"
  "fibers_read (message_array (publish_ioctl_message major)) (\<lambda>_. True)"
  for major :: long
proof unfold_locales
  let ?m = "publish_ioctl_message major"
  have len: "length ?m \<le> 147" using length_command_lines [of major] by (simp add: publish_untruncated)
  then have n: "strnlen (message_array ?m) MESSAGE_MAX_LEN = length ?m"
    using nul_not_in_lines [of major]
    by (intro strnlen_message) (simp_all add: publish_untruncated MESSAGE_MAX_LEN_def)
  show "length ?m < 2 ^ 31" using len by simp
  show "fibers_read (message_array ?m) (\<lambda>_. True) l 0 = Some (of_nat (length ?m), ?m, of_nat (length ?m))"
    if "length ?m \<le> unat l" "?m \<noteq> []" for l
    using that len n by (simp add: fibers_read_def MESSAGE_MAX_LEN_def message_array_def Let_def)
  show "fibers_read (message_array ?m) (\<lambda>_. True) l off = Some (0, [], off)" if "length ?m \<le> unat off" for l off
    using that n by (simp add: fibers_read_def)
qed

section \<open>Registration\<close>

text \<open>A pointer of the kernel that may carry an error number.\<close>

datatype kref = KNull | KObj nat | KErr int

datatype devcall =
    Register_chrdev int
  | Class_create kref
  | Device_create kref kref
  | Device_destroy kref
  | Class_destroy kref
  | Unregister_chrdev long
  | Register_probe string
  | Unregister_probe string

record devapi =
  chrdev_result :: int
  class_result :: kref
  device_result :: kref

record device =
  dev_major :: long
  class_fibers :: kref
  dev_fibers :: kref
  string_message :: string
  fops_ioctl :: bool
  devnode_set :: bool
  calls :: "devcall list"

definition call :: "devcall \<Rightarrow> device \<Rightarrow> device" where
  "call e d = d\<lparr>calls := calls d @ [e]\<rparr>"

definition is_err :: "kref \<Rightarrow> bool" where
  "is_err k \<longleftrightarrow> (\<exists>e. k = KErr e)"

lemma is_err_code [code]: "is_err k = (case k of KErr e \<Rightarrow> True | _ \<Rightarrow> False)"
  by (auto simp: is_err_def split: kref.split)

definition ptr_err :: "kref \<Rightarrow> int" where
  "ptr_err k = (case k of KErr e \<Rightarrow> e | _ \<Rightarrow> 0)"

definition register_fiber_device :: "devapi \<Rightarrow> device \<Rightarrow> int \<times> device" where
  "register_fiber_device D d =
     (let d = d\<lparr>fops_ioctl := True\<rparr>;
          d = call (Register_chrdev (chrdev_result D)) (d\<lparr>dev_major := word_of_int (chrdev_result D)\<rparr>)
      in if sint (dev_major d) < 0 then (sint (dev_major d), d)
         else let d = call (Class_create (class_result D)) (d\<lparr>class_fibers := class_result D\<rparr>)
           in if is_err (class_fibers d)
              then (ptr_err (class_fibers d), call (Unregister_chrdev (dev_major d)) d)
              else let d = d\<lparr>devnode_set := True\<rparr>;
                       d = call (Device_create (class_fibers d) (device_result D)) (d\<lparr>dev_fibers := device_result D\<rparr>)
                in if is_err (dev_fibers d)
                   then (ptr_err (dev_fibers d),
                         call (Unregister_chrdev (dev_major d)) (call (Class_destroy (class_fibers d)) d))
                   else (0, d\<lparr>string_message := publish_ioctl_message (dev_major d)\<rparr>))"

definition unregister_fiber_device :: "device \<Rightarrow> device" where
  "unregister_fiber_device d =
     call (Unregister_chrdev (dev_major d)) (call (Class_destroy (class_fibers d)) (call (Device_destroy (class_fibers d)) d))"

text \<open>The callback that names the node and opens it to everyone (octal 0666), when it is
  asked for the mode. \<open>kasprintf\<close> may fail.\<close>

definition fiber_user_devnode :: "(string \<Rightarrow> string option) \<Rightarrow> string \<Rightarrow> nat option \<Rightarrow> string option \<times> nat option" where
  "fiber_user_devnode kasprintf dev_nm mode =
     (kasprintf dev_nm, case mode of None \<Rightarrow> None | Some _ \<Rightarrow> Some 438)"

section \<open>Loading and unloading the module\<close>

definition register_kprobe_do_exit :: "device \<Rightarrow> device" where
  "register_kprobe_do_exit = call (Register_probe ''do_exit'')"

definition unregister_kprobe_do_exit :: "device \<Rightarrow> device" where
  "unregister_kprobe_do_exit = call (Unregister_probe ''do_exit'')"

definition register_kretprobe_finish_task_switch :: "device \<Rightarrow> device" where
  "register_kretprobe_finish_task_switch = call (Register_probe ''finish_task_switch'')"

definition unregister_kretprobe_finish_task_switch :: "device \<Rightarrow> device" where
  "unregister_kretprobe_finish_task_switch = call (Unregister_probe ''finish_task_switch'')"

definition register_kretprobe_proc_fiber_dir :: "device \<Rightarrow> device" where
  "register_kretprobe_proc_fiber_dir d =
     call (Register_probe ''proc_tgid_base_lookup'') (call (Register_probe ''proc_tgid_base_readdir'') d)"

definition unregister_kretprobe_proc_fiber_dir :: "device \<Rightarrow> device" where
  "unregister_kretprobe_proc_fiber_dir d =
     call (Unregister_probe ''proc_tgid_base_lookup'') (call (Unregister_probe ''proc_tgid_base_readdir'') d)"

text \<open>The result of the registration of the device is not looked at.\<close>

definition fiber_init :: "devapi \<Rightarrow> device \<Rightarrow> int \<times> device" where
  "fiber_init D d =
     (let (_, d) = register_fiber_device D d;
          d = register_kprobe_do_exit d;
          d = register_kretprobe_proc_fiber_dir d;
          d = register_kretprobe_finish_task_switch d
      in (0, d))"

definition fiber_cleanup :: "device \<Rightarrow> device" where
  "fiber_cleanup d =
     (let d = unregister_kprobe_do_exit d;
          d = unregister_kretprobe_finish_task_switch d;
          d = unregister_kretprobe_proc_fiber_dir d
      in unregister_fiber_device d)"

subsection \<open>What is held\<close>

datatype resource = Chrdev long | Class nat | Node nat | Probe string

text \<open>What a call acquires or gives back: a device node belongs to its class.\<close>

fun effect :: "devcall \<Rightarrow> resource set \<Rightarrow> resource set" where
  "effect (Register_chrdev r) H = (if r < 0 then H else insert (Chrdev (word_of_int r)) H)"
| "effect (Class_create k) H = (case k of KObj c \<Rightarrow> insert (Class c) H | _ \<Rightarrow> H)"
| "effect (Device_create k k') H = (case (k, k') of (KObj c, KObj _) \<Rightarrow> insert (Node c) H | _ \<Rightarrow> H)"
| "effect (Device_destroy k) H = (case k of KObj c \<Rightarrow> H - {Node c} | _ \<Rightarrow> H)"
| "effect (Class_destroy k) H = (case k of KObj c \<Rightarrow> H - {Class c} | _ \<Rightarrow> H)"
| "effect (Unregister_chrdev m) H = H - {Chrdev m}"
| "effect (Register_probe p) H = insert (Probe p) H"
| "effect (Unregister_probe p) H = H - {Probe p}"

definition held :: "device \<Rightarrow> resource set" where
  "held d = fold effect (calls d) {}"

lemma held_call [simp]: "held (call e d) = effect e (held d)"
  by (simp add: held_def call_def)

lemma held_update [simp]:
  "held (d\<lparr>dev_major := m\<rparr>) = held d" "held (d\<lparr>class_fibers := c\<rparr>) = held d" "held (d\<lparr>dev_fibers := v\<rparr>) = held d"
  "held (d\<lparr>string_message := t\<rparr>) = held d" "held (d\<lparr>fops_ioctl := b\<rparr>) = held d" "held (d\<lparr>devnode_set := b\<rparr>) = held d"
  by (simp_all add: held_def)

lemma call_fields [simp]:
  "dev_major (call e d) = dev_major d" "class_fibers (call e d) = class_fibers d" "dev_fibers (call e d) = dev_fibers d"
  "string_message (call e d) = string_message d" "fops_ioctl (call e d) = fops_ioctl d"
  by (simp_all add: call_def)

text \<open>What the kernel functions may answer: a major number of a character device or
  an error, a proper object or an error.\<close>

definition devapi_ok :: "devapi \<Rightarrow> bool" where
  "devapi_ok D \<longleftrightarrow> - 4095 \<le> chrdev_result D \<and> chrdev_result D < 4096 \<and> class_result D \<noteq> KNull \<and> device_result D \<noteq> KNull \<and>
     (\<forall>e. class_result D = KErr e \<longrightarrow> e < 0) \<and> (\<forall>e. device_result D = KErr e \<longrightarrow> e < 0)"

lemma sint_major:
  assumes "devapi_ok D"
  shows "sint (word_of_int (chrdev_result D) :: long) = chrdev_result D"
  using assms by (simp add: devapi_ok_def sint_sbintrunc' signed_take_bit_int_eq_self)

lemma register_cases:
  assumes D: "devapi_ok D"
  obtains (no_major) "chrdev_result D < 0"
      "register_fiber_device D d = (chrdev_result D, call (Register_chrdev (chrdev_result D))
        (d\<lparr>fops_ioctl := True, dev_major := word_of_int (chrdev_result D)\<rparr>))"
  | (no_class) e d' where "0 \<le> chrdev_result D" "class_result D = KErr e" "register_fiber_device D d = (e, d')"
      "held d' = effect (Unregister_chrdev (word_of_int (chrdev_result D)))
         (effect (Register_chrdev (chrdev_result D)) (held d))" "e < 0"
  | (no_node) e c d' where "0 \<le> chrdev_result D" "class_result D = KObj c" "device_result D = KErr e"
      "register_fiber_device D d = (e, d')"
      "held d' = insert (Class c) (insert (Chrdev (word_of_int (chrdev_result D))) (held d)) - {Class c} -
         {Chrdev (word_of_int (chrdev_result D))}" "e < 0"
  | (registered) c v d' where "0 \<le> chrdev_result D" "class_result D = KObj c" "device_result D = KObj v"
      "register_fiber_device D d = (0, d')" "dev_major d' = word_of_int (chrdev_result D)"
      "class_fibers d' = KObj c" "string_message d' = publish_ioctl_message (word_of_int (chrdev_result D))"
      "held d' = insert (Node c) (insert (Class c) (insert (Chrdev (word_of_int (chrdev_result D))) (held d)))"
proof -
  note defs = register_fiber_device_def Let_def sint_major [OF D] is_err_def ptr_err_def
  have ok: "class_result D \<noteq> KNull" "device_result D \<noteq> KNull" "\<And>e. class_result D = KErr e \<Longrightarrow> e < 0"
    "\<And>e. device_result D = KErr e \<Longrightarrow> e < 0"
    using D by (auto simp: devapi_ok_def)
  consider "chrdev_result D < 0" | e where "0 \<le> chrdev_result D" "class_result D = KErr e"
    | c e where "0 \<le> chrdev_result D" "class_result D = KObj c" "device_result D = KErr e"
    | c v where "0 \<le> chrdev_result D" "class_result D = KObj c" "device_result D = KObj v"
    using ok(1,2) by (metis kref.exhaust linorder_not_le)
  then show ?thesis
  proof cases
    case 1
    then show ?thesis by (intro no_major) (simp_all add: defs)
  next
    case (2 e)
    then show ?thesis using ok(3) [of e] by (intro no_class [OF 2, of "snd (register_fiber_device D d)"]) (simp_all add: defs)
  next
    case (3 c e)
    then show ?thesis using ok(4) [of e] by (intro no_node [OF 3, of "snd (register_fiber_device D d)"]) (simp_all add: defs)
  next
    case (4 c v)
    then show ?thesis by (intro registered [OF 4, of "snd (register_fiber_device D d)"]) (simp_all add: defs)
  qed
qed

lemma held_probes [simp]:
  "held (register_kprobe_do_exit d) = insert (Probe ''do_exit'') (held d)"
  "held (register_kretprobe_finish_task_switch d) = insert (Probe ''finish_task_switch'') (held d)"
  "held (register_kretprobe_proc_fiber_dir d) =
     {Probe ''proc_tgid_base_lookup'', Probe ''proc_tgid_base_readdir''} \<union> held d"
  "held (unregister_kprobe_do_exit d) = held d - {Probe ''do_exit''}"
  "held (unregister_kretprobe_finish_task_switch d) = held d - {Probe ''finish_task_switch''}"
  "held (unregister_kretprobe_proc_fiber_dir d) =
     held d - {Probe ''proc_tgid_base_lookup'', Probe ''proc_tgid_base_readdir''}"
  by (auto simp: register_kprobe_do_exit_def register_kretprobe_finish_task_switch_def
      register_kretprobe_proc_fiber_dir_def unregister_kprobe_do_exit_def
      unregister_kretprobe_finish_task_switch_def unregister_kretprobe_proc_fiber_dir_def)

lemma probe_fields [simp]:
  "dev_major (register_kprobe_do_exit d) = dev_major d" "class_fibers (register_kprobe_do_exit d) = class_fibers d"
  "dev_major (register_kretprobe_finish_task_switch d) = dev_major d"
  "class_fibers (register_kretprobe_finish_task_switch d) = class_fibers d"
  "dev_major (register_kretprobe_proc_fiber_dir d) = dev_major d"
  "class_fibers (register_kretprobe_proc_fiber_dir d) = class_fibers d"
  "dev_major (unregister_kprobe_do_exit d) = dev_major d" "class_fibers (unregister_kprobe_do_exit d) = class_fibers d"
  "dev_major (unregister_kretprobe_finish_task_switch d) = dev_major d"
  "class_fibers (unregister_kretprobe_finish_task_switch d) = class_fibers d"
  "dev_major (unregister_kretprobe_proc_fiber_dir d) = dev_major d"
  "class_fibers (unregister_kretprobe_proc_fiber_dir d) = class_fibers d"
  by (simp_all add: register_kprobe_do_exit_def register_kretprobe_finish_task_switch_def
      register_kretprobe_proc_fiber_dir_def unregister_kprobe_do_exit_def
      unregister_kretprobe_finish_task_switch_def unregister_kretprobe_proc_fiber_dir_def)

definition the_probes :: "resource set" where
  "the_probes = {Probe ''do_exit'', Probe ''finish_task_switch'', Probe ''proc_tgid_base_lookup'',
     Probe ''proc_tgid_base_readdir''}"

lemma init_held:
  "held (snd (fiber_init D d)) = the_probes \<union> held (snd (register_fiber_device D d))"
  "dev_major (snd (fiber_init D d)) = dev_major (snd (register_fiber_device D d))"
  "class_fibers (snd (fiber_init D d)) = class_fibers (snd (register_fiber_device D d))"
  by (auto simp: fiber_init_def Let_def the_probes_def split: prod.split)

lemma cleanup_held:
  "held (fiber_cleanup d) = effect (Unregister_chrdev (dev_major d)) (effect (Class_destroy (class_fibers d))
     (effect (Device_destroy (class_fibers d)) (held d - the_probes)))"
proof -
  have "held (unregister_kretprobe_proc_fiber_dir (unregister_kretprobe_finish_task_switch
      (unregister_kprobe_do_exit d))) = held d - the_probes"
    by (auto simp: the_probes_def)
  then show ?thesis
    by (simp add: fiber_cleanup_def unregister_fiber_device_def Let_def del: held_probes)
qed

end
