(* ===== verification/Proc_Fs.thy ===== *)
theory Proc_Fs
  imports Device
begin

text \<open>
  The \<^verbatim>\<open>/proc/PID/fibers\<close> directory (\<^verbatim>\<open>module/proc.c\<close>): its listing, the look-up of a
  fiber in it, and the status file of a fiber.

  The kernel functions \<open>proc_pident_readdir\<close> and \<open>proc_pident_lookup\<close>, which the module
  finds by name, are parameters. \<open>get_pid_task\<close> is represented by its result. The
  array of entries is a list; writing or reading outside it is an error of the
  program. The file, directory and context pointers come from the kernel's file
  layer and are not NULL.
\<close>

section \<open>The directory of the fibers\<close>

datatype file_ops = No_ops | F_fops | Dir_ops

record pid_entry =
  pe_name :: string
  pe_len :: nat
  pe_mode :: nat
  pe_iop :: bool
  pe_fop :: file_ops

definition zero_entry :: pid_entry where
  "zero_entry = \<lparr>pe_name = [], pe_len = 0, pe_mode = 0, pe_iop = False, pe_fop = No_ops\<rparr>"

text \<open>\<open>S_IFREG | S_IRUGO\<close>, that is octal 0100444.\<close>

definition regular_readable :: nat where
  "regular_readable = 33060"

definition fiber_entry :: "fiber \<Rightarrow> pid_entry" where
  "fiber_entry fp = \<lparr>pe_name = name fp, pe_len = length (name fp), pe_mode = regular_readable,
     pe_iop = False, pe_fop = F_fops\<rparr>"

fun fill_entries :: "kapi \<Rightarrow> kstate \<Rightarrow> addr list \<Rightarrow> nat \<Rightarrow> pid_entry list \<Rightarrow> pid_entry list option" where
  "fill_entries K s [] counter ents = Some ents"
| "fill_entries K s (f # fs) counter ents = do {
     fp \<leftarrow> get_fiber K s f;
     if counter < length ents then fill_entries K s fs (Suc counter) (ents[counter := fiber_entry fp])
     else None }"

text \<open>The common part of the two operations, in two halves: the array is allocated and cleared
  for the fibers there are, and it is filled from a walk of the table. Between the two
  the kernel may run other tasks.\<close>

definition base_stuff_array :: "kapi \<Rightarrow> addr \<Rightarrow> kstate \<Rightarrow> (pid_entry list \<times> kstate) option" where
  "base_stuff_array K p s = do {
     pr \<leftarrow> get_process K s p;
     let nents = unat (last_fiber_id pr);
     let (arr, s) = kmalloc K s;
     if arr = NULL \<and> nents \<noteq> 0 then None else Some (replicate nents zero_entry, s) }"

definition base_stuff_fill :: "kapi \<Rightarrow> addr \<Rightarrow> pid_entry list \<Rightarrow> kstate \<Rightarrow> pid_entry list option" where
  "base_stuff_fill K p ents s = do {
     pr \<leftarrow> get_process K s p;
     fill_entries K s (hash_nodes (fibers pr)) 0 ents }"

definition fiber_base_stuff :: "kapi \<Rightarrow> addr \<Rightarrow> kstate \<Rightarrow> (pid_entry list \<times> kstate) option" where
  "fiber_base_stuff K p s = do {
     (ents, s) \<leftarrow> base_stuff_array K p s;
     ents \<leftarrow> base_stuff_fill K p ents s;
     Some (ents, s) }"

definition ENOENT :: int where "ENOENT = 2"

definition proc_fiber_base_readdir ::
  "kapi \<Rightarrow> ('c \<Rightarrow> pid_entry list \<Rightarrow> int \<times> 'c) \<Rightarrow> task option \<Rightarrow> 'c \<Rightarrow> kstate \<Rightarrow> (int \<times> 'c \<times> kstate) option" where
  "proc_fiber_base_readdir K readdir task ctx s =
     (case task of None \<Rightarrow> Some (- ENOENT, ctx, s)
      | Some task \<Rightarrow> do {
          p \<leftarrow> find_process_by_tgid K (task_tgid task) s;
          (case p of None \<Rightarrow> Some (0, ctx, s)
           | Some p \<Rightarrow> do {
               (ents, s) \<leftarrow> fiber_base_stuff K p s;
               let (ret, ctx) = readdir ctx ents;
               Some (ret, ctx, s) }) })"

text \<open>The dentry that a look-up returns, an error or NULL.\<close>

datatype 'd dentry = Dnull | Dentry 'd | Derr int

definition proc_fiber_base_lookup ::
  "kapi \<Rightarrow> (pid_entry list \<Rightarrow> 'd dentry) \<Rightarrow> task option \<Rightarrow> kstate \<Rightarrow> ('d dentry \<times> kstate) option" where
  "proc_fiber_base_lookup K look task s =
     (case task of None \<Rightarrow> Some (Derr (- ENOENT), s)
      | Some task \<Rightarrow> do {
          p \<leftarrow> find_process_by_tgid K (task_tgid task) s;
          (case p of None \<Rightarrow> Some (Dnull, s)
           | Some p \<Rightarrow> do {
               (ents, s) \<leftarrow> fiber_base_stuff K p s;
               Some (look ents, s) }) })"

section \<open>The file of a fiber\<close>

definition PROC_STAT_LEN :: nat where
  "PROC_STAT_LEN = 512"

definition stat_text :: "fiber \<Rightarrow> string" where
  "stat_text fp =
     ''Currently Ongoing: '' @ (if attached_thread fp = NULL then ''no'' else ''yes'') @ [newline] @
     ''Start Address: 0x'' @ hex16 (start_address fp) @ [newline] @
     ''Creator thread: '' @ dec_int (sint (creator_thread fp)) @ [newline] @
     ''# of current activations: '' @ dec_nat (unat (activation_counter fp)) @ [newline] @
     ''# of failed activations: '' @ dec_int (sint (failed_activation_counter fp)) @ [newline] @
     ''Total execution time in user space: '' @ dec_nat (unat (total_time fp div 1000000000)) @ [newline]"

text \<open>\<open>kstrtoul\<close> is a parameter: \<^term>\<open>None\<close> when it reports an error. A task that no
  longer exists is not tested for before it is dereferenced. The copy starts at
  the beginning of the text whatever the offset is.\<close>

definition proc_fiber_read ::
  "kapi \<Rightarrow> (string \<Rightarrow> ulong option) \<Rightarrow> task option \<Rightarrow> string \<Rightarrow> (nat \<Rightarrow> bool) \<Rightarrow> kstate \<Rightarrow>
     ulong \<Rightarrow> ulong \<Rightarrow> (long \<times> string \<times> ulong) option" where
  "proc_fiber_read K kstrtoul task d_name copies s len off = do {
     task \<leftarrow> task;
     ep \<leftarrow> find_process_by_tgid K (task_tgid task) s;
     (case ep of None \<Rightarrow> Some (0, [], off)
      | Some ep \<Rightarrow>
          (case kstrtoul d_name of None \<Rightarrow> Some (0, [], off)
           | Some fid \<Rightarrow> do {
               fp \<leftarrow> find_fiber_by_id K (ucast fid) ep s;
               (case fp of None \<Rightarrow> Some (0, [], off)
                | Some fp \<Rightarrow> do {
                    fb \<leftarrow> get_fiber K s fp;
                    let proc_stat_string = snprintf PROC_STAT_LEN (stat_text fb);
                    let n = length proc_stat_string;
                    if n \<le> unat off then Some (0, [], off)
                    else do {
                      let i = min (unat len) n;
                      if \<not> copies i then Some (- EFAULT, [], off)
                      else Some (of_nat i, take i proc_stat_string, off + of_nat i) } }) })) }"

section \<open>The listing\<close>

lemma fill_entries_all:
  assumes "\<And>f. f \<in> set fs \<Longrightarrow> get_fiber K s f = Some (fib f)" "counter + length fs = length ents"
  shows "fill_entries K s fs counter ents = Some (take counter ents @ map (\<lambda>f. fiber_entry (fib f)) fs)"
  using assms
proof (induction fs arbitrary: counter ents)
  case (Cons f fs)
  have "fill_entries K s fs (Suc counter) (ents[counter := fiber_entry (fib f)]) =
      Some (take (Suc counter) (ents[counter := fiber_entry (fib f)]) @ map (\<lambda>f. fiber_entry (fib f)) fs)"
    using Cons.prems by (intro Cons.IH) auto
  moreover have "take (Suc counter) (ents[counter := fiber_entry (fib f)]) = take counter ents @ [fiber_entry (fib f)]"
    using Cons.prems(2) by (simp add: take_Suc_conv_app_nth)
  ultimately show ?case using Cons.prems by simp
qed simp

text \<open>The entries of a process: one for each of its fibers.\<close>

definition fiber_entries :: "kstate \<Rightarrow> process \<Rightarrow> pid_entry list" where
  "fiber_entries s p = map (\<lambda>f. fiber_entry (the (live_fiber s f))) (hash_nodes (fibers p))"

lemma length_hash_nodes:
  assumes "kapi_ok K" "fibers_ok K s a p"
  shows "length (hash_nodes (fibers p)) = unat (last_fiber_id p)"
  using walk_nodes(2) [OF assms] assms(2) distinct_card [of "hash_nodes (fibers p)"]
  by (simp add: fibers_ok_def)

lemma base_stuff_fits:
  assumes K: "kapi_ok K" and p: "live_process s a = Some p" and ok: "fibers_ok K s a p"
  shows "base_stuff_fill K a (replicate (unat (last_fiber_id p)) zero_entry) (alloc_step s) = Some (fiber_entries s p)"
proof -
  have "get_fiber K (alloc_step s) f = Some (the (live_fiber s f))" if "f \<in> set (hash_nodes (fibers p))" for f
  proof -
    have "f \<in> nodes (fibers p)" using that walk_nodes(2) [OF K ok] by simp
    then obtain fb where "live_fiber s f = Some fb" using fibers_okD [OF ok] by metis
    then show ?thesis using get_live(3) [of "alloc_step s" f fb K] by simp
  qed
  then have "fill_entries K (alloc_step s) (hash_nodes (fibers p)) 0 (replicate (unat (last_fiber_id p)) zero_entry) =
      Some (fiber_entries s p)"
    using fill_entries_all [of "hash_nodes (fibers p)" K "alloc_step s" "\<lambda>f. the (live_fiber s f)" 0]
      length_hash_nodes [OF K ok] by (simp add: fiber_entries_def)
  then show ?thesis using get_live(1) [of "alloc_step s" a p K] p by (simp add: base_stuff_fill_def)
qed

lemma base_stuff_eq:
  assumes K: "kapi_ok K" and p: "live_process s a = Some p" and ok: "fibers_ok K s a p"
    and m: "kmalloc_at K (allocs s) (is_live s) \<noteq> NULL"
  shows "fiber_base_stuff K a s = Some (fiber_entries s p, alloc_step s)"
  using get_live(1) [OF p, of K] m base_stuff_fits [OF K p ok]
  by (simp add: fiber_base_stuff_def base_stuff_array_def kmalloc_eq Let_def)

text \<open>A walk that meets more fibers than the array has places leaves the array.\<close>

lemma fill_entries_overrun: "length ents < counter + length fs \<Longrightarrow> counter \<le> length ents \<Longrightarrow> fill_entries K s fs counter ents = None"
proof (induction fs arbitrary: counter ents)
  case (Cons f fs)
  then show ?case by (cases "counter < length ents") (simp_all add: bind_eq_None_conv)
qed simp

lemma fiber_name:
  assumes ok: "fiber_ok s a p f fb" and small: "unat (last_fiber_id p) < 2 ^ 31"
  shows "name fb = dec_nat (unat (fiber_id fb))"
proof -
  have fid: "unat (fiber_id fb) < 2 ^ 31" using ok small by (simp add: fiber_ok_def)
  have "sint (of_nat (unat (fiber_id fb)) :: pid_t) = int (unat (fiber_id fb))"
    using fid by (intro sint_of_nat_small) simp
  then have "dec_int (sint (fiber_id fb)) = dec_nat (unat (fiber_id fb))" by (simp add: dec_int_def)
  moreover have "length (dec_nat (unat (fiber_id fb))) \<le> 10" using fid by (intro length_dec_nat) simp_all
  ultimately show ?thesis using ok by (simp add: fiber_ok_def snprintf_def)
qed

lemma fiber_entry_name:
  assumes ok: "fibers_ok K s a p" and f: "f \<in> nodes (fibers p)" "live_fiber s f = Some fb"
  shows "name fb = dec_nat (unat (fiber_id fb))"
  using fiber_name [OF fiber_links(2) [OF ok f]] ok by (simp add: fibers_ok_def)

lemma distinct_entry_names:
  assumes K: "kapi_ok K" and ok: "fibers_ok K s a p"
  shows "distinct (map pe_name (fiber_entries s p))"
proof -
  have "inj_on (\<lambda>f. name (the (live_fiber s f))) (nodes (fibers p))"
  proof (rule inj_onI)
    fix f g
    assume f: "f \<in> nodes (fibers p)" and g: "g \<in> nodes (fibers p)"
      and eq: "name (the (live_fiber s f)) = name (the (live_fiber s g))"
    obtain fb gb where fb: "live_fiber s f = Some fb" and gb: "live_fiber s g = Some gb"
      using fibers_okD [OF ok f] fibers_okD [OF ok g] by metis
    then have "unat (fiber_id fb) = unat (fiber_id gb)"
      using eq fiber_entry_name [OF ok f fb] fiber_entry_name [OF ok g gb] dec_nat_inj by simp
    then have "fkey s f = fkey s g" using fb gb by (simp add: fkey_def word_unat_eq_iff)
    then show "f = g" using ok f g by (auto simp: fibers_ok_def dest: table_ok_inj)
  qed
  then show ?thesis
    using walk_nodes(2) [OF K ok] by (simp add: fiber_entries_def distinct_map fiber_entry_def comp_def)
qed

section \<open>The text of a fiber\<close>

lemma length_stat_text: "length (stat_text fb) < PROC_STAT_LEN"
proof -
  have nat20: "length (dec_nat (unat (w :: ulong))) \<le> 20" for w
    using unsigned_less [of w, where ?'a = nat] by (intro length_dec_nat) simp_all
  have int11: "length (dec_int (sint (w :: pid_t))) \<le> 11" for w
  proof -
    have "- (2 ^ 31) \<le> sint w" "sint w < 2 ^ 31" using sint_ge [of w] sint_lt [of w] by simp_all
    then have "\<bar>sint w\<bar> < 10 ^ 10" by (auto simp: abs_le_iff)
    then show ?thesis using length_dec_int [of "sint w" 10] by simp
  qed
  show ?thesis
    using nat20 [of "activation_counter fb"] nat20 [of "total_time fb div 1000000000"] int11 [of "creator_thread fb"]
      length_dec_word [of "failed_activation_counter fb"]
    by (simp add: stat_text_def hex16_def PROC_STAT_LEN_def)
qed

lemma proc_read_eq:
  assumes inv: "kinv K s" and a: "proc_of K s (task_tgid tk) = Some a" "live_process s a = Some p"
    and f: "fiber_of K s p fid = Some f" "live_fiber s f = Some fb"
    and nm: "kstrtoul nm = Some n" "ucast n = fid"
  shows "proc_fiber_read K kstrtoul (Some tk) nm copies s len off =
    (if length (stat_text fb) \<le> unat off then Some (0, [], off)
     else let i = min (unat len) (length (stat_text fb))
       in if \<not> copies i then Some (- EFAULT, [], off) else Some (of_nat i, take i (stat_text fb), off + of_nat i))"
proof -
  have ok: "fibers_ok K s a p" using a by (auto simp: proc_of_Some [OF inv] elim: inv_process [OF inv])
  have "snprintf PROC_STAT_LEN (stat_text fb) = stat_text fb"
    using length_stat_text [of fb] by (simp add: snprintf_def)
  then show ?thesis
    using a f nm find_fiber_eq [OF ok a(2), of fid] get_live(3) [OF f(2)]
    by (simp add: proc_fiber_read_def find_process_eq [OF inv] Let_def)
qed

lemma stat_file:
  assumes "kinv K s" "proc_of K s (task_tgid tk) = Some a" "live_process s a = Some p"
    and "fiber_of K s p fid = Some f" "live_fiber s f = Some fb" "kstrtoul nm = Some n" "ucast n = fid"
  shows "text_file (stat_text fb) (proc_fiber_read K kstrtoul (Some tk) nm (\<lambda>_. True) s)"
proof
  show "length (stat_text fb) < 2 ^ 31" using length_stat_text [of fb] by (simp add: PROC_STAT_LEN_def)
qed (simp_all add: proc_read_eq [where kstrtoul = kstrtoul and nm = nm, OF assms] Let_def min_absorb2)

end
