(* ===== verification/Proc_Probes.thy ===== *)
theory Proc_Probes
  imports Proc_Fs
begin

unbundle bit_operations_syntax

text \<open>
  The two return probes of \<^verbatim>\<open>module/kprobes.c\<close> that add the directory \<open>fibers\<close> to
  \<^verbatim>\<open>/proc/PID\<close>, with the one-entry array \<open>additional\<close> of \<^verbatim>\<open>module/kprobes.h\<close>.

  An entry handler keeps the first two arguments of the probed function in the
  instance of the probe, the return handler takes them from there. Pointers are
  numbers. \<open>proc_task\<close> is the task \<open>get_pid_task\<close> finds for a file or an inode, \<open>ctx_pos\<close>
  the position in a directory context; the kernel functions the handlers call at
  the end are represented by the arguments they are called with.
\<close>

section \<open>The added entry\<close>

definition S_IFDIR :: nat where "S_IFDIR = 16384"
definition S_IFREG :: nat where "S_IFREG = 32768"

definition NOD :: "string \<Rightarrow> nat \<Rightarrow> bool \<Rightarrow> file_ops \<Rightarrow> pid_entry" where
  "NOD nm mode iop fop = \<lparr>pe_name = nm, pe_len = length nm, pe_mode = mode, pe_iop = iop, pe_fop = fop\<rparr>"

definition DIR :: "string \<Rightarrow> nat \<Rightarrow> bool \<Rightarrow> file_ops \<Rightarrow> pid_entry" where
  "DIR nm mode iops fops = NOD nm (S_IFDIR OR mode) iops fops"

definition REG :: "string \<Rightarrow> nat \<Rightarrow> file_ops \<Rightarrow> pid_entry" where
  "REG nm mode fops = NOD nm (S_IFREG OR mode) False fops"

text \<open>\<open>S_IRUGO | S_IXUGO\<close> is octal 0555.\<close>

definition additional :: "pid_entry list" where
  "additional = [DIR ''fibers'' 365 True Dir_ops]"

text \<open>The entries of the listing are what the macro for regular files makes.\<close>

lemma fiber_entry_REG: "fiber_entry fp = REG (name fp) 292 F_fops"
  by (simp add: fiber_entry_def REG_def NOD_def S_IFREG_def regular_readable_def)

section \<open>The handlers\<close>

record tgid_dir_data =
  td_file :: ulong
  td_ctx :: ulong

record tgid_lookup_data =
  tl_dentry :: ulong
  tl_inode :: ulong

definition entry_proc_insert_dir :: "pt_regs \<Rightarrow> int \<times> tgid_dir_data" where
  "entry_proc_insert_dir regs = (0, \<lparr>td_file = di regs, td_ctx = si regs\<rparr>)"

definition entry_proc_lookup_dir :: "pt_regs \<Rightarrow> int \<times> tgid_lookup_data" where
  "entry_proc_lookup_dir regs = (0, \<lparr>tl_dentry = si regs, tl_inode = di regs\<rparr>)"

text \<open>The part of the array \<open>additional\<close> that is handed to the kernel, as the index of
  its first entry relative to the array and the number of entries:
  \<open>additional - (pos - 2), pos - 1\<close>, with \<open>pos\<close> an unsigned int.\<close>

definition additional_range :: "32 word \<Rightarrow> int \<times> int" where
  "additional_range pos = (- uint (pos - 2), uint (pos - 1))"

text \<open>The return handlers: the new value of \<open>nents\<close>, and the file, the context and the
  range that \<open>readdir\<close> is called with, or the inode, the dentry and the range \<open>look\<close>
  is called with. The task is dereferenced without a test.\<close>

definition proc_insert_dir ::
  "kapi \<Rightarrow> (ulong \<Rightarrow> task option) \<Rightarrow> (ulong \<Rightarrow> 64 word) \<Rightarrow> tgid_dir_data \<Rightarrow> 32 word \<Rightarrow> kstate \<Rightarrow>
     (32 word \<times> (ulong \<times> ulong \<times> int \<times> int) option) option" where
  "proc_insert_dir K proc_task ctx_pos data nents s = do {
     let task = proc_task (td_file data);
     let nents = (if nents = 0 then ucast (ctx_pos (td_ctx data)) else nents);
     task \<leftarrow> task;
     p \<leftarrow> find_process_by_tgid K (task_tgid task) s;
     (case p of None \<Rightarrow> Some (nents, None)
      | Some p \<Rightarrow> Some (nents, Some (td_file data, td_ctx data, additional_range nents))) }"

definition proc_lookup_dir ::
  "kapi \<Rightarrow> (ulong \<Rightarrow> task option) \<Rightarrow> tgid_lookup_data \<Rightarrow> 32 word \<Rightarrow> kstate \<Rightarrow>
     (ulong \<times> ulong \<times> int \<times> int) option option" where
  "proc_lookup_dir K proc_task data nents s = do {
     task \<leftarrow> proc_task (tl_inode data);
     p \<leftarrow> find_process_by_tgid K (task_tgid task) s;
     (case p of None \<Rightarrow> Some None
      | Some p \<Rightarrow> if nents = 0 then Some None
          else Some (Some (tl_inode data, tl_dentry data, additional_range nents))) }"

section \<open>The range\<close>

text \<open>The probes hand on a range that ends with the one entry of the array.\<close>

lemma additional_range_ends:
  assumes "2 \<le> unat pos"
  shows "additional_range pos = (2 - int (unat pos), int (unat pos) - 1)"
proof -
  have "unat (pos - 1) = unat pos - 1" "unat (pos - 2) = unat pos - 2"
    using assms unat_sub [of 1 pos] unat_sub [of 2 pos] by (simp_all add: word_le_nat_alt)
  then have "uint (pos - 1) = int (unat pos) - 1" "uint (pos - 2) = int (unat pos) - 2"
    using assms unfolding uint_nat by simp_all
  then show ?thesis by (simp add: additional_range_def)
qed

text \<open>The kernel's directory reader, as far as it matters here: which entries of an
  array it looks at when the position is \<open>pos\<close>. The positions 0 and 1 stand for the
  two dot entries.\<close>

definition pident_readdir_ok :: "(nat \<Rightarrow> int \<Rightarrow> int \<Rightarrow> int list) \<Rightarrow> bool" where
  "pident_readdir_ok looks_at \<longleftrightarrow>
     (\<forall>pos start count. 2 \<le> pos \<longrightarrow> looks_at pos start count = [start + (int pos - 2)..start + count - 1])"

text \<open>The kernel's look-up: a name that is nowhere is compared with every entry.\<close>

definition pident_lookup_ok :: "(int \<Rightarrow> int \<Rightarrow> int list) \<Rightarrow> bool" where
  "pident_lookup_ok looks_at \<longleftrightarrow> (\<forall>start count. looks_at start count = [start..start + count - 1])"

lemma pident_readdirD:
  "pident_readdir_ok looks_at \<Longrightarrow> 2 \<le> pos \<Longrightarrow> looks_at pos start count = [start + (int pos - 2)..start + count - 1]"
  by (simp add: pident_readdir_ok_def)


end
