(* ===== verification/Fiberlib.thy ===== *)
theory Fiberlib
  imports Proc_Probes
begin

unbundle bit_operations_syntax

text \<open>
  The user library (\<^verbatim>\<open>fiberlib/fiberlib.c\<close>): the constructor that reads the command
  numbers from the device, and the functions a program calls.

  \<open>read\<close> is a parameter of the constructor: a function from the number of bytes
  asked for and the state of the file to the result, \<open>errno\<close>, the bytes and the new
  state; \<^term>\<open>None\<close> is an error of the program behind it. The loop runs on fuel, since
  a \<open>read\<close> that is interrupted for ever would keep it going. The buffer has whatever
  contents the stack had before. The file descriptor \<open>fd\<close> is not represented: the device is
  open, and what \<open>read\<close> and \<open>ioctl\<close> would answer if it could not be opened is left out.
\<close>

section \<open>Initialisation\<close>

datatype ioctl_type =
    IOCTL_CONVERT_THREAD_TO_FIBER | IOCTL_CREATE_FIBER | IOCTL_SWITCH_TO_FIBER
  | IOCTL_FLS_ALLOC | IOCTL_FLS_FREE | IOCTL_FLS_GETVALUE | IOCTL_FLS_SETVALUE

fun ioctl_nr :: "ioctl_type \<Rightarrow> nat" where
  "ioctl_nr IOCTL_CONVERT_THREAD_TO_FIBER = 0"
| "ioctl_nr IOCTL_CREATE_FIBER = 1"
| "ioctl_nr IOCTL_SWITCH_TO_FIBER = 2"
| "ioctl_nr IOCTL_FLS_ALLOC = 3"
| "ioctl_nr IOCTL_FLS_FREE = 4"
| "ioctl_nr IOCTL_FLS_GETVALUE = 5"
| "ioctl_nr IOCTL_FLS_SETVALUE = 6"

definition MAX_IOCTL_CMDS :: nat where
  "MAX_IOCTL_CMDS = 7"

record fiberlib =
  fiberlib_initialized :: bool
  ioctl_numbers :: "long list"

definition fresh_lib :: fiberlib where
  "fresh_lib = \<lparr>fiberlib_initialized = False, ioctl_numbers = replicate MAX_IOCTL_CMDS 0\<rparr>"

definition EINTR :: int where "EINTR = 4"

text \<open>The reading loop; inside, \<^term>\<open>None\<close> is the early return on an error.\<close>

fun read_loop ::
  "nat \<Rightarrow> (nat \<Rightarrow> 'f \<Rightarrow> (int \<times> int \<times> string \<times> 'f) option) \<Rightarrow> 'f \<Rightarrow> char list \<Rightarrow> nat \<Rightarrow> char list option option" where
  "read_loop 0 rd f buf bytes_read = None"
| "read_loop (Suc fuel) rd f buf bytes_read = do {
     (ret, errno, bytes, f) \<leftarrow> rd (length buf - bytes_read) f;
     if ret = 0 then Some (Some buf)
     else if ret < 0 \<and> errno = - EINTR then read_loop fuel rd f buf bytes_read
     else if ret < 0 then Some None
     else read_loop fuel rd f (take bytes_read buf @ bytes @ drop (bytes_read + length bytes) buf)
       (bytes_read + nat ret) }"

text \<open>The loop over the lines: the next token is fetched before the index is tested.\<close>

function token_loop :: "nat \<Rightarrow> string option \<Rightarrow> char list \<Rightarrow> long list \<Rightarrow> long list option" where
  "token_loop i None rest nums = Some nums"
| "token_loop i (Some token) rest nums =
     (if MAX_IOCTL_CMDS \<le> i then None
      else do {
        let nums = nums[i := word_of_int (strtol10 token)];
        (token, rest) \<leftarrow> strtok rest;
        if Suc i = MAX_IOCTL_CMDS then Some nums else token_loop (Suc i) token rest nums })"
  by pat_completeness auto
termination
  by (relation "measure (\<lambda>(i, _). MAX_IOCTL_CMDS - i)") auto

definition fiberlib_init ::
  "nat \<Rightarrow> (nat \<Rightarrow> 'f \<Rightarrow> (int \<times> int \<times> string \<times> 'f) option) \<Rightarrow> 'f \<Rightarrow> char list \<Rightarrow> fiberlib \<Rightarrow> fiberlib option" where
  "fiberlib_init fuel rd f buf L = do {
     r \<leftarrow> read_loop fuel rd f buf 0;
     (case r of
        None \<Rightarrow> Some L
      | Some buf \<Rightarrow> do {
          (token, rest) \<leftarrow> strtok buf;
          nums \<leftarrow> token_loop 0 token rest (ioctl_numbers L);
          Some (L\<lparr>ioctl_numbers := nums, fiberlib_initialized := True\<rparr>) }) }"

section \<open>The functions\<close>

text \<open>\<open>ioctl\<close> of the C library: the command is an unsigned int in the kernel; a result
  between -4095 and -1 is an error number and becomes -1; the result is an int.\<close>

definition ioctl ::
  "kapi \<Rightarrow> long \<Rightarrow> fiberlib \<Rightarrow> pid_t \<Rightarrow> ioctl_type \<Rightarrow> ulong \<Rightarrow> uspace \<Rightarrow> kstate \<Rightarrow> (32 word \<times> uspace \<times> kstate) option" where
  "ioctl K major L me ty arg u s = do {
     (r, u, s) \<leftarrow> fibers_ioctl K major me (ucast (ioctl_numbers L ! ioctl_nr ty)) arg u s;
     Some (if - 4095 \<le> sint r \<and> sint r < 0 then -1 else ucast r, u, s) }"

text \<open>The argument structure sits at \<open>f_at\<close> in the memory of the process; the fields
  that are not named in its initialiser are zero.\<close>

definition no_args :: fiber_arguments where
  "no_args = \<lparr>stack_pointer = 0, stack_size = 0, start_function_address = 0, start_function_arguments = 0,
     fa_fiber_id = 0, fa_index = 0, fa_buffer = 0\<rparr>"

definition put_args :: "ulong \<Rightarrow> fiber_arguments \<Rightarrow> uspace \<Rightarrow> uspace" where
  "put_args f_at f u = u\<lparr>args_at := (args_at u)(f_at \<mapsto> f)\<rparr>"

definition ConvertThreadToFiber ::
  "kapi \<Rightarrow> long \<Rightarrow> fiberlib \<Rightarrow> pid_t \<Rightarrow> uspace \<Rightarrow> kstate \<Rightarrow> (pid_t \<times> uspace \<times> kstate) option" where
  "ConvertThreadToFiber K major L me u s = ioctl K major L me IOCTL_CONVERT_THREAD_TO_FIBER 0 u s"

definition CreateFiber ::
  "kapi \<Rightarrow> long \<Rightarrow> fiberlib \<Rightarrow> (nat \<Rightarrow> ulong \<Rightarrow> ulong option) \<Rightarrow> pid_t \<Rightarrow> ulong \<Rightarrow> ulong \<Rightarrow> ulong \<Rightarrow> ulong \<Rightarrow>
     uspace \<Rightarrow> kstate \<Rightarrow> (pid_t \<times> uspace \<times> kstate) option" where
  "CreateFiber K major L posix_memalign me f_at function_pointer ss parameters u s =
     (case posix_memalign 16 ss of
        None \<Rightarrow> Some (-1, u, s)
      | Some stk \<Rightarrow> ioctl K major L me IOCTL_CREATE_FIBER f_at
          (put_args f_at (no_args\<lparr>stack_pointer := stk, stack_size := ss,
             start_function_address := function_pointer, start_function_arguments := parameters\<rparr>) u) s)"

definition SwitchToFiber ::
  "kapi \<Rightarrow> long \<Rightarrow> fiberlib \<Rightarrow> pid_t \<Rightarrow> ulong \<Rightarrow> pid_t \<Rightarrow> uspace \<Rightarrow> kstate \<Rightarrow> (long \<times> uspace \<times> kstate) option" where
  "SwitchToFiber K major L me f_at fid u s = do {
     (r, u, s) \<leftarrow> ioctl K major L me IOCTL_SWITCH_TO_FIBER f_at (put_args f_at (no_args\<lparr>fa_fiber_id := fid\<rparr>) u) s;
     Some (scast r, u, s) }"

definition FlsAlloc :: "kapi \<Rightarrow> long \<Rightarrow> fiberlib \<Rightarrow> pid_t \<Rightarrow> uspace \<Rightarrow> kstate \<Rightarrow> (long \<times> uspace \<times> kstate) option" where
  "FlsAlloc K major L me u s = do {
     (r, u, s) \<leftarrow> ioctl K major L me IOCTL_FLS_ALLOC 0 u s;
     Some (scast r, u, s) }"

definition FlsFree ::
  "kapi \<Rightarrow> long \<Rightarrow> fiberlib \<Rightarrow> pid_t \<Rightarrow> ulong \<Rightarrow> long \<Rightarrow> uspace \<Rightarrow> kstate \<Rightarrow> (bool \<times> uspace \<times> kstate) option" where
  "FlsFree K major L me f_at index u s = do {
     (r, u, s) \<leftarrow> ioctl K major L me IOCTL_FLS_FREE f_at (put_args f_at (no_args\<lparr>fa_index := index\<rparr>) u) s;
     Some (r \<noteq> 0, u, s) }"

definition FlsSetValue ::
  "kapi \<Rightarrow> long \<Rightarrow> fiberlib \<Rightarrow> pid_t \<Rightarrow> ulong \<Rightarrow> longlong \<Rightarrow> long \<Rightarrow> uspace \<Rightarrow> kstate \<Rightarrow> (uspace \<times> kstate) option" where
  "FlsSetValue K major L me f_at buffer index u s = do {
     (r, u, s) \<leftarrow> ioctl K major L me IOCTL_FLS_SETVALUE f_at
       (put_args f_at (no_args\<lparr>fa_index := index, fa_buffer := buffer\<rparr>) u) s;
     Some (u, s) }"

text \<open>The local variable \<open>a\<close> that receives the value sits at \<open>a_at\<close>.\<close>

definition FlsGetValue ::
  "kapi \<Rightarrow> long \<Rightarrow> fiberlib \<Rightarrow> pid_t \<Rightarrow> ulong \<Rightarrow> ulong \<Rightarrow> long \<Rightarrow> uspace \<Rightarrow> kstate \<Rightarrow> (longlong \<times> uspace \<times> kstate) option" where
  "FlsGetValue K major L me f_at a_at index u s = do {
     let u = u\<lparr>cells := (cells u)(a_at \<mapsto> 0)\<rparr>;
     (r, u, s) \<leftarrow> ioctl K major L me IOCTL_FLS_GETVALUE f_at
       (put_args f_at (no_args\<lparr>fa_index := index, fa_buffer := a_at\<rparr>) u) s;
     a \<leftarrow> cells u a_at;
     Some (a, u, s) }"

text \<open>The destructor: closing the descriptor releases the device file unless another
  descriptor, that of a forked process for instance, refers to the same open file.\<close>

definition close_fiberlib :: "kapi \<Rightarrow> bool \<Rightarrow> pid_t \<Rightarrow> int \<Rightarrow> kstate \<Rightarrow> (int \<times> kstate) option" where
  "close_fiberlib K shared me refs s =
     (if shared then Some (refs, s)
      else do {
        (r, refs, s) \<leftarrow> fiber_close K me refs s;
        Some (refs, s) })"

section \<open>The numbers that were read\<close>

text \<open>The device as the library reads it: the state is the offset.\<close>

definition device_read :: "string \<Rightarrow> nat \<Rightarrow> ulong \<Rightarrow> (int \<times> int \<times> string \<times> ulong) option" where
  "device_read msg n off = do {
     (r, bytes, off) \<leftarrow> fibers_read (message_array msg) (\<lambda>_. True) (of_nat n) off;
     Some (sint r, 0, bytes, off) }"

definition number_lines :: "long list \<Rightarrow> string" where
  "number_lines ws = concat (map (\<lambda>w. dec_int (sint w) @ [newline]) ws)"

lemma strtok_number:
  "strtok (number_lines (w # ws) @ tail) = Some (Some (dec_int (sint w)), number_lines ws @ tail)"
  using strtok_line [of "dec_int (sint w)" "number_lines ws @ tail"] dec_int_plain
  by (simp add: number_lines_def)

lemma strtol_word: "word_of_int (strtol10 (dec_int (sint (w :: long)))) = w"
proof -
  have "- (2 ^ 63) \<le> sint w" "sint w < 2 ^ 63" using sint_ge [of w] sint_lt [of w] by simp_all
  then show ?thesis by (simp add: strtol10_dec_int)
qed

lemma token_loop_numbers:
  assumes "i + length (w # ws) = MAX_IOCTL_CMDS" "length nums = MAX_IOCTL_CMDS"
  shows "token_loop i (Some (dec_int (sint w))) (number_lines ws @ tail) nums =
    (if strtok tail = None then None else Some (take i nums @ w # ws))"
  using assms
proof (induction ws arbitrary: i w nums)
  case Nil
  have "take i nums @ [w] = nums[i := w]"
    using Nil by (simp add: upd_conv_take_nth_drop)
  then show ?case
    using Nil by (simp add: number_lines_def strtol_word Let_def) (auto split: option.splits)
next
  case (Cons w' ws)
  have "take (Suc i) (nums[i := w]) = take i nums @ [w]"
    using Cons.prems by (simp add: take_Suc_conv_app_nth)
  then show ?case
    using Cons.IH [of "Suc i" w' "nums[i := w]"] Cons.prems
    by (simp add: strtok_number strtol_word Let_def)
qed

lemma command_number_lines: "command_lines major = number_lines (map (IO_cmd major) [0..<7])"
  by (simp add: command_lines_def number_lines_def comp_def)

text \<open>The reading loop stops after two rounds with the message at the start of the
  buffer and the old contents behind it.\<close>

lemma read_device:
  assumes buf: "length buf = 256" and fuel: "2 \<le> fuel"
  shows "read_loop fuel (device_read (publish_ioctl_message major)) 0 buf 0 =
    Some (Some (command_lines major @ drop (length (command_lines major)) buf))"
proof -
  let ?m = "command_lines major"
  obtain n where n: "fuel = Suc (Suc n)" using fuel by (metis add_2_eq_Suc le_Suc_ex)
  have len: "length ?m \<le> 147" using length_command_lines .
  have "unat (of_nat 256 :: ulong) = 256" by simp
  then obtain off where off: "fibers_read (message_array (publish_ioctl_message major)) (\<lambda>_. True) (of_nat 256) 0 =
        Some (of_nat (length ?m), ?m, off)"
      "fibers_read (message_array (publish_ioctl_message major)) (\<lambda>_. True) (of_nat (256 - length ?m)) off = Some (0, [], off)"
    using dev_file.read_twice [of major "of_nat 256" "of_nat (256 - length ?m)"] len command_lines_nonempty [of major]
    unfolding publish_untruncated by auto
  have "sint (of_nat (length ?m) :: long) = int (length ?m)"
    using len by (intro sint_of_nat_small) simp
  then have 1: "device_read (publish_ioctl_message major) 256 0 = Some (int (length ?m), 0, ?m, off)"
    using off(1) by (simp add: device_read_def)
  have 2: "device_read (publish_ioctl_message major) (256 - length ?m) off = Some (0, 0, [], off)"
    using off(2) by (simp add: device_read_def)
  show ?thesis
    using 1 2 buf len command_lines_nonempty [of major] by (simp add: n)
qed

lemma init_from_device:
  assumes buf: "length buf = 256" and fuel: "2 \<le> fuel" and L: "length (ioctl_numbers L) = MAX_IOCTL_CMDS"
  shows "fiberlib_init fuel (device_read (publish_ioctl_message major)) 0 buf L =
    (if strtok (drop (length (command_lines major)) buf) = None then None
     else Some (L\<lparr>ioctl_numbers := map (IO_cmd major) [0..<7], fiberlib_initialized := True\<rparr>))"
proof -
  have split: "map (IO_cmd major) [0..<7] = IO_cmd major 0 # map (IO_cmd major) [1..<7]"
    by (simp add: upt_rec)
  then have "token_loop 0 (Some (dec_int (sint (IO_cmd major 0))))
      (number_lines (map (IO_cmd major) [1..<7]) @ drop (length (command_lines major)) buf) (ioctl_numbers L) =
    (if strtok (drop (length (command_lines major)) buf) = None then None else Some (map (IO_cmd major) [0..<7]))"
    using token_loop_numbers [of 0 "IO_cmd major 0" "map (IO_cmd major) [1..<7]"] L
    by (simp add: MAX_IOCTL_CMDS_def)
  then show ?thesis
    using read_device [OF buf fuel, of major] strtok_number [of "IO_cmd major 0" "map (IO_cmd major) [1..<7]"] split
    by (simp add: fiberlib_init_def command_number_lines)
qed

section \<open>From the library to the module\<close>

definition lib_ready :: "long \<Rightarrow> fiberlib \<Rightarrow> bool" where
  "lib_ready major L \<longleftrightarrow> unat major < 4096 \<and> ioctl_numbers L = map (IO_cmd major) [0..<7]"

lemma IO_cmd_32:
  assumes "unat major < 4096" "nr < 8"
  shows "ucast (ucast (IO_cmd major nr) :: 32 word) = IO_cmd major nr"
proof -
  have "unat major < 2 ^ 24" using assms by simp
  then have "take_bit 24 major = major"
    by (metis take_bit_nat_eq_self unsigned_take_bit_eq word_unat_eq_iff)
  then have "take_bit 32 (push_bit 8 major) = push_bit 8 major"
    by (simp add: take_bit_push_bit)
  moreover have "take_bit 32 (of_nat nr :: long) = of_nat nr"
    using assms(2) by (simp add: take_bit_of_nat take_bit_nat_eq_self)
  ultimately have "take_bit 32 (IO_cmd major nr) = IO_cmd major nr"
    by (simp add: IO_cmd_def take_bit_or)
  then have small: "unat (IO_cmd major nr) < 2 ^ 32"
    by (metis take_bit_nat_less_exp unsigned_take_bit_eq)
  have "unat (ucast (ucast (IO_cmd major nr) :: 32 word) :: long) = unat (IO_cmd major nr)"
    using small by (simp add: unat_ucast_small)
  then show ?thesis by (simp add: word_unat_eq_iff)
qed

lemma lib_command:
  assumes "lib_ready major L" "nr < 7"
  shows "command major (ucast (ioctl_numbers L ! nr)) = Some nr"
  using assms IO_cmd_32 [of major nr]
  by (intro command_IO) (simp_all add: lib_ready_def)

lemma get_put_args:
  "access_ok u f_at sizeof_fiber_arguments \<Longrightarrow> get_arguments f_at (put_args f_at fa u) = Some fa"
  by (simp add: get_arguments_def put_args_def)

text \<open>How the results of the module look through \<open>ioctl\<close>.\<close>

definition libc_result :: "long \<Rightarrow> 32 word" where
  "libc_result r = (if - 4095 \<le> sint r \<and> sint r < 0 then -1 else ucast r)"

lemma libc_result_simps [simp]: "libc_result 0 = 0" "libc_result (-1) = -1" "libc_result 1 = 1"
  by (simp_all add: libc_result_def)

lemma ioctl_libc:
  "ioctl K major L me ty arg u s =
     fibers_ioctl K major me (ucast (ioctl_numbers L ! ioctl_nr ty)) arg u s \<bind> (\<lambda>(r, u, s). Some (libc_result r, u, s))"
  by (simp add: ioctl_def libc_result_def)

lemma lib_ioctl:
  assumes "lib_ready major L" "tasks s me = Some cur"
  shows "ioctl K major L me IOCTL_CONVERT_THREAD_TO_FIBER arg u s =
      do_ConvertThreadToFiber K me (task_pid cur) s \<bind> (\<lambda>(r, s). Some (libc_result (scast r), u, s))"
    "ioctl K major L me IOCTL_FLS_ALLOC arg u s =
      do_FlsAlloc K me (task_pid cur) s \<bind> (\<lambda>(r, s). Some (libc_result r, u, s))"
    and "get_arguments arg u = Some fa \<Longrightarrow> ioctl K major L me IOCTL_CREATE_FIBER arg u s =
      do_CreateFiber K me (stack_pointer fa) (stack_size fa) (start_function_address fa)
        (start_function_arguments fa) (task_pid cur) s \<bind> (\<lambda>(r, s). Some (libc_result (scast r), u, s))"
    "get_arguments arg u = Some fa \<Longrightarrow> ioctl K major L me IOCTL_SWITCH_TO_FIBER arg u s =
      do_SwitchToFiber K me (fa_fiber_id fa) (task_pid cur) s \<bind> (\<lambda>(r, s). Some (libc_result r, u, s))"
    "get_arguments arg u = Some fa \<Longrightarrow> ioctl K major L me IOCTL_FLS_FREE arg u s =
      do_FlsFree K me (fa_index fa) (task_pid cur) s \<bind> (\<lambda>(r, s). Some (libc_result (of_bool r), u, s))"
    "get_arguments arg u = Some fa \<Longrightarrow> writable u (fa_buffer fa) \<Longrightarrow> ioctl K major L me IOCTL_FLS_GETVALUE arg u s =
      do_FlsGetValue K me (fa_index fa) (task_pid cur) s \<bind> (\<lambda>v. Some (0, u\<lparr>cells := (cells u)(fa_buffer fa \<mapsto> v)\<rparr>, s))"
    "get_arguments arg u = Some fa \<Longrightarrow> ioctl K major L me IOCTL_FLS_SETVALUE arg u s =
      do_FlsSetValue K me (fa_index fa) (fa_buffer fa) (task_pid cur) s \<bind> (\<lambda>s. Some (0, u, s))"
  by (simp_all add: ioctl_libc ioctl_dispatch [OF assms(2)] lib_command [OF assms(1)] copy_to_user_def case_prod_unfold)

end
