(* ===== verification/Fiber_System.thy ===== *)
theory Fiber_System
  imports Fiberlib
begin

text \<open>
  The module as a whole: a transition system whose steps are the handlers of the
  other theories, run in any order by any task, together with what happens outside
  the module (user code runs and changes the registers of its task, tasks are
  created). Each handler runs as one step.
\<close>

section \<open>Invariants of transition systems\<close>

locale invariant_system =
  fixes init :: "'s \<Rightarrow> bool"
    and step :: "'s \<Rightarrow> 's \<Rightarrow> bool"
    and inv :: "'s \<Rightarrow> bool"
  assumes init_inv: "init s \<Longrightarrow> inv s"
    and step_inv: "inv s \<Longrightarrow> step s s' \<Longrightarrow> inv s'"
begin

lemma steps_inv: "step\<^sup>*\<^sup>* s s' \<Longrightarrow> inv s \<Longrightarrow> inv s'"
  by (induction rule: rtranclp_induct) (auto intro: step_inv)

lemma reach_inv: "init s \<Longrightarrow> step\<^sup>*\<^sup>* s s' \<Longrightarrow> inv s'"
  using steps_inv init_inv by blast

end

section \<open>The steps\<close>

text \<open>Which handler a step is: a system call with its result, an exit, a closing of the
  device, or anything else.\<close>

datatype mlabel = L_ioctl pid_t "32 word" ulong uspace long | L_exit pid_t | L_close pid_t | L_other

inductive mstep :: "kapi \<Rightarrow> long \<Rightarrow> mlabel \<Rightarrow> kstate \<Rightarrow> kstate \<Rightarrow> bool" for K :: kapi and major :: long where
  call_ioctl: "ids_left K me s \<Longrightarrow> fibers_ioctl K major me cmd arg u s = Some (r, u', s') \<Longrightarrow>
    mstep K major (L_ioctl me cmd arg u r) s s'"
| task_exit: "exit_cleanup K me s = Some s' \<Longrightarrow> mstep K major (L_exit me) s (s'\<lparr>tasks := (tasks s')(me := None)\<rparr>)"
| close_device: "fiber_close K me refs s = Some (r, refs', s') \<Longrightarrow> mstep K major (L_close me) s s'"
| task_switch: "fiber_timer K me c s = Some (c', s') \<Longrightarrow> mstep K major L_other s s'"
| list_fibers: "proc_fiber_base_readdir K readdir tk (pos :: nat) s = Some (r, pos', s') \<Longrightarrow> mstep K major L_other s s'"
| lookup_fiber: "proc_fiber_base_lookup K (look :: pid_entry list \<Rightarrow> nat dentry) tk s = Some (d, s') \<Longrightarrow>
    mstep K major L_other s s'"
| user_code: "tasks s me = Some t \<Longrightarrow> task_pid t' = task_pid t \<Longrightarrow> task_tgid t' = task_tgid t \<Longrightarrow>
    mstep K major L_other s (set_task s me t')"
| new_task: "tasks s me = None \<Longrightarrow> mstep K major L_other s (set_task s me t)"

definition msteps :: "kapi \<Rightarrow> long \<Rightarrow> kstate \<Rightarrow> kstate \<Rightarrow> bool" where
  "msteps K major s s' \<longleftrightarrow> (\<exists>l. mstep K major l s s')"

definition initial :: "kstate \<Rightarrow> bool" where
  "initial s \<longleftrightarrow> heap s = Map.empty \<and> processes s = hash_init \<and> \<not> struct_process_lock s"

definition reachable :: "kapi \<Rightarrow> long \<Rightarrow> kstate \<Rightarrow> bool" where
  "reachable K major s \<longleftrightarrow> (\<exists>s0. initial s0 \<and> (msteps K major)\<^sup>*\<^sup>* s0 s)"

lemma initial_inv: "initial s \<Longrightarrow> kinv K s"
  by (simp add: initial_def kinv_def is_live_def)

lemma set_task_inv [simp]: "kinv K (set_task s me t) = kinv K s"
  by (simp add: set_task_def)

lemma inv_alloc_step: "kinv K s \<Longrightarrow> kinv K (alloc_step s)"
  by (rule inv_heap_only) simp_all

lemma base_stuff_state: "fiber_base_stuff K p s = Some (ents, s') \<Longrightarrow> s' = alloc_step s"
  by (auto simp: fiber_base_stuff_def base_stuff_array_def kmalloc_eq bind_eq_Some_conv Let_def split: if_splits)

lemma listing_inv:
  assumes "kinv K s"
  shows "proc_fiber_base_readdir K readdir tk ctx s = Some (r, ctx', s') \<Longrightarrow> kinv K s'"
    "proc_fiber_base_lookup K look tk s = Some (d, s') \<Longrightarrow> kinv K s'"
  using assms inv_alloc_step [OF assms]
  by (auto simp: proc_fiber_base_readdir_def proc_fiber_base_lookup_def bind_eq_Some_conv Let_def
      split_beta dest!: base_stuff_state split: option.splits)

interpretation module: invariant_system initial "msteps K major" "\<lambda>s. kapi_ok K \<longrightarrow> kinv K s"
  for K :: kapi and major :: long
proof
  show "kapi_ok K \<longrightarrow> kinv K s" if "initial s" for s
    using initial_inv [OF that] by blast
  show "kapi_ok K \<longrightarrow> kinv K s'" if inv: "kapi_ok K \<longrightarrow> kinv K s" and step: "msteps K major s s'" for s s'
  proof
    assume K: "kapi_ok K"
    then have inv: "kinv K s" using inv by blast
    obtain l where "mstep K major l s s'" using step by (auto simp: msteps_def)
    then show "kinv K s'"
    proof (cases rule: mstep.cases)
      case (call_ioctl me cmd arg u r u')
      then show ?thesis using ioctl_inv [OF inv K] by blast
    next
      case (task_exit me s2)
      then show ?thesis using exit_inv [OF inv K] by simp
    next
      case (close_device me refs r refs')
      then show ?thesis using cleanup_inv [OF inv K] by (auto simp: fiber_close_def bind_eq_Some_conv)
    next
      case (task_switch me c c')
      then show ?thesis using timer_inv [OF inv] by blast
    qed (use inv listing_inv [OF inv] in auto)
  qed
qed

lemma reachable_kinv: "kapi_ok K \<Longrightarrow> reachable K major s \<Longrightarrow> kinv K s"
  using module.reach_inv [of _ K major s] by (auto simp: reachable_def)

text \<open>Every live object belongs to a registered process.\<close>

lemma live_owner:
  assumes inv: "kinv K s" and x: "is_live s x"
  obtains a p where "a \<in> nodes (processes s)" "live_process s a = Some p" "threads_ok K s a p" "fibers_ok K s a p"
    "x = a \<or> x \<in> nodes (threads p) \<or> x \<in> nodes (fibers p)"
proof -
  obtain a where a: "a \<in> nodes (processes s)" "x \<in> owned s a" using inv x by (auto simp: kinv_def)
  obtain p where p: "live_process s a = Some p" "threads_ok K s a p" "fibers_ok K s a p"
    using inv_process [OF inv a(1)] by metis
  have "x = a \<or> x \<in> nodes (threads p) \<or> x \<in> nodes (fibers p)" using a(2) p(1) by (simp add: owned_def)
  then show ?thesis using that a(1) p by blast
qed

lemma live_thread_owner:
  assumes inv: "kinv K s" and t: "live_thread s t = Some th"
  obtains a p where "t \<in> nodes (threads p)" "threads_ok K s a p" "fibers_ok K s a p"
    "a \<in> nodes (processes s)" "live_process s a = Some p"
proof -
  obtain a p where a: "a \<in> nodes (processes s)" "live_process s a = Some p" "threads_ok K s a p" "fibers_ok K s a p"
      "t = a \<or> t \<in> nodes (threads p) \<or> t \<in> nodes (fibers p)"
    using live_owner [OF inv live_is_live(2) [OF t]] by metis
  have "t \<noteq> a" using live_types_differ(1) [OF a(2) t] by simp
  moreover have "t \<notin> nodes (fibers p)"
    using fibers_okD [OF a(4)] live_types_differ(3) [OF t] by metis
  ultimately show ?thesis using a that by blast
qed

lemma live_fiber_owner:
  assumes inv: "kinv K s" and f: "live_fiber s f = Some fb"
  obtains a p where "f \<in> nodes (fibers p)" "fibers_ok K s a p"
proof -
  obtain a p where a: "live_process s a = Some p" "threads_ok K s a p" "fibers_ok K s a p"
      "f = a \<or> f \<in> nodes (threads p) \<or> f \<in> nodes (fibers p)"
    using live_owner [OF inv live_is_live(3) [OF f]] by metis
  have "f \<noteq> a" using live_types_differ(2) [OF a(1) f] by simp
  moreover have "f \<notin> nodes (threads p)"
    using threads_okD [OF a(2)] live_types_differ(3) [OF _ f] by metis
  ultimately show ?thesis using a that by blast
qed

text \<open>Attachment, selection and lock say the same.\<close>

lemma attached_iff_selected:
  assumes inv: "kinv K s" and f: "live_fiber s f = Some fb"
  shows "attached_thread fb = Some t \<longleftrightarrow> (\<exists>th. live_thread s t = Some th \<and> selected_fiber th = Some f)"
proof -
  obtain a p where a: "f \<in> nodes (fibers p)" "fibers_ok K s a p" using live_fiber_owner [OF inv f] by metis
  show ?thesis
  proof
    assume "attached_thread fb = Some t"
    then show "\<exists>th. live_thread s t = Some th \<and> selected_fiber th = Some f" using fiber_links(3) [OF a(2,1) f] by blast
  next
    assume "\<exists>th. live_thread s t = Some th \<and> selected_fiber th = Some f"
    then obtain th where t: "live_thread s t = Some th" "selected_fiber th = Some f" by blast
    obtain b q where b: "t \<in> nodes (threads q)" "threads_ok K s b q" using live_thread_owner [OF inv t(1)] by metis
    then show "attached_thread fb = Some t" using thread_links(3) [OF b(2,1) t(1)] t(2) f by auto
  qed
qed

lemma selected_live:
  assumes inv: "kinv K s" and t: "live_thread s t = Some th"
  obtains f fb where "selected_fiber th = Some f" "live_fiber s f = Some fb"
proof -
  obtain a p where a: "t \<in> nodes (threads p)" "threads_ok K s a p" using live_thread_owner [OF inv t] by metis
  show ?thesis using thread_links(3) [OF a(2,1) t] that by blast
qed

lemma selected_once:
  assumes inv: "kinv K s" and t: "live_thread s t = Some th" "live_thread s t' = Some th'"
    and f: "selected_fiber th = selected_fiber th'"
  shows "t = t'"
proof -
  obtain g gb where g: "selected_fiber th = Some g" "live_fiber s g = Some gb" by (rule selected_live [OF inv t(1)])
  have "attached_thread gb = Some t" "attached_thread gb = Some t'"
    using attached_iff_selected [OF inv g(2)] t g(1) f by auto
  then show ?thesis by simp
qed

lemma lock_iff_selected:
  assumes inv: "kinv K s" and f: "live_fiber s f = Some fb"
  shows "fiber_lock fb \<longleftrightarrow> (\<exists>t th. live_thread s t = Some th \<and> selected_fiber th = Some f)"
proof -
  obtain a p where a: "f \<in> nodes (fibers p)" "fibers_ok K s a p" using live_fiber_owner [OF inv f] by metis
  have "fiber_lock fb \<longleftrightarrow> (\<exists>t. attached_thread fb = Some t)" using fiber_links(4) [OF a(2,1) f] by auto
  then show ?thesis using attached_iff_selected [OF inv f] by simp
qed

section \<open>Tasks\<close>

text \<open>A task is known by its own number.\<close>

definition pids_ok :: "kstate \<Rightarrow> bool" where
  "pids_ok s \<longleftrightarrow> (\<forall>me cur. tasks s me = Some cur \<longrightarrow> task_pid cur = me)"

lemma pids_ok_cong:
  assumes "pids_ok s" "\<And>x. map_option task_pid (tasks s' x) = map_option task_pid (tasks s x)"
  shows "pids_ok s'"
  unfolding pids_ok_def
proof (intro allI impI)
  fix me cur
  assume "tasks s' me = Some cur"
  then obtain c where "tasks s me = Some c" "task_pid c = task_pid cur" using assms(2) [of me] by (cases "tasks s me") auto
  then show "task_pid cur = me" using assms(1) by (auto simp: pids_ok_def)
qed

end
