(* ===== verification/Fiber_Spec.thy ===== *)
theory Fiber_Spec
  imports Fiber_System
begin

text \<open>
  What the module promises, without its data structures: for every process that
  uses fibers, the set of its fibers and which of them each of its threads runs.
  The abstract transitions are the specification of the operations; the module
  refines them step by step through the abstraction function \<open>abs_state\<close>.
\<close>

section \<open>The abstract machine\<close>

record aproc =
  a_fibers :: "pid_t set"
  a_running :: "pid_t \<rightharpoonup> pid_t"

type_synonym astate = "pid_t \<rightharpoonup> aproc"

datatype aevent =
    Convert pid_t pid_t pid_t
  | Create pid_t pid_t pid_t
  | Switch pid_t pid_t pid_t
  | Leave pid_t pid_t
  | End pid_t
  | Skip

inductive aspec :: "astate \<Rightarrow> aevent \<Rightarrow> astate \<Rightarrow> bool" where
  a_convert_first: "A g = None \<Longrightarrow>
    aspec A (Convert g t f) (A(g \<mapsto> \<lparr>a_fibers = {f}, a_running = [t \<mapsto> f]\<rparr>))"
| a_convert: "\<lbrakk>A g = Some P; a_running P t = None; f \<notin> a_fibers P\<rbrakk> \<Longrightarrow>
    aspec A (Convert g t f) (A(g \<mapsto> \<lparr>a_fibers = insert f (a_fibers P), a_running = (a_running P)(t \<mapsto> f)\<rparr>))"
| a_create: "\<lbrakk>A g = Some P; a_running P t \<noteq> None; f \<notin> a_fibers P\<rbrakk> \<Longrightarrow>
    aspec A (Create g t f) (A(g \<mapsto> P\<lparr>a_fibers := insert f (a_fibers P)\<rparr>))"
| a_switch: "\<lbrakk>A g = Some P; a_running P t \<noteq> None; f \<in> a_fibers P; f \<notin> ran (a_running P)\<rbrakk> \<Longrightarrow>
    aspec A (Switch g t f) (A(g \<mapsto> P\<lparr>a_running := (a_running P)(t \<mapsto> f)\<rparr>))"
| a_leave: "\<lbrakk>A g = Some P; a_running P t \<noteq> None; dom (a_running P) \<noteq> {t}\<rbrakk> \<Longrightarrow>
    aspec A (Leave g t) (A(g \<mapsto> P\<lparr>a_running := (a_running P)(t := None)\<rparr>))"
| a_end: "A g \<noteq> None \<Longrightarrow> aspec A (End g) (A(g := None))"
| a_skip: "aspec A Skip A"

inductive_cases aspecE: "aspec A e B"

text \<open>No fiber is run by two threads, and only existing fibers are run.\<close>

definition aproc_ok :: "aproc \<Rightarrow> bool" where
  "aproc_ok P \<longleftrightarrow> inj_on (a_running P) (dom (a_running P)) \<and> ran (a_running P) \<subseteq> a_fibers P"

definition a_ok :: "astate \<Rightarrow> bool" where
  "a_ok A \<longleftrightarrow> (\<forall>g P. A g = Some P \<longrightarrow> aproc_ok P)"

lemma a_okD: "a_ok A \<Longrightarrow> A g = Some P \<Longrightarrow> aproc_ok P"
  unfolding a_ok_def by blast

lemma a_ok_upd: "a_ok A \<Longrightarrow> aproc_ok P \<Longrightarrow> a_ok (A(g \<mapsto> P))"
  unfolding a_ok_def by simp

lemma aproc_ok_iff:
  "aproc_ok P \<longleftrightarrow> (\<forall>t t' f. a_running P t = Some f \<longrightarrow> a_running P t' = Some f \<longrightarrow> t = t') \<and>
     (\<forall>t f. a_running P t = Some f \<longrightarrow> f \<in> a_fibers P)"
  unfolding aproc_ok_def by (auto simp: inj_on_def ran_def dom_def)

lemma aspec_ok:
  assumes "aspec A e B" "a_ok A"
  shows "a_ok B"
  using assms
proof cases
  case (a_convert g P t f)
  then have "aproc_ok P" using assms(2) by (auto dest: a_okD)
  then have "aproc_ok \<lparr>a_fibers = insert f (a_fibers P), a_running = (a_running P)(t \<mapsto> f)\<rparr>"
    using a_convert unfolding aproc_ok_iff by auto
  then show ?thesis using a_convert assms(2) by (simp add: a_ok_upd)
next
  case (a_switch g P t f)
  then have "aproc_ok P" using assms(2) by (auto dest: a_okD)
  then have "aproc_ok (P\<lparr>a_running := (a_running P)(t \<mapsto> f)\<rparr>)"
    using a_switch unfolding aproc_ok_iff by (auto simp: ran_def)
  then show ?thesis using a_switch assms(2) by (simp add: a_ok_upd)
next
  case (a_leave g P t)
  then have "aproc_ok P" using assms(2) by (auto dest: a_okD)
  then have "aproc_ok (P\<lparr>a_running := (a_running P)(t := None)\<rparr>)"
    unfolding aproc_ok_iff by auto
  then show ?thesis using a_leave assms(2) by (simp add: a_ok_upd)
qed (auto simp: a_ok_def aproc_ok_iff split: if_splits)

text \<open>The executable reading of the switch: what it answers and the new state.\<close>

definition a_switch_to :: "pid_t \<Rightarrow> pid_t \<Rightarrow> pid_t \<Rightarrow> astate \<Rightarrow> bool \<times> astate" where
  "a_switch_to g t f A = (case A g of None \<Rightarrow> (False, A)
     | Some P \<Rightarrow> if a_running P t = None \<or> f \<notin> a_fibers P \<or> f \<in> ran (a_running P) then (False, A)
         else (True, A(g \<mapsto> P\<lparr>a_running := (a_running P)(t \<mapsto> f)\<rparr>)))"

lemma a_switch_to_spec:
  "aspec A (if fst (a_switch_to g t f A) then Switch g t f else Skip) (snd (a_switch_to g t f A))"
  by (auto simp: a_switch_to_def intro: aspec.intros split: option.split)

section \<open>The abstraction\<close>

definition abs_process :: "kapi \<Rightarrow> kstate \<Rightarrow> process \<Rightarrow> aproc" where
  "abs_process K s p = \<lparr>a_fibers = {fid. fiber_of K s p fid \<noteq> NULL},
     a_running = (\<lambda>tid. do {
       t \<leftarrow> thread_of K s p tid;
       th \<leftarrow> live_thread s t;
       f \<leftarrow> selected_fiber th;
       fkey s f })\<rparr>"

definition abs_state :: "kapi \<Rightarrow> kstate \<Rightarrow> astate" where
  "abs_state K s tgid = do {
     a \<leftarrow> proc_of K s tgid;
     p \<leftarrow> live_process s a;
     Some (abs_process K s p) }"

lemma abs_fibers:
  assumes "fibers_ok K s a p"
  shows "fid \<in> a_fibers (abs_process K s p) \<longleftrightarrow> (\<exists>f \<in> nodes (fibers p). fkey s f = Some fid)"
  using fiber_of_Some [OF assms, of fid] by (auto simp: abs_process_def fkey_def)

lemma abs_running:
  assumes "threads_ok K s a p"
  shows "a_running (abs_process K s p) tid = Some fid \<longleftrightarrow>
    (\<exists>t \<in> nodes (threads p). \<exists>th f. live_thread s t = Some th \<and> thread_id th = tid \<and>
       selected_fiber th = Some f \<and> fkey s f = Some fid)"
  using thread_of_Some [OF assms, of tid] by (auto simp: abs_process_def bind_eq_Some_conv) blast+

lemma abs_thread:
  assumes inv: "kinv K s" and c: "caller K s me tid = Some (a, p, t)"
    and th: "live_thread s t = Some th" "selected_fiber th = Some g" "live_fiber s g = Some gb"
  shows "a_running (abs_process K s p) tid = Some (fiber_id gb)"
  using callerD(6) [OF inv c] th by (simp add: abs_process_def fkey_def)

lemma abs_caller:
  assumes inv: "kinv K s" and cur: "tasks s me = Some cur"
  shows "caller K s me tid = None \<longleftrightarrow>
    (\<forall>P. abs_state K s (task_tgid cur) = Some P \<longrightarrow> a_running P tid = None)"
proof
  assume "caller K s me tid = None"
  then show "\<forall>P. abs_state K s (task_tgid cur) = Some P \<longrightarrow> a_running P tid = None"
    using cur by (auto simp: caller_def abs_state_def abs_process_def bind_eq_Some_conv split: bind_splits)
next
  assume r: "\<forall>P. abs_state K s (task_tgid cur) = Some P \<longrightarrow> a_running P tid = None"
  show "caller K s me tid = None"
  proof (rule ccontr)
    assume "caller K s me tid \<noteq> None"
    then obtain a p t where c: "caller K s me tid = Some (a, p, t)" by auto
    note cd = callerD [OF inv c]
    have "abs_state K s (task_tgid cur) = Some (abs_process K s p)"
      using cd(2,7) cur by (auto simp: abs_state_def)
    moreover obtain th g gb where "live_thread s t = Some th" "selected_fiber th = Some g" "live_fiber s g = Some gb"
      using threads_okD [OF cd(3,5)] by metis
    ultimately show False using r abs_thread [OF inv c] by simp
  qed
qed

lemma abs_caller_state:
  assumes inv: "kinv K s" and c: "caller K s me tid = Some (a, p, t)" and cur: "tasks s me = Some cur"
  shows "abs_state K s (task_tgid cur) = Some (abs_process K s p)" "process_id p = task_tgid cur"
  using callerD(2,7) [OF inv c] cur by (auto simp: abs_state_def)

section \<open>What an operation does to the abstraction\<close>

lemma abs_running_frame:
  assumes ok: "threads_ok K s a p" and p': "threads p' = threads p"
    and T: "\<And>t. t \<in> nodes (threads p) \<Longrightarrow> live_thread s' t = live_thread s t"
    and F: "\<And>f. f \<in> nodes (fibers p) \<Longrightarrow> fkey s' f = fkey s f"
  shows "a_running (abs_process K s' p') = a_running (abs_process K s p)"
proof -
  have "thread_of K s' p' = thread_of K s p"
    using thread_of_frame [OF ok, of p' s'] p' T by simp
  moreover have "(live_thread s' t \<bind> (\<lambda>th. selected_fiber th \<bind> fkey s')) =
      (live_thread s t \<bind> (\<lambda>th. selected_fiber th \<bind> fkey s))" if "thread_of K s p tid = Some t" for t tid
  proof -
    have t: "t \<in> nodes (threads p)" using that by (simp add: thread_of_Some [OF ok])
    obtain th f where "live_thread s t = Some th" "selected_fiber th = Some f" "f \<in> nodes (fibers p)"
      using threads_okD [OF ok t] by metis
    then show ?thesis using T [OF t] F by simp
  qed
  ultimately have "(thread_of K s' p' tid \<bind> (\<lambda>t. live_thread s' t \<bind> (\<lambda>th. selected_fiber th \<bind> fkey s'))) =
      (thread_of K s p tid \<bind> (\<lambda>t. live_thread s t \<bind> (\<lambda>th. selected_fiber th \<bind> fkey s)))" for tid
    by (cases "thread_of K s p tid") simp_all
  then show ?thesis by (simp add: abs_process_def)
qed

lemma abs_process_frame:
  assumes ok: "threads_ok K s a p" "fibers_ok K s a p"
    and T: "\<And>t. t \<in> nodes (threads p) \<Longrightarrow> live_thread s' t = live_thread s t"
    and F: "\<And>f. f \<in> nodes (fibers p) \<Longrightarrow> fkey s' f = fkey s f"
  shows "abs_process K s' p = abs_process K s p"
proof -
  have "fiber_of K s' p = fiber_of K s p"
    using ok(2) F by (auto simp: fun_eq_iff fiber_of_def fibers_ok_def intro: table_find_cong)
  then show ?thesis
    using abs_running_frame [OF ok(1) refl T F] by (simp add: abs_process_def)
qed

text \<open>Two states that agree on the objects of a process give it the same abstraction.\<close>

lemma abs_process_same_heap:
  assumes inv: "kinv K s" and b: "b \<in> nodes (processes s)" "live_process s b = Some q"
    and h: "\<And>x. owner s x = Some b \<Longrightarrow> heap s' x = heap s x"
  shows "live_process s' b = Some q" "abs_process K s' q = abs_process K s q"
proof -
  have ok: "threads_ok K s b q" "fibers_ok K s b q" using inv_process [OF inv b(1)] b(2) by auto
  show "live_process s' b = Some q"
    using h [OF owner_live(1) [OF b(2)]] b(2) by (simp add: live_process_def)
  show "abs_process K s' q = abs_process K s q"
  proof (rule abs_process_frame [OF ok])
    show "live_thread s' t = live_thread s t" if t: "t \<in> nodes (threads q)" for t
      using threads_okD [OF ok(1) t] thread_links(1) [OF ok(1) t] h by (metis live_thread_def)
    show "fkey s' f = fkey s f" if f: "f \<in> nodes (fibers q)" for f
      using fibers_okD [OF ok(2) f] fiber_links(1) [OF ok(2) f] h by (metis fkey_def live_fiber_def)
  qed
qed

lemma abs_update:
  assumes inv: "kinv K s" and procs: "processes s' = processes s"
    and a: "a \<in> nodes (processes s)" "live_process s a = Some p"
    and p': "live_process s' a = Some p'" "process_id p' = process_id p"
    and frame: "\<And>x b. owner s x = Some b \<Longrightarrow> b \<noteq> a \<Longrightarrow> heap s' x = heap s x"
  shows "abs_state K s' = (abs_state K s)(process_id p \<mapsto> abs_process K s' p')"
proof
  fix tgid
  have tab: "table_ok (hash_min K) (pkey s) (processes s)" using inv by (simp add: kinv_def)
  have keep: "live_process s' b = Some q" "abs_process K s' q = abs_process K s q"
    if "b \<in> nodes (processes s)" "b \<noteq> a" "live_process s b = Some q" for b q
    using abs_process_same_heap [OF inv that(1,3), of s'] frame that(2) by blast+
  have other: "live_process s' b = live_process s b" if "b \<in> nodes (processes s)" "b \<noteq> a" for b
    using keep(1) [OF that] inv_process [OF inv that(1)] by metis
  then have "proc_of K s' = proc_of K s"
    unfolding proc_of_def procs
    by (intro ext table_find_cong [OF tab]) (metis a(2) p' pkey_def option.map(2))
  moreover have "proc_of K s tgid = Some a \<longleftrightarrow> tgid = process_id p"
    using a by (auto simp: proc_of_Some [OF inv])
  moreover have "b \<in> nodes (processes s) \<and> (\<exists>q. live_process s b = Some q)" if "proc_of K s tgid = Some b" for b
    using that by (auto simp: proc_of_Some [OF inv])
  ultimately show "abs_state K s' tgid = ((abs_state K s)(process_id p \<mapsto> abs_process K s' p')) tgid"
    using p'(1) keep by (cases "tgid = process_id p"; cases "proc_of K s tgid") (fastforce simp: abs_state_def)+
qed

lemma abs_views:
  assumes "processes s' = processes s" "live_process s' = live_process s" "live_thread s' = live_thread s" "fkey s' = fkey s"
  shows "abs_state K s' = abs_state K s"
  unfolding abs_state_def [abs_def] abs_process_def proc_of_def thread_of_def fiber_of_def
    pkey_def [abs_def] tkey_def [abs_def] assms ..

lemma abs_fiber_frame:
  assumes f: "live_fiber s f = Some fb" and g: "fiber_frame g"
  shows "abs_state K (store s f (OFiber (g fb))) = abs_state K s"
proof (rule abs_views)
  show "fkey (store s f (OFiber (g fb))) = fkey s"
    using f g by (auto simp: fun_eq_iff fkey_def live_simps fiber_frame_def)
qed (use live_store_fiber [OF f] in simp_all)

section \<open>Switching\<close>

lemma fiber_of_key: "fiber_of K s p fid = Some f \<Longrightarrow> fibers_ok K s a p \<Longrightarrow> fkey s f = Some fid"
  by (auto simp: fiber_of_Some fkey_def)

lemma abs_attached:
  assumes ok: "threads_ok K s a p" "fibers_ok K s a p" and f: "fiber_of K s p fid = Some f" "live_fiber s f = Some fb"
  shows "fid \<in> ran (a_running (abs_process K s p)) \<longleftrightarrow> attached_thread fb \<noteq> NULL"
proof
  have fn: "f \<in> nodes (fibers p)" using f(1) by (simp add: fiber_of_Some [OF ok(2)])
  show "attached_thread fb \<noteq> NULL" if r: "fid \<in> ran (a_running (abs_process K s p))"
  proof -
    obtain tid where "a_running (abs_process K s p) tid = Some fid" using r by (auto simp: ran_def)
    then obtain t th f' where t: "t \<in> nodes (threads p)" "live_thread s t = Some th"
        "selected_fiber th = Some f'" "fkey s f' = Some fid"
      by (auto simp: abs_running [OF ok(1)])
    obtain fb' where "f' \<in> nodes (fibers p)" "live_fiber s f' = Some fb'" "attached_thread fb' = Some t"
      using thread_links(3) [OF ok(1) t(1,2)] t(3) by auto
    moreover have "f' = f"
      using t(4) calculation(1) fn fiber_of_key [OF f(1) ok(2)] ok(2) by (auto simp: fibers_ok_def dest: table_ok_inj)
    ultimately show ?thesis using f(2) by simp
  qed
  show "fid \<in> ran (a_running (abs_process K s p))" if att: "attached_thread fb \<noteq> NULL"
  proof -
    obtain t where t: "attached_thread fb = Some t" using att by auto
    then obtain th where "t \<in> nodes (threads p)" "live_thread s t = Some th" "selected_fiber th = Some f"
      using fiber_links(3) [OF ok(2) fn f(2)] by auto
    then have "a_running (abs_process K s p) (thread_id th) = Some fid"
      using fiber_of_key [OF f(1) ok(2)] by (auto simp: abs_running [OF ok(1)])
    then show ?thesis by (auto simp: ran_def)
  qed
qed

lemma abs_switched:
  assumes inv: "kinv K s" and c: "caller K s me tid = Some (a, p, t)"
    and f: "fiber_of K s p fid = Some f" "live_fiber s f = Some fb" "attached_thread fb = NULL"
    and th: "live_thread s t = Some th" "selected_fiber th = Some g" "live_fiber s g = Some gb"
  defines "P \<equiv> abs_process K s p"
  shows "abs_state K (switched_state me cur t th g gb f fb s) =
    (abs_state K s)(process_id p \<mapsto> P\<lparr>a_running := (a_running P)(tid \<mapsto> fid)\<rparr>)"
proof -
  let ?s = "switched_state me cur t th g gb f fb s"
  note cd = callerD [OF inv c]
  have gn: "g \<in> nodes (fibers p)" "attached_thread gb = Some t" using thread_links(3) [OF cd(3,5) th(1)] th by auto
  then have fg: "f \<noteq> g" using f th(3) by auto
  have fn: "f \<in> nodes (fibers p)" using f(1) by (simp add: fiber_of_Some [OF cd(4)])
  note v = switched_views [OF th(1) f(2) th(3) fg, of me cur]
  have same: "live_thread ?s x = live_thread s x" if "x \<noteq> t" for x
    using that f(2) th(3) by (auto simp: switched_state_def live_thread_def heap_live)
  have tof: "thread_of K ?s p = thread_of K s p" using v(2) by (simp add: thread_of_def)
  have "a_running (abs_process K ?s p) x = ((a_running P)(tid \<mapsto> fid)) x" for x
  proof (cases "thread_of K s p x")
    case None
    then show ?thesis using cd(6) tof by (auto simp: abs_process_def P_def)
  next
    case (Some t')
    have "t' = t \<Longrightarrow> x = tid" using Some cd(8) by (auto simp: thread_of_Some [OF cd(3)])
    moreover have "x = tid \<Longrightarrow> t' = t" using Some cd(6) by simp
    ultimately have "t' = t \<longleftrightarrow> x = tid" by blast
    then show ?thesis
      using Some tof same [of t'] v(3,4) fiber_of_key [OF f(1) cd(4)]
      by (cases "x = tid") (simp_all add: abs_process_def P_def)
  qed
  then have "a_running (abs_process K ?s p) = (a_running P)(tid \<mapsto> fid)" by (rule ext)
  moreover have "a_fibers (abs_process K ?s p) = a_fibers P" by (simp add: abs_process_def P_def fiber_of_frame [OF v(3)])
  ultimately have new: "abs_process K ?s p = P\<lparr>a_running := (a_running P)(tid \<mapsto> fid)\<rparr>" by simp
  have own: "owner s f = Some a" "owner s t = Some a" "owner s g = Some a"
    using fiber_links(1) [OF cd(4) fn f(2)] thread_links(1) [OF cd(3,5) th(1)] fiber_links(1) [OF cd(4) gn(1) th(3)] .
  show ?thesis
    unfolding new [symmetric]
  proof (rule abs_update [OF inv v(8) cd(1,2)])
    show "live_process ?s a = Some p" using v(1) cd(2) by simp
    show "heap ?s x = heap s x" if "owner s x = Some b" "b \<noteq> a" for x b
      using that own by (auto simp: switched_state_def)
  qed simp
qed

lemma switch_refines:
  assumes inv: "kinv K s" and cur: "tasks s me = Some cur"
  shows "\<exists>s'. do_SwitchToFiber K me fid tid s =
      Some (if fst (a_switch_to (task_tgid cur) tid fid (abs_state K s)) then 0 else -1, s') \<and>
    abs_state K s' = snd (a_switch_to (task_tgid cur) tid fid (abs_state K s))"
  using inv cur
proof (cases rule: switch_cases [where tid = tid and fid = fid])
  case no_caller
  then show ?thesis
    using switch_no_caller [OF inv cur] abs_caller [OF inv cur, of tid]
    by (auto simp: a_switch_to_def split: option.split)
next
  case (no_fiber a p t)
  then show ?thesis
    using switch_no_fiber [OF inv no_fiber] abs_caller_state [OF inv no_fiber(1) cur]
    by (simp add: a_switch_to_def abs_process_def)
next
  case (busy a p t f fb)
  note cd = callerD [OF inv busy(1)]
  show ?thesis
    using switch_busy [OF inv busy(1-4)] abs_attached [OF cd(3,4) busy(2,3)] busy(4)
      abs_caller_state [OF inv busy(1) cur] abs_fiber_frame [OF busy(3) fiber_frame_refused]
    by (simp add: a_switch_to_def)
next
  case (free a p t f fb th g gb)
  note cd = callerD [OF inv free(1)]
  have "fid \<in> a_fibers (abs_process K s p)" using free(2) by (simp add: abs_process_def)
  then show ?thesis
    using switch_free [OF inv free(1-4) cur free(6-8)] abs_attached [OF cd(3,4) free(2,3)] free(4)
      abs_caller_state [OF inv free(1) cur] abs_switched [OF inv free(1-4,6-8)] abs_thread [OF inv free(1,6-8)]
    by (simp add: a_switch_to_def)
qed

section \<open>Creating and converting\<close>

lemma next_fid_new:
  assumes ok: "fibers_ok K s a p" and bound: "unat (last_fiber_id p) + 1 < 2 ^ 31"
  shows "next_fid p \<notin> a_fibers (abs_process K s p)"
proof
  assume "next_fid p \<in> a_fibers (abs_process K s p)"
  then obtain f fb where f: "f \<in> nodes (fibers p)" "live_fiber s f = Some fb" "fiber_id fb = next_fid p"
    by (auto simp: abs_fibers [OF ok] fkey_def)
  have "unat (next_fid p) = unat (last_fiber_id p) + 1"
    using bound unat_Suc_word [of "last_fiber_id p"] unat_ucast_small [of "last_fiber_id p + 1", where 'b = 32]
    by (simp add: next_fid_def)
  moreover have "unat (fiber_id fb) \<le> unat (last_fiber_id p)"
    using fiber_links(2) [OF ok f(1,2)] by (simp add: fiber_ok_def)
  ultimately show False using f(3) by simp
qed

lemma not_live_owner: "\<not> is_live s x \<Longrightarrow> owner s x = None"
  by (auto simp: owner_def is_live_def split: option.split cell.split kobj.split)

lemma abs_created:
  assumes inv: "kinv K s" and inv': "kinv K s'" and a: "a \<in> nodes (processes s)" "live_process s a = Some p"
    and new: "\<not> is_live s f" and fid: "fiber_id fb = next_fid p"
    and s': "s' = store (store (alloc_step s) a (OProcess (add_fiber K p f))) f (OFiber fb)"
  defines "P \<equiv> abs_process K s p"
  shows "abs_state K s' = (abs_state K s)(process_id p \<mapsto> P\<lparr>a_fibers := insert (next_fid p) (a_fibers P)\<rparr>)"
proof -
  have ok: "threads_ok K s a p" "fibers_ok K s a p" using inv_process [OF inv a(1)] a(2) by auto
  note apart = nodes_apart [OF a(2) ok] and new' = nodes_apart(4) [OF a(2) ok new]
  have fa: "a \<noteq> f" using new' by auto
  have p': "live_process s' a = Some (add_fiber K p f)" using fa by (simp add: s' live_simps)
  have ok': "fibers_ok K s' a (add_fiber K p f)"
    using inv_process [OF inv', of a] a(1) p' by (auto simp: s')
  have T: "live_thread s' t = live_thread s t" if "t \<in> nodes (threads p)" for t
    using that new' apart(1) by (auto simp: s' live_simps)
  have F: "fkey s' x = fkey s x" if "x \<in> nodes (fibers p)" for x
    using that new' apart(2) by (auto simp: s' live_simps fkey_def)
  have "fkey s' f = Some (next_fid p)" using fid by (simp add: s' live_simps fkey_def)
  then have "a_fibers (abs_process K s' (add_fiber K p f)) = insert (next_fid p) (a_fibers P)"
    using F by (auto simp: set_eq_iff abs_fibers [OF ok'] abs_fibers [OF ok(2)] P_def) (auto simp: add_fiber_def)
  moreover have "a_running (abs_process K s' (add_fiber K p f)) = a_running P"
    unfolding P_def by (rule abs_running_frame [OF ok(1) _ T F]) (simp add: add_fiber_def)
  ultimately have n: "abs_process K s' (add_fiber K p f) = P\<lparr>a_fibers := insert (next_fid p) (a_fibers P)\<rparr>" by simp
  show ?thesis
    unfolding n [symmetric]
  proof (rule abs_update [OF inv _ a p'])
    show "heap s' x = heap s x" if "owner s x = Some b" "b \<noteq> a" for x b
      using that not_live_owner [OF new] owner_live(1) [OF a(2)] by (auto simp: s')
  qed (simp_all add: s' add_fiber_def)
qed

text \<open>Which fiber a thread runs, when the thread and the numbers of the fibers stay.\<close>

lemma selects_frame:
  assumes ok: "threads_ok K s a p" and t: "t \<in> nodes (threads p)" and T: "live_thread s' t = live_thread s t"
    and F: "\<And>f. f \<in> nodes (fibers p) \<Longrightarrow> fkey s' f = fkey s f"
  shows "(\<exists>th f. live_thread s' t = Some th \<and> thread_id th = x \<and> selected_fiber th = Some f \<and> fkey s' f = Some y) \<longleftrightarrow>
    (\<exists>th f. live_thread s t = Some th \<and> thread_id th = x \<and> selected_fiber th = Some f \<and> fkey s f = Some y)"
proof -
  obtain th f where "live_thread s t = Some th" "selected_fiber th = Some f" "f \<in> nodes (fibers p)"
    using threads_okD [OF ok t] by metis
  then show ?thesis using T F by simp
qed

lemma thread_id_inj:
  assumes "threads_ok K s a p" "t \<in> nodes (threads p)" "live_thread s t = Some th"
    and "t' \<in> nodes (threads p)" "live_thread s t' = Some th'" "thread_id th' = thread_id th"
  shows "t' = t"
  using assms by (auto simp: threads_ok_def tkey_def intro: table_ok_inj)

lemma abs_converted:
  assumes inv: "kinv K s" and K: "kapi_ok K" and a: "a \<in> nodes (processes s)" "live_process s a = Some p"
    and bound: "unat (last_fiber_id p) + 1 < 2 ^ 31" and t: "thread_of K s p tid = None"
    and new: "\<not> is_live s t" "\<not> is_live s f" "t \<noteq> f"
  defines "P \<equiv> abs_process K s p"
  shows "abs_state K (converted_state K cur a p t f tid s) = (abs_state K s)(process_id p \<mapsto>
    \<lparr>a_fibers = insert (next_fid p) (a_fibers P), a_running = (a_running P)(tid \<mapsto> next_fid p)\<rparr>)"
proof -
  let ?s = "converted_state K cur a p t f tid s" and ?p = "add_fiber K (add_thread K p t tid) f"
  have ok: "threads_ok K s a p" "fibers_ok K s a p" using inv_process [OF inv a(1)] a(2) by auto
  note apart = nodes_apart [OF a(2) ok] and new' = nodes_apart(4) [OF a(2) ok new(1)] nodes_apart(4) [OF a(2) ok new(2)]
  have h: "heap ?s = (heap s)(a \<mapsto> Live (OProcess ?p),
      t \<mapsto> Live (OThread \<lparr>thread_id = tid, parent = Some a, selected_fiber = Some f\<rparr>),
      f \<mapsto> Live (OFiber (converted_fiber cur a (next_fid p) t)))"
    by (simp add: converted_state_def)
  have procs: "processes ?s = processes s" by (simp add: converted_state_def)
  have p': "live_process ?s a = Some ?p" using new' by (auto simp: heap_live h)
  have inv': "kinv K ?s" by (rule converted_state_inv [OF inv K a bound t new])
  have ok': "threads_ok K ?s a ?p" "fibers_ok K ?s a ?p"
    using inv_process [OF inv', of a] a(1) p' procs by auto
  have T: "live_thread ?s x = live_thread s x" if "x \<in> nodes (threads p)" for x
    using that new' apart(1) by (auto simp: live_thread_def h)
  have F: "fkey ?s x = fkey s x" if "x \<in> nodes (fibers p)" for x
    using that new' apart(2) by (auto simp: live_fiber_def fkey_def h)
  have tt: "live_thread ?s t = Some \<lparr>thread_id = tid, parent = Some a, selected_fiber = Some f\<rparr>"
    using new(3) by (simp add: heap_live h)
  have ff: "fkey ?s f = Some (next_fid p)" by (simp add: fkey_def live_fiber_def h)
  have nodes': "nodes (threads ?p) = insert t (nodes (threads p))" "nodes (fibers ?p) = insert f (nodes (fibers p))"
    by (simp_all add: add_fiber_def add_thread_def)
  have fibs: "a_fibers (abs_process K ?s ?p) = insert (next_fid p) (a_fibers P)"
    using F ff by (auto simp: set_eq_iff abs_fibers [OF ok'(2)] abs_fibers [OF ok(2)] P_def nodes')
  have run: "a_running (abs_process K ?s ?p) x = Some y \<longleftrightarrow> ((a_running P)(tid \<mapsto> next_fid p)) x = Some y" for x y
  proof -
    have none: "a_running P tid = None" using t by (simp add: P_def abs_process_def)
    have "a_running (abs_process K ?s ?p) x = Some y \<longleftrightarrow> x = tid \<and> y = next_fid p \<or> a_running P x = Some y"
      unfolding P_def abs_running [OF ok'(1)] nodes' bex_simps abs_running [OF ok(1)]
      using selects_frame [OF ok(1) _ T F, of _ x y] tt ff by auto
    then show ?thesis using none by auto
  qed
  have "a_running (abs_process K ?s ?p) = (a_running P)(tid \<mapsto> next_fid p)"
    by (rule ext) (metis run not_None_eq)
  then have n: "abs_process K ?s ?p = \<lparr>a_fibers = insert (next_fid p) (a_fibers P),
      a_running = (a_running P)(tid \<mapsto> next_fid p)\<rparr>" using fibs by simp
  show ?thesis
    unfolding n [symmetric]
  proof (rule abs_update [OF inv procs a p'])
    show "heap ?s x = heap s x" if "owner s x = Some b" "b \<noteq> a" for x b
      using that not_live_owner new owner_live(1) [OF a(2)] by (auto simp: h)
  qed (simp add: add_fiber_def add_thread_def)
qed

lemma thread_of_new_process: "thread_of K s (new_process cur) tid = None"
  by (simp add: new_process_def thread_of_def table_find_def hash_init_def)

lemma abs_new_process: "abs_process K s (new_process cur) = \<lparr>a_fibers = {}, a_running = Map.empty\<rparr>"
  by (simp add: abs_process_def thread_of_new_process) (simp add: new_process_def fiber_of_def table_find_def hash_init_def)

lemma abs_registered:
  assumes inv: "kinv K s" and K: "kapi_ok K" and np: "proc_of K s (task_tgid cur) = None" and new: "\<not> is_live s a"
  shows "abs_state K (registered_state K cur a s) =
    (abs_state K s)(task_tgid cur \<mapsto> \<lparr>a_fibers = {}, a_running = Map.empty\<rparr>)"
proof
  fix tgid
  let ?s = "registered_state K cur a s"
  note reg = registered_state_inv [OF inv K np new]
  have procs: "nodes (processes ?s) = insert a (nodes (processes s))" by (simp add: registered_state_def)
  have keep: "live_process ?s b = Some q" "abs_process K ?s q = abs_process K s q"
    if "b \<in> nodes (processes s)" "live_process s b = Some q" for b q
  proof -
    have "heap ?s x = heap s x" if "owner s x = Some b" for x
      using that not_live_owner [OF new] by (auto simp: registered_state_def)
    then show "live_process ?s b = Some q" "abs_process K ?s q = abs_process K s q"
      using abs_process_same_heap [OF inv that] by blast+
  qed
  show "abs_state K ?s tgid = ((abs_state K s)(task_tgid cur \<mapsto> \<lparr>a_fibers = {}, a_running = Map.empty\<rparr>)) tgid"
  proof (cases "tgid = task_tgid cur")
    case True
    have "proc_of K ?s (task_tgid cur) = Some a"
      using reg(2,3) by (simp add: proc_of_Some [OF reg(1)] new_process_def)
    then show ?thesis using True reg(3) by (simp add: abs_state_def abs_new_process)
  next
    case False
    show ?thesis
    proof (cases "proc_of K s tgid")
      case None
      have "proc_of K ?s tgid = None"
      proof (rule ccontr)
        assume "proc_of K ?s tgid \<noteq> None"
        then obtain b q where b: "b \<in> nodes (processes ?s)" "live_process ?s b = Some q" "process_id q = tgid"
          by (auto simp: proc_of_Some [OF reg(1)])
        then have "b \<noteq> a" using reg(3) False by (auto simp: new_process_def)
        then have "b \<in> nodes (processes s)" "live_process s b = Some q"
          using b procs by (auto simp: registered_state_def live_process_def)
        then have "proc_of K s tgid = Some b" using b(3) by (auto simp: proc_of_Some [OF inv])
        then show False using None by simp
      qed
      then show ?thesis using None False by (simp add: abs_state_def)
    next
      case (Some b)
      then obtain q where q: "b \<in> nodes (processes s)" "live_process s b = Some q" "process_id q = tgid"
        by (auto simp: proc_of_Some [OF inv])
      then have "proc_of K ?s tgid = Some b"
        using keep(1) procs by (auto simp: proc_of_Some [OF reg(1)])
      then show ?thesis using q keep Some False by (simp add: abs_state_def)
    qed
  qed
qed

section \<open>Leaving\<close>

lemma abs_torn_down:
  assumes inv: "kinv K s" and a: "a \<in> nodes (processes s)" "live_process s a = Some p" and td: "torn_down s a s'"
  shows "abs_state K s' = (abs_state K s)(process_id p := None)"
proof
  fix tgid
  note inv' = torn_down_inv [OF inv a(1) td]
  have pa: "proc_of K s (process_id p) = Some a" using a by (auto simp: proc_of_Some [OF inv])
  have procs: "nodes (processes s') = nodes (processes s) - {a}" using td by (simp add: torn_down_def)
  have keep: "live_process s' b = Some q" "abs_process K s' q = abs_process K s q"
    if "b \<in> nodes (processes s)" "b \<noteq> a" "live_process s b = Some q" for b q
  proof -
    have "heap s' x = heap s x" if "owner s x = Some b" for x
    proof -
      have "x \<notin> owned s a" using owned_owner [of K s a x] inv a(1) that \<open>b \<noteq> a\<close> by (auto simp: kinv_def)
      then show ?thesis using td by (simp add: torn_down_def)
    qed
    then show "live_process s' b = Some q" "abs_process K s' q = abs_process K s q"
      using abs_process_same_heap [OF inv that(1,3)] by blast+
  qed
  show "abs_state K s' tgid = ((abs_state K s)(process_id p := None)) tgid"
  proof (cases "tgid = process_id p")
    case True
    then show ?thesis using torn_down_proc_of [OF inv pa td] by (simp add: abs_state_def)
  next
    case False
    show ?thesis
    proof (cases "proc_of K s tgid")
      case None
      have "pkey s' b \<noteq> Some tgid" if "b \<in> nodes (processes s')" for b
      proof -
        have b: "b \<in> nodes (processes s)" "b \<noteq> a" using that procs by auto
        obtain q where "live_process s b = Some q" using inv_process [OF inv b(1)] by metis
        moreover have "pkey s b \<noteq> Some tgid" using None b(1) by (simp add: proc_of_None [OF inv])
        ultimately show ?thesis using keep(1) [OF b] by (simp add: pkey_def)
      qed
      then have "proc_of K s' tgid = None" by (simp add: proc_of_None [OF inv'])
      then show ?thesis using None False by (simp add: abs_state_def)
    next
      case (Some b)
      then obtain q where q: "b \<in> nodes (processes s)" "live_process s b = Some q" "process_id q = tgid"
        by (auto simp: proc_of_Some [OF inv])
      have "b \<noteq> a" using q a False by auto
      then have "proc_of K s' tgid = Some b"
        using q keep(1) procs by (auto simp: proc_of_Some [OF inv'])
      then show ?thesis using q keep [OF q(1) \<open>b \<noteq> a\<close> q(2)] Some False by (simp add: abs_state_def)
    qed
  qed
qed

lemma other_thread:
  assumes ok: "threads_ok K s a p" and t: "t \<in> nodes (threads p)" "live_thread s t = Some th" and n: "active_threads p \<noteq> 1"
  shows "dom (a_running (abs_process K s p)) \<noteq> {thread_id th}"
proof -
  have "card (nodes (threads p)) \<noteq> 1" using ok n by (auto simp: threads_ok_def word_unat_eq_iff)
  then have "nodes (threads p) \<noteq> {t}" by auto
  then obtain t' where t': "t' \<in> nodes (threads p)" "t' \<noteq> t" using t(1) by blast
  obtain th' f fb where th': "live_thread s t' = Some th'" "selected_fiber th' = Some f" "live_fiber s f = Some fb"
    using threads_okD [OF ok t'(1)] by metis
  then have "a_running (abs_process K s p) (thread_id th') = Some (fiber_id fb)"
    using t'(1) by (auto simp: abs_running [OF ok] fkey_def)
  moreover have "thread_id th' \<noteq> thread_id th"
    using thread_id_inj [OF ok t t'(1) th'(1)] t'(2) by blast
  ultimately show ?thesis by blast
qed

lemma abs_exited:
  assumes inv: "kinv K s" and K: "kapi_ok K" and c: "caller K s me tid = Some (a, p, t)"
    and th: "live_thread s t = Some th" "selected_fiber th = Some g" "live_fiber s g = Some gb"
  defines "P \<equiv> abs_process K s p"
  shows "abs_state K (exited_state cur a p t th g gb s) =
    (abs_state K s)(process_id p \<mapsto> P\<lparr>a_running := (a_running P)(tid := None)\<rparr>)"
proof -
  let ?s = "exited_state cur a p t th g gb s" and ?p = "less_thread p t"
  note cd = callerD [OF inv c] and inv' = exited_state_inv [OF inv K c th, of cur]
  have gn: "g \<in> nodes (fibers p)" using thread_links(3) [OF cd(3,5) th(1)] th(2) by auto
  have ne: "a \<noteq> t" "a \<noteq> g" "t \<noteq> g" using live_types_differ cd(2) th by blast+
  have h: "heap ?s = (heap s)(a \<mapsto> Live (OProcess ?p), g \<mapsto> Live (OFiber (left_fiber cur gb)), t \<mapsto> Freed (OThread th))"
    by (simp add: exited_state_def)
  have procs: "processes ?s = processes s" by (simp add: exited_state_def)
  have p': "live_process ?s a = Some ?p" using ne by (simp add: heap_live h)
  have ok': "threads_ok K ?s a ?p" "fibers_ok K ?s a ?p"
    using inv_process [OF inv', of a] cd(1) p' procs by auto
  note apart = nodes_apart [OF cd(2,3,4)]
  have T: "live_thread ?s x = live_thread s x" if "x \<in> nodes (threads p)" "x \<noteq> t" for x
    using that apart(1) apart(3) [OF _ gn] by (auto simp: live_thread_def h)
  have F: "fkey ?s x = fkey s x" if "x \<in> nodes (fibers p)" for x
    using that apart(2) apart(3) [OF cd(5)] th(3) by (auto simp: live_fiber_def fkey_def heap_live h left_fiber_def)
  have nodes': "nodes (threads ?p) = nodes (threads p) - {t}" "nodes (fibers ?p) = nodes (fibers p)"
    by (simp_all add: less_thread_def)
  have fibs: "a_fibers (abs_process K ?s ?p) = a_fibers P"
    using F by (auto simp: set_eq_iff abs_fibers [OF ok'(2)] abs_fibers [OF cd(4)] P_def nodes')
  have run: "a_running (abs_process K ?s ?p) x = Some y \<longleftrightarrow> ((a_running P)(tid := None)) x = Some y" for x y
  proof -
    have id: "thread_id th = tid" using cd(8) th(1) by auto
    let ?Q = "\<lambda>s t'. \<exists>th f. live_thread s t' = Some th \<and> thread_id th = x \<and> selected_fiber th = Some f \<and> fkey s f = Some y"
    have "a_running (abs_process K ?s ?p) x = Some y \<longleftrightarrow> (\<exists>t' \<in> nodes (threads p) - {t}. ?Q s t')"
      unfolding abs_running [OF ok'(1)] nodes'
      using T by (intro bex_cong refl selects_frame [OF cd(3) _ _ F]) auto
    also have "\<dots> \<longleftrightarrow> x \<noteq> tid \<and> (\<exists>t' \<in> nodes (threads p). ?Q s t')"
      using thread_id_inj [OF cd(3,5) th(1)] id th(1) unfolding Bex_def by (auto 0 4)
    also have "\<dots> \<longleftrightarrow> ((a_running P)(tid := None)) x = Some y"
      unfolding P_def abs_running [OF cd(3), symmetric] by simp
    finally show ?thesis .
  qed
  have "a_running (abs_process K ?s ?p) = (a_running P)(tid := None)"
    by (rule ext) (metis run not_None_eq)
  then have n: "abs_process K ?s ?p = P\<lparr>a_running := (a_running P)(tid := None)\<rparr>" using fibs by simp
  have own: "owner s a = Some a" "owner s g = Some a" "owner s t = Some a"
    using owner_live(1) [OF cd(2)] fiber_links(1) [OF cd(4) gn th(3)] thread_links(1) [OF cd(3,5) th(1)] .
  show ?thesis
    unfolding n [symmetric]
  proof (rule abs_update [OF inv procs cd(1,2) p'])
    show "heap ?s x = heap s x" if "owner s x = Some b" "b \<noteq> a" for x b
      using that own by (auto simp: h)
  qed (simp add: less_thread_def)
qed

section \<open>The simulation\<close>

lemma proc_of_abs:
  assumes inv: "kinv K s" and a: "proc_of K s tgid = Some a"
  obtains p where "a \<in> nodes (processes s)" "live_process s a = Some p" "process_id p = tgid"
    "threads_ok K s a p" "fibers_ok K s a p" "abs_state K s tgid = Some (abs_process K s p)"
proof -
  obtain p where p: "a \<in> nodes (processes s)" "live_process s a = Some p" "process_id p = tgid"
    using a by (auto simp: proc_of_Some [OF inv])
  then show ?thesis using inv_process [OF inv p(1)] a that [OF p] by (auto simp: abs_state_def)
qed

lemma convert_thread_refines:
  assumes inv: "kinv K s" and K: "kapi_ok K" and a: "a \<in> nodes (processes s)" "live_process s a = Some p"
    and bound: "unat (last_fiber_id p) + 1 < 2 ^ 31" and new: "thread_of K s p tid = None"
    and cur: "tasks s me = Some cur" and res: "convert_thread K me a tid s = Some (r, s')"
  shows "r = next_fid p" "abs_state K s' = (abs_state K s)(process_id p \<mapsto>
      \<lparr>a_fibers = insert r (a_fibers (abs_process K s p)), a_running = (a_running (abs_process K s p))(tid \<mapsto> r)\<rparr>)"
proof -
  have ok: "threads_ok K s a p" using inv_process [OF inv a(1)] a(2) by auto
  obtain t f where tf: "two_blocks K s = Some (t, f)" and r: "r = next_fid p" and s': "s' = converted_state K cur a p t f tid s"
    using res convert_thread_new [OF K ok a(2) cur new] by (auto split: option.splits)
  show "r = next_fid p" by (rule r)
  show "abs_state K s' = (abs_state K s)(process_id p \<mapsto>
      \<lparr>a_fibers = insert r (a_fibers (abs_process K s p)), a_running = (a_running (abs_process K s p))(tid \<mapsto> r)\<rparr>)"
    unfolding s' r by (rule abs_converted [OF inv K a bound new two_blocks_fresh [OF K tf]])
qed

lemma convert_refines:
  assumes inv: "kinv K s" and K: "kapi_ok K" and ids: "ids_left K me s" and cur: "tasks s me = Some cur"
    and res: "do_ConvertThreadToFiber K me tid s = Some (r, s')"
  shows "r = -1 \<and> s' = s \<and> (\<exists>P. abs_state K s (task_tgid cur) = Some P \<and> a_running P tid \<noteq> None) \<or>
    aspec (abs_state K s) (Convert (task_tgid cur) tid r) (abs_state K s')"
proof (cases "proc_of K s (task_tgid cur)")
  case None
  then obtain a where a: "kmalloc_at K (allocs s) (is_live s) = Some a"
    and res': "convert_thread K me a tid (registered_state K cur a s) = Some (r, s')"
    using res convert_unregistered [OF inv cur None] by (auto split: option.splits)
  note reg = registered_state_inv [OF inv K None kapi_ok_fresh [OF K a]]
  have "unat (last_fiber_id (new_process cur)) + 1 < 2 ^ 31" by (simp add: new_process_def)
  moreover have "tasks (registered_state K cur a s) me = Some cur" using cur by (simp add: registered_state_def)
  ultimately have "abs_state K s' = (abs_state K (registered_state K cur a s))(process_id (new_process cur) \<mapsto>
      \<lparr>a_fibers = {r}, a_running = [tid \<mapsto> r]\<rparr>)"
    using convert_thread_refines(2) [OF reg(1) K reg(2,3) _ thread_of_new_process _ res'] by (simp add: abs_new_process)
  then have "abs_state K s' = (abs_state K s)(task_tgid cur \<mapsto> \<lparr>a_fibers = {r}, a_running = [tid \<mapsto> r]\<rparr>)"
    using abs_registered [OF inv K None kapi_ok_fresh [OF K a]] by (simp add: new_process_def)
  moreover have "abs_state K s (task_tgid cur) = None" using None by (simp add: abs_state_def)
  ultimately show ?thesis using a_convert_first by metis
next
  case (Some a)
  obtain p where p: "a \<in> nodes (processes s)" "live_process s a = Some p" "process_id p = task_tgid cur"
      "threads_ok K s a p" "fibers_ok K s a p" "abs_state K s (task_tgid cur) = Some (abs_process K s p)"
    using proc_of_abs [OF inv Some] by metis
  have bound: "unat (last_fiber_id p) + 1 < 2 ^ 31" using ids cur Some p(2) by (simp add: ids_left_def)
  have res': "convert_thread K me a tid s = Some (r, s')" using res convert_registered [OF inv cur Some] by simp
  show ?thesis
  proof (cases "thread_of K s p tid")
    case None
    have "a_running (abs_process K s p) tid = None" using None by (simp add: abs_process_def)
    then show ?thesis
      using convert_thread_refines [OF inv K p(1,2) bound None cur res'] a_convert [of "abs_state K s" _ _ tid r]
        next_fid_new [OF p(5) bound] p(3,6) by simp
  next
    case t: (Some t)
    then have "caller K s me tid = Some (a, p, t)" using cur Some p(2) by (simp add: caller_def)
    then show ?thesis
      using convert_thread_again [OF p(4,2) cur t] res' abs_caller [OF inv cur, of tid] p(6) by auto
  qed
qed

lemma create_refines:
  assumes inv: "kinv K s" and K: "kapi_ok K" and ids: "ids_left K me s" and cur: "tasks s me = Some cur"
    and res: "do_CreateFiber K me ptr sz func par tid s = Some (r, s')"
  shows "r = -1 \<and> s' = s \<and> (\<forall>P. abs_state K s (task_tgid cur) = Some P \<longrightarrow> a_running P tid = None) \<or>
    aspec (abs_state K s) (Create (task_tgid cur) tid r) (abs_state K s')"
proof (cases "caller K s me tid")
  case None
  then have "do_CreateFiber K me ptr sz func par tid s = Some (-1, s)"
    using caller_None [OF inv cur None] create_unregistered [OF inv cur] create_not_converted [OF inv cur] by blast
  then show ?thesis using res None abs_caller [OF inv cur, of tid] by simp
next
  case (Some apt)
  then obtain a p t where c: "caller K s me tid = Some (a, p, t)" by (cases apt) auto
  note cd = callerD [OF inv c] and ab = abs_caller_state [OF inv c cur]
  have a: "proc_of K s (task_tgid cur) = Some a" using cd(7) cur by auto
  obtain f where f: "kmalloc_at K (allocs s) (is_live s) = Some f" and r: "r = next_fid p"
    and s': "s' = store (store (alloc_step s) a (OProcess (add_fiber K p f))) f (OFiber (created_fiber cur a ptr sz func par r))"
    using res create_converted [OF inv K cur a cd(2,6)] by (auto split: option.splits)
  have bound: "unat (last_fiber_id p) + 1 < 2 ^ 31" using ids cur a cd(2) by (simp add: ids_left_def)
  have "a_running (abs_process K s p) tid \<noteq> None" using abs_caller [OF inv cur, of tid] c ab(1) by auto
  then have "aspec (abs_state K s) (Create (task_tgid cur) tid r) ((abs_state K s)(task_tgid cur \<mapsto>
      (abs_process K s p)\<lparr>a_fibers := insert r (a_fibers (abs_process K s p))\<rparr>))"
    using a_create [of "abs_state K s"] ab(1) next_fid_new [OF cd(4) bound] r by simp
  then show ?thesis
    using abs_created [OF inv create_inv [OF inv K ids res] cd(1,2) kapi_ok_fresh [OF K f] _ s'] ab(2) r by simp
qed

lemma fls_refines:
  assumes inv: "kinv K s"
  shows "do_FlsAlloc K me tid s = Some (r, s') \<Longrightarrow> abs_state K s' = abs_state K s"
    "do_FlsFree K me index tid s = Some (b, s') \<Longrightarrow> abs_state K s' = abs_state K s"
    "do_FlsSetValue K me index v tid s = Some s' \<Longrightarrow> abs_state K s' = abs_state K s"
proof -
  have frame: "abs_state K (store s f (OFiber (g fb))) = abs_state K s" if "running K me tid s = Some (f, fb)" "fiber_frame g" for f fb g
    using abs_fiber_frame [OF _ that(2)] running_live [OF that(1)] by blast
  show "abs_state K s' = abs_state K s" if "do_FlsAlloc K me tid s = Some (r, s')"
    using fls_results(1) [OF inv that] frame by (auto simp: fls_touched_def)
  show "abs_state K s' = abs_state K s" if "do_FlsFree K me index tid s = Some (b, s')"
    using fls_results(2) [OF inv that] frame by (auto simp: fls_touched_def)
  show "abs_state K s' = abs_state K s" if "do_FlsSetValue K me index v tid s = Some s'"
    using fls_results(3) [OF inv that] frame by (auto simp: fls_touched_def)
qed

lemma timer_refines:
  assumes inv: "kinv K s" and res: "fiber_timer K me c s = Some (c', s')"
  shows "abs_state K s' = abs_state K s"
  using timer_results [OF inv res] abs_fiber_frame [OF _ fiber_frame_charged] by auto

text \<open>The event an exit or a close stands for.\<close>

definition exit_event :: "astate \<Rightarrow> pid_t \<Rightarrow> pid_t \<Rightarrow> aevent" where
  "exit_event A g t = (case A g of None \<Rightarrow> Skip
     | Some P \<Rightarrow> if a_running P t = None then Skip else if dom (a_running P) = {t} then End g else Leave g t)"

definition close_event :: "astate \<Rightarrow> pid_t \<Rightarrow> aevent" where
  "close_event A g = (if A g = None then Skip else End g)"

lemma only_thread:
  assumes ok: "threads_ok K s a p" and t: "t \<in> nodes (threads p)" "live_thread s t = Some th" and n: "active_threads p = 1"
  shows "dom (a_running (abs_process K s p)) = {thread_id th}"
proof -
  have "card (nodes (threads p)) = 1" using ok n by (simp add: threads_ok_def)
  then have ts: "nodes (threads p) = {t}" using t(1) by (auto simp: card_1_singleton_iff)
  obtain f fb where f: "selected_fiber th = Some f" "live_fiber s f = Some fb"
    using threads_okD [OF ok t(1)] t(2) by (metis option.inject)
  then have "a_running (abs_process K s p) (thread_id th) = Some (fiber_id fb)"
    using t by (auto simp: abs_running [OF ok] fkey_def)
  moreover have "tid = thread_id th" if "a_running (abs_process K s p) tid = Some fid" for tid fid
    using that t(2) by (auto simp: abs_running [OF ok] ts)
  ultimately show ?thesis by blast
qed

lemma exit_refines:
  assumes inv: "kinv K s" and K: "kapi_ok K" and cur: "tasks s me = Some cur" and res: "exit_cleanup K me s = Some s'"
  shows "aspec (abs_state K s) (exit_event (abs_state K s) (task_tgid cur) (task_pid cur)) (abs_state K s')"
  using inv K cur res
proof (cases rule: exit_cases)
  case stranger
  have "exit_event (abs_state K s) (task_tgid cur) (task_pid cur) = Skip"
    using abs_caller [OF inv cur, of "task_pid cur"] stranger(1) by (auto simp: exit_event_def split: option.split)
  then show ?thesis using a_skip stranger(2) by simp
next
  case (last a p t)
  note cd = callerD [OF inv last(1)] and ab = abs_caller_state [OF inv last(1) cur]
  have "abs_state K s' = (abs_state K s)(task_tgid cur := None)"
    using abs_torn_down [OF inv cd(1,2) last(3)] ab(2) by simp
  moreover have "dom (a_running (abs_process K s p)) = {task_pid cur}"
    using only_thread [OF cd(3,5) _ last(2)] cd(8) by metis
  ultimately show ?thesis using a_end [of "abs_state K s" "task_tgid cur"] ab(1) by (auto simp: exit_event_def)
next
  case (other a p t th g gb)
  note cd = callerD [OF inv other(1)] and ab = abs_caller_state [OF inv other(1) cur]
  have th: "thread_id th = task_pid cur" using cd(8) other(3) by auto
  then have d: "dom (a_running (abs_process K s p)) \<noteq> {task_pid cur}"
    using other_thread [OF cd(3,5) other(3,2)] by simp
  moreover have r: "a_running (abs_process K s p) (task_pid cur) \<noteq> None"
    using abs_thread [OF inv other(1,3-5)] by simp
  moreover have "abs_state K s' = (abs_state K s)(task_tgid cur \<mapsto>
      (abs_process K s p)\<lparr>a_running := (a_running (abs_process K s p))(task_pid cur := None)\<rparr>)"
    using abs_exited [OF inv K other(1,3-5), of cur] other(6) ab(2) th by simp
  ultimately have "aspec (abs_state K s) (Leave (task_tgid cur) (task_pid cur)) (abs_state K s')"
    using a_leave [of "abs_state K s"] ab(1) by simp
  then show ?thesis using ab(1) d r by (auto simp: exit_event_def)
qed

lemma cleanup_refines:
  assumes inv: "kinv K s" and K: "kapi_ok K" and cur: "tasks s me = Some cur" and res: "process_cleanup K me s = Some s'"
  shows "aspec (abs_state K s) (close_event (abs_state K s) (task_tgid cur)) (abs_state K s')"
proof (cases "proc_of K s (task_tgid cur)")
  case None
  then have "s' = s" using cleanup_unregistered [OF inv cur] res by simp
  then show ?thesis using a_skip None by (simp add: close_event_def abs_state_def)
next
  case (Some a)
  then obtain p where p: "a \<in> nodes (processes s)" "live_process s a = Some p" "process_id p = task_tgid cur"
      "abs_state K s (task_tgid cur) = Some (abs_process K s p)"
    using proc_of_abs [OF inv] by metis
  have "abs_state K s' = (abs_state K s)(task_tgid cur := None)"
    using abs_torn_down [OF inv p(1,2) cleanup_torn_down [OF inv K cur Some res]] p(3) by simp
  then show ?thesis using a_end [of "abs_state K s" "task_tgid cur"] p(4) by (simp add: close_event_def)
qed

text \<open>The abstract events a system call with the result \<open>r\<close> may stand for.\<close>

definition ioctl_events :: "long \<Rightarrow> task \<Rightarrow> 32 word \<Rightarrow> ulong \<Rightarrow> uspace \<Rightarrow> long \<Rightarrow> aevent set" where
  "ioctl_events major cur cmd arg u r =
     (let g = task_tgid cur; t = task_pid cur; failed = (if r = -1 then {Skip} else {})
      in case command major cmd of None \<Rightarrow> {Skip}
         | Some nr \<Rightarrow>
             if nr = 0 then insert (Convert g t (ucast r)) failed
             else (case get_arguments arg u of None \<Rightarrow> {Skip}
               | Some fa \<Rightarrow>
                   if nr = 1 then insert (Create g t (ucast r)) failed
                   else if nr = 2 then (if r = 0 then {Switch g t (fa_fiber_id fa)} else {Skip})
                   else {Skip}))"

lemma switch_event:
  assumes inv: "kinv K s" and cur: "tasks s me = Some cur" and res: "do_SwitchToFiber K me fid tid s = Some (r, s')"
  shows "aspec (abs_state K s) (if r = 0 then Switch (task_tgid cur) tid fid else Skip) (abs_state K s')"
  using switch_refines [OF inv cur, of fid tid] res a_switch_to_spec [of "abs_state K s" "task_tgid cur" tid fid]
  by (auto split: if_splits)

lemma ioctl_refines:
  assumes inv: "kinv K s" and K: "kapi_ok K" and ids: "ids_left K me s" and cur: "tasks s me = Some cur"
    and res: "fibers_ioctl K major me cmd arg u s = Some (r, u', s')"
  shows "\<exists>e \<in> ioctl_events major cur cmd arg u r. aspec (abs_state K s) e (abs_state K s')"
proof -
  note dispatch = res [unfolded ioctl_dispatch [OF cur]] and defs = ioctl_events_def Let_def
  consider "s' = s" "Skip \<in> ioctl_events major cur cmd arg u r"
    | "abs_state K s' = abs_state K s" "Skip \<in> ioctl_events major cur cmd arg u r"
    | (convert) q where "command major cmd = Some 0" "do_ConvertThreadToFiber K me (task_pid cur) s = Some (q, s')" "r = scast q"
    | (create) fa q where "command major cmd = Some 1" "get_arguments arg u = Some fa" "r = scast q"
        "do_CreateFiber K me (stack_pointer fa) (stack_size fa) (start_function_address fa) (start_function_arguments fa)
           (task_pid cur) s = Some (q, s')"
    | (switch) fa where "command major cmd = Some 2" "get_arguments arg u = Some fa"
        "do_SwitchToFiber K me (fa_fiber_id fa) (task_pid cur) s = Some (r, s')"
    using dispatch
    by (auto simp: defs bind_eq_Some_conv split: option.splits if_splits dest: fls_refines [OF inv])
  then show ?thesis
  proof cases
    case (convert q)
    then have "ucast r = q" using ucast_scast_int by simp
    then show ?thesis
      using convert(1,3) convert_refines [OF inv K ids cur convert(2)] a_skip [of "abs_state K s"] by (auto simp: defs)
  next
    case (create fa q)
    then have "ucast r = q" using ucast_scast_int by simp
    then show ?thesis
      using create(1-3) create_refines [OF inv K ids cur create(4)] a_skip [of "abs_state K s"] by (auto simp: defs)
  next
    case (switch fa)
    then show ?thesis using switch_event [OF inv cur switch(3)] by (auto simp: defs split: if_splits)
  qed (use a_skip [of "abs_state K s"] in auto)
qed

lemma abs_tasks [simp]: "abs_state K (s\<lparr>tasks := ts\<rparr>) = abs_state K s"
  by (rule abs_views) (simp_all add: fkey_def [abs_def])

lemma abs_alloc_step [simp]: "abs_state K (alloc_step s) = abs_state K s"
  by (rule abs_views) (simp_all add: fkey_def [abs_def])

lemma listing_refines:
  "proc_fiber_base_readdir K readdir tk ctx s = Some (r, ctx', s') \<Longrightarrow> abs_state K s' = abs_state K s"
  "proc_fiber_base_lookup K look tk s = Some (d, s') \<Longrightarrow> abs_state K s' = abs_state K s"
  by (auto simp: proc_fiber_base_readdir_def proc_fiber_base_lookup_def bind_eq_Some_conv Let_def
      split_beta dest!: base_stuff_state split: option.splits)

text \<open>The abstract events a step of the module may stand for: of an exit and of a close the one that
  the abstract state determines.\<close>

definition step_events :: "kapi \<Rightarrow> long \<Rightarrow> kstate \<Rightarrow> mlabel \<Rightarrow> aevent set" where
  "step_events K major s l = (case l of
       L_ioctl me cmd arg u r \<Rightarrow> (case tasks s me of None \<Rightarrow> {} | Some cur \<Rightarrow> ioctl_events major cur cmd arg u r)
     | L_exit me \<Rightarrow> (case tasks s me of None \<Rightarrow> {} | Some cur \<Rightarrow> {exit_event (abs_state K s) (task_tgid cur) (task_pid cur)})
     | L_close me \<Rightarrow> (case tasks s me of None \<Rightarrow> {} | Some cur \<Rightarrow> {close_event (abs_state K s) (task_tgid cur)})
     | L_other \<Rightarrow> {Skip})"

lemma step_refines:
  assumes inv: "kinv K s" and K: "kapi_ok K" and step: "mstep K major l s s'"
  shows "\<exists>e \<in> step_events K major s l. aspec (abs_state K s) e (abs_state K s')"
  using step
proof cases
  case (call_ioctl me cmd arg u r u')
  then obtain cur where "tasks s me = Some cur" by (auto simp: fibers_ioctl_def bind_eq_Some_conv)
  then show ?thesis using call_ioctl ioctl_refines [OF inv K] by (auto simp: step_events_def)
next
  case (task_exit me s2)
  then obtain cur where cur: "tasks s me = Some cur" by (auto simp: exit_cleanup_def bind_eq_Some_conv)
  show ?thesis using task_exit exit_refines [OF inv K cur task_exit(3)] cur by (simp add: step_events_def)
next
  case (close_device me refs r refs')
  then have res: "process_cleanup K me s = Some s'" by (auto simp: fiber_close_def bind_eq_Some_conv)
  then obtain cur where cur: "tasks s me = Some cur" by (auto simp: process_cleanup_def bind_eq_Some_conv)
  show ?thesis using close_device cleanup_refines [OF inv K cur res] cur by (simp add: step_events_def)
next
  case (task_switch me c c')
  then show ?thesis using timer_refines [OF inv task_switch(2)] a_skip by (simp add: step_events_def)
next
  case (list_fibers readdir tk pos r pos')
  then show ?thesis using listing_refines(1) [OF list_fibers(2)] a_skip by (simp add: step_events_def)
next
  case (lookup_fiber look tk d)
  then show ?thesis using listing_refines(2) [OF lookup_fiber(2)] a_skip by (simp add: step_events_def)
qed (auto simp: set_task_def step_events_def intro: a_skip)

end
