(* ===== verification/Fiber_Examples.thy ===== *)
theory Fiber_Examples
  imports Fiber_System
begin

text \<open>
  A concrete platform and a short run of the module on it, on which the properties
  of the development are exercised: a process 1 with the threads 1 and 2. Thread 1
  becomes the fiber 1 and creates the fiber 2, then thread 2 becomes the fiber 3.
\<close>

section \<open>The platform\<close>

definition K0 :: kapi where
  "K0 = \<lparr>hash_min = (\<lambda>k. unat k mod 1024),
     kmalloc_at = (\<lambda>n used. if used (Suc n) then None else Some (Suc n)), stale_reads = True\<rparr>"

text \<open>The same platform with poisoning of freed memory.\<close>

definition K0p :: kapi where
  "K0p = K0\<lparr>stale_reads := False\<rparr>"

lemma K0_ok [simp]: "kapi_ok K0" "kapi_ok K0p"
  by (simp_all add: kapi_ok_def K0_def K0p_def HASH_SIZE_def)

lemma K0_stale [simp]: "stale_reads K0" "\<not> stale_reads K0p"
  by (simp_all add: K0_def K0p_def)

section \<open>The run\<close>

definition task1 :: task where
  "task1 = \<lparr>task_pid = 1, task_tgid = 1, utime = 7,
     user_regs = \<lparr>sp = 4096, bp = 4100, ip = 100, di = 3, si = 0, other_regs = [11]\<rparr>, fx = [21]\<rparr>"

definition task2 :: task where
  "task2 = \<lparr>task_pid = 2, task_tgid = 1, utime = 9,
     user_regs = \<lparr>sp = 8192, bp = 8200, ip = 200, di = 4, si = 0, other_regs = [12]\<rparr>, fx = [22]\<rparr>"

definition ex0 :: kstate where
  "ex0 = \<lparr>heap = Map.empty, processes = hash_init, struct_process_lock = False, allocs = 0,
     slept_in_atomic = False, tasks = [1 \<mapsto> task1, 2 \<mapsto> task2]\<rparr>"

definition ex1 :: kstate where
  "ex1 = snd (the (do_ConvertThreadToFiber K0 1 1 ex0))"

definition ex2 :: kstate where
  "ex2 = snd (the (do_CreateFiber K0 1 65536 4096 555 77 1 ex1))"

definition ex3 :: kstate where
  "ex3 = snd (the (do_ConvertThreadToFiber K0 2 2 ex2))"

lemma ex1_returns: "map_option fst (do_ConvertThreadToFiber K0 1 1 ex0) = Some 1"
  by code_simp

lemma ex2_returns: "map_option fst (do_CreateFiber K0 1 65536 4096 555 77 1 ex1) = Some 2"
  by code_simp

lemma ex3_returns: "map_option fst (do_ConvertThreadToFiber K0 2 2 ex2) = Some 3"
  by code_simp

lemma ex_runs:
  "do_ConvertThreadToFiber K0 1 1 ex0 = Some (1, ex1)"
  "do_CreateFiber K0 1 65536 4096 555 77 1 ex1 = Some (2, ex2)"
  "do_ConvertThreadToFiber K0 2 2 ex2 = Some (3, ex3)"
  using ex1_returns ex2_returns ex3_returns by (auto simp: ex1_def ex2_def ex3_def)

lemma ex0_initial: "initial ex0"
  by (simp add: initial_def ex0_def)

lemma ex_ids: "ids_left K0 1 ex0" "ids_left K0 1 ex1" "ids_left K0 2 ex2" "ids_left K0 1 ex2" "ids_left K0 1 ex3"
  by code_simp+

lemma ex_inv [simp]: "kinv K0 ex0" "kinv K0 ex1" "kinv K0 ex2" "kinv K0 ex3"
proof -
  show 0: "kinv K0 ex0" by (rule initial_inv [OF ex0_initial])
  show 1: "kinv K0 ex1" by (rule convert_inv [OF 0 K0_ok(1) ex_ids(1) ex_runs(1)])
  show 2: "kinv K0 ex2" by (rule create_inv [OF 1 K0_ok(1) ex_ids(2) ex_runs(2)])
  show 3: "kinv K0 ex3" by (rule convert_inv [OF 2 K0_ok(1) ex_ids(3) ex_runs(3)])
qed

lemma ex_tasks [simp]: "tasks ex1 1 = Some task1" "tasks ex2 1 = Some task1" "tasks ex3 1 = Some task1"
    "tasks ex1 2 = Some task2" "tasks ex2 2 = Some task2" "tasks ex3 2 = Some task2"
    "tasks ex0 1 = Some task1" "tasks ex0 2 = Some task2"
  by code_simp+

end
