(* ===== verification/Fiber_Props.thy ===== *)
theory Fiber_Props
  imports Fiber_Spec Fiber_Examples
begin

text \<open>
  The properties of the fiber operations: switching, creating, converting, local
  storage and the end of threads and processes. Each is stated for an arbitrary
  platform and state that satisfies the invariant, and applied to the run of
  \<open>Fiber_Examples\<close>.
\<close>

section \<open>Preparation\<close>

lemma running_caller:
  assumes inv: "kinv K s" and r: "running K me tid s = Some (g, gb)"
  obtains a p t th where "caller K s me tid = Some (a, p, t)" "live_thread s t = Some th"
    "selected_fiber th = Some g" "live_fiber s g = Some gb" "attached_thread gb = Some t"
  using runningD [OF inv r] by metis

lemma ex2_thread1: "map_option (\<lambda>(f, fb). (f, fiber_id fb)) (running K0 1 1 ex2) = Some (3, 1)"
  by code_simp

lemma ex2_fiber2: "map_option (\<lambda>(f, fb). (f, fiber_id fb, attached_thread fb, ip (registers fb))) (fiber_named K0 ex2 1 2) =
    Some (4, 2, NULL, 555)"
  by code_simp

lemma ex3_thread1: "map_option (\<lambda>(f, fb). (f, fiber_id fb)) (running K0 1 1 ex3) = Some (3, 1)"
  by code_simp

lemma ex3_fiber3: "map_option (\<lambda>(f, fb). (f, fiber_id fb, attached_thread fb = NULL)) (fiber_named K0 ex3 1 3) =
    Some (6, 3, False)"
  by code_simp

section \<open>Switching\<close>

text \<open>\<^bold>\<open>C12\<close> (switch). A thread that asks for an unattached fiber of its process gets it: the
  call returns 0, the user registers and the FPU registers of the task become the
  ones saved in the fiber, the fiber is locked by and attached to the thread; the
  fiber it ran before holds the context the task had, and is free. Nothing but the
  two fibers, the thread and the task changes.\<close>

theorem switch_resumes:
  assumes inv: "kinv K s" and cur: "tasks s me = Some cur" and r: "running K me tid s = Some (g, gb)"
    and f: "fiber_named K s me fid = Some (f, fb)" "attached_thread fb = NULL"
  shows "\<exists>s' t. do_SwitchToFiber K me fid tid s = Some (0, s') \<and>
    tasks s' = (tasks s)(me \<mapsto> cur\<lparr>user_regs := registers fb, fx := fpu fb\<rparr>) \<and>
    running K me tid s' = Some (f, fb\<lparr>fiber_lock := True, attached_thread := Some t,
      activation_counter := activation_counter fb + 1\<rparr>) \<and>
    live_fiber s' g = Some (gb\<lparr>total_time := total_time gb + utime cur, registers := user_regs cur, fpu := fx cur,
      attached_thread := NULL, fiber_lock := False\<rparr>) \<and>
    attached_thread gb = Some t \<and> live_thread s' t = map_option (\<lambda>th. th\<lparr>selected_fiber := Some f\<rparr>) (live_thread s t) \<and>
    (\<forall>x. x \<notin> {f, g, t} \<longrightarrow> heap s' x = heap s x) \<and> processes s' = processes s \<and>
    struct_process_lock s' = struct_process_lock s \<and> kinv K s'"
proof -
  obtain a p t th where c: "caller K s me tid = Some (a, p, t)" "live_thread s t = Some th"
      "selected_fiber th = Some g" "live_fiber s g = Some gb" "attached_thread gb = Some t"
    using running_caller [OF inv r] by metis
  have ff: "fiber_of K s p fid = Some f" "live_fiber s f = Some fb"
    using f(1) by (simp_all add: fiber_named_caller [OF inv c(1)])
  let ?cur' = "cur\<lparr>user_regs := registers fb, fx := fpu fb\<rparr>" and ?s = "switched_state me cur t th g gb f fb s"
  note af = after_switch [OF inv c(1) cur c(2-4) ff f(2), of ?cur']
  have eq: "set_task ?s me ?cur' = ?s" by (simp add: set_task_def switched_state_def)
  have sw: "do_SwitchToFiber K me fid tid s = Some (0, ?s)"
    by (rule switch_free [OF inv c(1) ff f(2) cur c(2-4)])
  have "running K me tid ?s = Some (f, resumed_fiber t fb)"
    using af(2,4,5) unfolding eq by (simp add: running_def)
  moreover have "live_fiber ?s g = Some (suspended_fiber cur gb)" "kinv K ?s"
    using af(1,7) unfolding eq by simp_all
  moreover have "live_thread ?s t = Some (th\<lparr>selected_fiber := Some f\<rparr>)" using af(4) unfolding eq by simp
  moreover have "\<forall>x. x \<notin> {f, g, t} \<longrightarrow> heap ?s x = heap s x" by (auto simp: switched_state_def)
  ultimately show ?thesis
    using sw c(2,5) by (auto simp: resumed_fiber_def suspended_fiber_def switched_state_def)
qed

theorem switch_resumes_witness:
  "\<exists>s' f fb. fiber_named K0 ex2 1 2 = Some (f, fb) \<and> do_SwitchToFiber K0 1 2 1 ex2 = Some (0, s') \<and>
    tasks s' 1 = Some (task1\<lparr>user_regs := registers fb, fx := fpu fb\<rparr>) \<and> kinv K0 s'"
proof -
  obtain g gb where r: "running K0 1 1 ex2 = Some (g, gb)" using ex2_thread1 by auto
  obtain f fb where f: "fiber_named K0 ex2 1 2 = Some (f, fb)" "attached_thread fb = NULL" using ex2_fiber2 by auto
  show ?thesis using switch_resumes [OF ex_inv(3) ex_tasks(2) r f] f(1) by (elim exE conjE) (auto intro!: exI)
qed

text \<open>\<^bold>\<open>C13\<close> (round trip). A thread that switches to another fiber, runs there, and
  switches back continues with exactly the registers it had at the first call,
  and with its local storage; the other fiber keeps the context it was left with.\<close>

theorem switch_round_trip:
  assumes inv: "kinv K s" and cur: "tasks s me = Some cur" and r: "running K me tid s = Some (g, gb)"
    and f: "fiber_named K s me fid = Some (f, fb)" "attached_thread fb = NULL"
    and run: "task_pid cur2 = task_pid cur" "task_tgid cur2 = task_tgid cur"
  shows "\<exists>s1 s2 gb2 fb2. do_SwitchToFiber K me fid tid s = Some (0, s1) \<and>
    do_SwitchToFiber K me (fiber_id gb) tid (set_task s1 me cur2) = Some (0, s2) \<and>
    tasks s2 me = Some (cur2\<lparr>user_regs := user_regs cur, fx := fx cur\<rparr>) \<and>
    running K me tid s2 = Some (g, gb2) \<and> fls gb2 = fls gb \<and> fls_bitmap gb2 = fls_bitmap gb \<and>
    live_fiber s2 f = Some fb2 \<and> registers fb2 = user_regs cur2 \<and> fpu fb2 = fx cur2 \<and>
    attached_thread fb2 = NULL \<and> kinv K s2"
proof -
  obtain a p t th where c: "caller K s me tid = Some (a, p, t)" "live_thread s t = Some th"
      "selected_fiber th = Some g" "live_fiber s g = Some gb" "attached_thread gb = Some t"
    using running_caller [OF inv r] by metis
  have ff: "fiber_of K s p fid = Some f" "live_fiber s f = Some fb"
    using f(1) by (simp_all add: fiber_named_caller [OF inv c(1)])
  let ?s1 = "switched_state me cur t th g gb f fb s"
  have sw: "do_SwitchToFiber K me fid tid s = Some (0, ?s1)"
    by (rule switch_free [OF inv c(1) ff f(2) cur c(2-4)])
  note af = after_switch [OF inv c(1) cur c(2-4) ff f(2) run(2)]
  let ?s = "set_task ?s1 me cur2" and ?th = "th\<lparr>selected_fiber := Some f\<rparr>"
  let ?fb = "resumed_fiber t fb" and ?gb = "suspended_fiber cur gb"
  let ?s2 = "switched_state me cur2 t ?th f ?fb g ?gb ?s"
  have sel: "selected_fiber ?th = Some f" and att: "attached_thread ?gb = NULL" by (simp_all add: suspended_fiber_def)
  have sw2: "do_SwitchToFiber K me (fiber_id gb) tid ?s = Some (0, ?s2)"
    by (rule switch_free [OF af(1,2,6,7) att af(3,4) sel af(5)])
  let ?cur3 = "cur2\<lparr>user_regs := registers ?gb, fx := fpu ?gb\<rparr>"
  note af2 = after_switch [OF af(1,2,3,4) sel af(5,6,7) att, of ?cur3]
  have eq: "set_task ?s2 me ?cur3 = ?s2" by (simp add: set_task_def switched_state_def)
  have "running K me tid ?s2 = Some (g, resumed_fiber t ?gb)"
    using af2(2,4,5) unfolding eq by (simp add: running_def)
  moreover have "live_fiber ?s2 f = Some (suspended_fiber cur2 ?fb)" "kinv K ?s2" "tasks ?s2 me = Some ?cur3"
    using af2(1,3,7) unfolding eq by simp_all
  ultimately show ?thesis
    using sw sw2 by (intro exI [of _ ?s1] exI [of _ ?s2]) (simp add: resumed_fiber_def suspended_fiber_def)
qed

theorem switch_round_trip_witness:
  "\<exists>s1 s2. do_SwitchToFiber K0 1 2 1 ex2 = Some (0, s1) \<and>
    do_SwitchToFiber K0 1 1 1 (set_task s1 1 (task1\<lparr>user_regs := (user_regs task1)\<lparr>sp := 9\<rparr>\<rparr>)) = Some (0, s2) \<and>
    tasks s2 1 = Some task1"
proof -
  obtain g gb where r: "running K0 1 1 ex2 = Some (g, gb)" "fiber_id gb = 1" using ex2_thread1 by auto
  obtain f fb where f: "fiber_named K0 ex2 1 2 = Some (f, fb)" "attached_thread fb = NULL"
    using ex2_fiber2 by auto
  show ?thesis
    using switch_round_trip [OF ex_inv(3) _ r(1) f, of task1 "task1\<lparr>user_regs := (user_regs task1)\<lparr>sp := 9\<rparr>\<rparr>"] r(2)
    by (auto simp: task1_def)
qed

text \<open>\<^bold>\<open>C23\<close> (refusal). A fiber that is attached to a thread, be it the caller itself,
  cannot be switched to: the call returns -1 and does nothing but count the failed
  activation; the lock of the fiber stays as it was.\<close>

theorem switch_refused:
  assumes inv: "kinv K s" and r: "running K me tid s = Some (g, gb)"
    and f: "fiber_named K s me fid = Some (f, fb)" "attached_thread fb \<noteq> NULL"
  shows "do_SwitchToFiber K me fid tid s =
    Some (-1, store s f (OFiber (fb\<lparr>failed_activation_counter := failed_activation_counter fb + 1\<rparr>)))"
proof -
  obtain a p t where c: "caller K s me tid = Some (a, p, t)" using running_caller [OF inv r] by metis
  then show ?thesis
    using f switch_busy [OF inv c] by (simp add: fiber_named_caller [OF inv c] refused_fiber_def)
qed

theorem switch_refused_witness:
  "\<exists>f fb. fiber_named K0 ex3 1 3 = Some (f, fb) \<and> do_SwitchToFiber K0 1 3 1 ex3 =
    Some (-1, store ex3 f (OFiber (fb\<lparr>failed_activation_counter := failed_activation_counter fb + 1\<rparr>)))"
proof -
  obtain g gb where r: "running K0 1 1 ex3 = Some (g, gb)" using ex3_thread1 by auto
  obtain f fb where f: "fiber_named K0 ex3 1 3 = Some (f, fb)" "attached_thread fb \<noteq> NULL"
    using ex3_fiber3 by auto
  show ?thesis using switch_refused [OF ex_inv(4) r f] f(1) by auto
qed

text \<open>The number of the fiber a thread runs is always refused.\<close>

lemma self_switch_refused:
  assumes inv: "kinv K s" and r: "running K me tid s = Some (g, gb)"
  shows "\<exists>s'. do_SwitchToFiber K me (fiber_id gb) tid s = Some (-1, s') \<and> tasks s' = tasks s \<and>
    abs_state K s' = abs_state K s"
proof -
  obtain a p t th where c: "caller K s me tid = Some (a, p, t)" "live_thread s t = Some th"
      "selected_fiber th = Some g" "live_fiber s g = Some gb" "attached_thread gb = Some t"
    using running_caller [OF inv r] by metis
  note cd = callerD [OF inv c(1)]
  have "g \<in> nodes (fibers p)" using thread_links(3) [OF cd(3,5) c(2)] c(3) by auto
  then have g: "fiber_of K s p (fiber_id gb) = Some g"
    using c(4) by (auto simp: fiber_of_Some [OF cd(4)])
  show ?thesis
    using switch_busy [OF inv c(1) g c(4)] c(5) abs_fiber_frame [OF c(4) fiber_frame_refused] by simp
qed

text \<open>\<^bold>\<open>C14\<close> (refinement of the switch). Seen through the abstraction, the switch is the
  abstract one: it succeeds exactly when the caller runs a fiber and the target is
  a fiber of the process that nobody runs, and then moves the caller to the target;
  otherwise it fails and changes nothing. It always returns.\<close>

theorem switch_refinement:
  assumes "kinv K s" "tasks s me = Some cur"
  shows "\<exists>s'. do_SwitchToFiber K me fid tid s =
      Some (if fst (a_switch_to (task_tgid cur) tid fid (abs_state K s)) then 0 else -1, s') \<and>
    abs_state K s' = snd (a_switch_to (task_tgid cur) tid fid (abs_state K s))"
  using assms by (rule switch_refines)

theorem switch_refinement_witness:
  "\<exists>s'. do_SwitchToFiber K0 1 2 1 ex2 =
      Some (if fst (a_switch_to 1 1 2 (abs_state K0 ex2)) then 0 else -1, s') \<and>
    abs_state K0 s' = snd (a_switch_to 1 1 2 (abs_state K0 ex2))"
  using switch_refinement [OF ex_inv(3) ex_tasks(2), of 2 1] by (simp add: task1_def)

section \<open>Creating and converting\<close>

text \<open>\<^bold>\<open>C18\<close> (creation and start). A converted thread that creates a fiber gets the next
  number of its process, which no fiber had before; the fiber is attached to nobody.
  Switching to it starts the given function: the instruction pointer is the
  function, the first argument register its parameter, the stack and base pointer
  are eight bytes below the end of the stack, and the other registers are the
  creator's.\<close>

theorem created_fiber_starts:
  assumes inv: "kinv K s" and K: "kapi_ok K" and ids: "ids_left K me s" and cur: "tasks s me = Some cur"
    and r: "running K me tid s = Some (g, gb)"
    and res: "do_CreateFiber K me stk sz func par tid s = Some (fid, s1)"
  shows "fiber_named K s me fid = None \<and> 0 < sint fid \<and>
    (\<exists>f fb. fiber_named K s1 me fid = Some (f, fb) \<and> attached_thread fb = NULL \<and> start_address fb = func) \<and>
    running K me tid s1 = Some (g, gb) \<and>
    (\<exists>s2. do_SwitchToFiber K me fid tid s1 = Some (0, s2) \<and>
      tasks s2 me = Some (cur\<lparr>user_regs := (user_regs cur)\<lparr>ip := func, di := par,
        sp := stk + sz - 8, bp := stk + sz - 8\<rparr>\<rparr>))"
proof -
  obtain a p t th where c: "caller K s me tid = Some (a, p, t)" "live_thread s t = Some th"
      "selected_fiber th = Some g" "live_fiber s g = Some gb"
    using running_caller [OF inv r] by metis
  note cd = callerD [OF inv c(1)]
  obtain f where f: "fid = next_fid p" "kinv K s1" "tasks s1 me = Some cur" "\<not> is_live s f"
      "caller K s1 me tid = Some (a, add_fiber K p f, t)" "fiber_of K s1 (add_fiber K p f) fid = Some f"
      "live_fiber s1 f = Some (created_fiber cur a stk sz func par fid)" "live_thread s1 t = live_thread s t"
      "\<forall>x. x \<noteq> f \<longrightarrow> live_fiber s1 x = live_fiber s x"
    by (rule after_create [OF inv K ids cur c(1) res])
  have bound: "unat (last_fiber_id p) + 1 < 2 ^ 31" using ids cur cd(2,7) by (auto simp: ids_left_def)
  have "fid \<notin> a_fibers (abs_process K s p)" using next_fid_new [OF cd(4) bound] f(1) by simp
  then have "fiber_of K s p fid = None" by (simp add: abs_process_def)
  then have 1: "fiber_named K s me fid = None"
    using c(1) by (auto simp: fiber_named_def caller_def bind_eq_Some_conv)
  have gf: "g \<noteq> f" using f(4) c(4) live_is_live(3) by auto
  have lg: "live_fiber s1 g = Some gb" using f(9) gf c(4) by simp
  have lt: "live_thread s1 t = Some th" using f(8) c(2) by simp
  have 2: "fiber_named K s1 me fid = Some (f, created_fiber cur a stk sz func par fid)"
    using f(6,7) by (simp add: fiber_named_caller [OF f(2,5)])
  have 3: "running K me tid s1 = Some (g, gb)" using f(5) lt c(3) lg by (simp add: running_def)
  have regs: "registers (created_fiber cur a stk sz func par fid) =
      (user_regs cur)\<lparr>ip := func, di := par, sp := stk + sz - 8, bp := stk + sz - 8\<rparr>"
    "fpu (created_fiber cur a stk sz func par fid) = fx cur" "start_address (created_fiber cur a stk sz func par fid) = func"
    by (simp_all add: created_fiber_def new_fiber_def Let_def)
  have "unat fid < 2 ^ 31" "0 < unat fid"
    using f(1) bound unat_Suc_word [of "last_fiber_id p"] unat_ucast_small [of "last_fiber_id p + 1", where 'b = 32]
    by (simp_all add: next_fid_def)
  then have "0 < sint fid" by (intro sint_pos) simp_all
  moreover have "do_SwitchToFiber K me fid tid s1 =
      Some (0, switched_state me cur t th g gb f (created_fiber cur a stk sz func par fid) s1)"
    by (rule switch_free [OF f(2,5,6,7) _ f(3) lt c(3) lg]) simp
  ultimately show ?thesis
    using 1 2 3 regs by (auto simp: switched_state_def)
qed

theorem created_fiber_starts_witness:
  "\<exists>s2. do_SwitchToFiber K0 1 2 1 ex2 = Some (0, s2) \<and> tasks s2 1 = Some (task1\<lparr>user_regs :=
     (user_regs task1)\<lparr>ip := 555, di := 77, sp := 69624, bp := 69624\<rparr>\<rparr>)"
proof -
  have "map_option (\<lambda>(f, fb). (f, fiber_id fb)) (running K0 1 1 ex1) = Some (3, 1)" by code_simp
  then obtain g gb where r: "running K0 1 1 ex1 = Some (g, gb)" by auto
  show ?thesis
    using created_fiber_starts [OF ex_inv(2) K0_ok(1) ex_ids(2) ex_tasks(1) r ex_runs(2)] by auto
qed

text \<open>\<^bold>\<open>C19\<close> (conversion). A thread that is not a fiber becomes one when memory lasts:
  afterwards it runs a fiber of its own, whose number is the result, which is
  locked by it and saves the context the thread had; the task goes on unchanged.\<close>

theorem convert_makes_fiber:
  assumes inv: "kinv K s" and K: "kapi_ok K" and ids: "ids_left K me s" and cur: "tasks s me = Some cur"
    and new: "running K me tid s = None" and mem: "memory_left K s"
  shows "\<exists>fid s' f fb. do_ConvertThreadToFiber K me tid s = Some (fid, s') \<and>
    running K me tid s' = Some (f, fb) \<and> fiber_id fb = fid \<and> fiber_lock fb \<and> registers fb = user_regs cur \<and>
    fpu fb = fx cur \<and> activation_counter fb = 1 \<and> tasks s' = tasks s \<and> kinv K s'"
proof -
  have done1: "running K me tid (converted_state K cur a p t f tid s1) = Some (f, converted_fiber cur a (next_fid p) t)"
    if inv1: "kinv K s1" and cur1: "tasks s1 me = Some cur" and a: "a \<in> nodes (processes s1)" "live_process s1 a = Some p"
      "process_id p = task_tgid cur" and bound: "unat (last_fiber_id p) + 1 < 2 ^ 31"
      and t: "thread_of K s1 p tid = None" and tf: "two_blocks K s1 = Some (t, f)" for s1 a p t f
    using converted_running [OF inv1 K cur1 a bound t two_blocks_fresh [OF K tf]] .
  obtain fid s' where res: "do_ConvertThreadToFiber K me tid s = Some (fid, s')"
    using convert_returns [OF inv K mem cur] by blast
  have c: "caller K s me tid = None" using new by (simp add: running_None [OF inv])
  obtain a p t f s1 where s1: "kinv K s1" "tasks s1 = tasks s" "a \<in> nodes (processes s1)" "live_process s1 a = Some p"
      "process_id p = task_tgid cur" "unat (last_fiber_id p) + 1 < 2 ^ 31" "thread_of K s1 p tid = None"
      "two_blocks K s1 = Some (t, f)" "fid = next_fid p" "s' = converted_state K cur a p t f tid s1"
    using convert_new_cases [OF inv K ids cur c res] by metis
  have "tasks s1 me = Some cur" using s1(2) cur by simp
  then have "running K me tid s' = Some (f, converted_fiber cur a (next_fid p) t)"
    using done1 [OF s1(1) _ s1(3-8)] s1(10) by simp
  moreover have "tasks s' = tasks s" using s1(2,10) by (simp add: converted_state_def)
  moreover have "activation_counter (converted_fiber cur a (next_fid p) t) = 1" by (simp add: converted_fiber_def)
  ultimately show ?thesis using res s1(9) convert_inv [OF inv K ids res] by auto
qed

theorem convert_makes_fiber_witness:
  "\<exists>s' f fb. do_ConvertThreadToFiber K0 2 2 ex2 = Some (3, s') \<and> running K0 2 2 s' = Some (f, fb) \<and>
    registers fb = user_regs task2"
proof -
  have "Option.is_none (running K0 2 2 ex2)" by code_simp
  then have "running K0 2 2 ex2 = None" by (simp add: Option.is_none_def)
  moreover have "memory_left K0 ex2" by code_simp
  ultimately show ?thesis
    using convert_makes_fiber [OF ex_inv(3) K0_ok(1) ex_ids(3) ex_tasks(5), of 2] ex_runs(3) by auto
qed

end
