(* ===== verification/Storage_Props.thy ===== *)
theory Storage_Props
  imports Fiber_Spec Fiber_Examples
begin

text \<open>
  The properties of the fiber local storage, of the end of threads and processes,
  and of the accounting handler, with what modelling showed about memory: the
  allocation made under a spin lock, the allocation whose failure is not tested,
  and the walks of tables whose nodes are freed on the way.
\<close>

section \<open>Local storage\<close>

lemma ex2_ready: "fls_ready K0 1 1 ex2"
proof -
  have "map_option fst (running K0 1 1 ex2) = Some 3" by code_simp
  then show ?thesis by (auto simp: fls_ready_def)
qed

lemma ex2_unused: "\<not> fls_used K0 1 1 ex2 0"
proof -
  have "map_option (\<lambda>(f, fb). fls_bitmap fb 0) (running K0 1 1 ex2) = Some False" by code_simp
  then show ?thesis by (auto simp: fls_used_def)
qed

text \<open>\<^bold>\<open>C15\<close> (life of an index). The first unused index is the one that is handed out.
  It then holds the value last set, until it is freed; a freed index reads as -1,
  and shows its old value when it is handed out again.\<close>

theorem fls_life_cycle:
  assumes "fls_ready K me tid s" "i < MAX_FLS_POINTERS" "\<not> fls_used K me tid s i" "\<forall>j < i. fls_used K me tid s j"
  shows "\<exists>s1 s2 s3 s4. do_FlsAlloc K me tid s = Some (of_nat i, s1) \<and>
    do_FlsSetValue K me (of_nat i) v tid s1 = Some s2 \<and> do_FlsGetValue K me (of_nat i) tid s2 = Some v \<and>
    do_FlsFree K me (of_nat i) tid s2 = Some (True, s3) \<and> do_FlsGetValue K me (of_nat i) tid s3 = Some (-1) \<and>
    do_FlsAlloc K me tid s3 = Some (of_nat i, s4) \<and> do_FlsGetValue K me (of_nat i) tid s4 = Some v"
  using assms by (rule kfls.life_cycle)

theorem fls_life_cycle_witness:
  "\<exists>s1 s2. do_FlsAlloc K0 1 1 ex2 = Some (0, s1) \<and> do_FlsSetValue K0 1 0 42 1 s1 = Some s2 \<and>
     do_FlsGetValue K0 1 0 1 s2 = Some 42"
  using fls_life_cycle [OF ex2_ready, of 0 42] ex2_unused by (auto simp: MAX_FLS_POINTERS_def)

text \<open>Allocation fails exactly when all 4096 indices are in use.\<close>

lemma fls_alloc_exhausted:
  assumes "fls_ready K me tid s"
  shows "do_FlsAlloc K me tid s = Some (-1, s) \<longleftrightarrow> (\<forall>i < MAX_FLS_POINTERS. fls_used K me tid s i)"
proof
  show "do_FlsAlloc K me tid s = Some (-1, s)" if "\<forall>i < MAX_FLS_POINTERS. fls_used K me tid s i"
    using assms that by (rule kfls.alloc_full)
  show "\<forall>i < MAX_FLS_POINTERS. fls_used K me tid s i" if r: "do_FlsAlloc K me tid s = Some (-1, s)"
  proof (rule ccontr)
    assume "\<not> (\<forall>i < MAX_FLS_POINTERS. fls_used K me tid s i)"
    then obtain i where i: "i < MAX_FLS_POINTERS" "\<not> fls_used K me tid s i" "\<forall>j < i. fls_used K me tid s j"
      using exists_least_iff [of "\<lambda>i. i < MAX_FLS_POINTERS \<and> \<not> fls_used K me tid s i"] by (meson order_less_trans)
    then have "(of_nat i :: long) = -1" using kfls.alloc_free_slot [OF assms i] r by auto
    then have "bad_index (of_nat i)" by (simp add: bad_index_def)
    then show False using index_of_nat(1) [OF i(1)] by simp
  qed
qed

text \<open>\<^bold>\<open>C24\<close> (isolation). Setting a value always returns. With an index in range and allocated, the
  cell of the fiber the caller runs gets the value, which the caller then reads back,
  every other index reads as before, and nothing else of the state of the module
  changes: no other field of the fiber, no other object, neither table nor lock nor
  task. With any other index the state is the same as before.\<close>

theorem fls_isolation:
  assumes inv: "kinv K s" and r: "running K me tid s = Some (f, fb)"
  shows "\<exists>s'. do_FlsSetValue K me index v tid s = Some s' \<and>
    (if 0 \<le> sint index \<and> sint index < 4096 \<and> fls_bitmap fb (unat index)
     then s' = s\<lparr>heap := (heap s)(f \<mapsto> Live (OFiber (fb\<lparr>fls := (fls fb)(unat index := v)\<rparr>)))\<rparr> \<and>
       (\<forall>i. do_FlsGetValue K me i tid s' = (if i = index then Some v else do_FlsGetValue K me i tid s))
     else s' = s)"
proof (cases "bad_index index \<or> \<not> fls_bitmap fb (unat index)")
  case True
  then show ?thesis using fls_set_eq [OF inv r, of index v] by (auto simp: bad_index_def MAX_FLS_POINTERS_def)
next
  case False
  let ?fb = "fls_store_at (unat index) v fb"
  have r': "running K me tid (store s f (OFiber ?fb)) = Some (f, ?fb)" "kinv K (store s f (OFiber ?fb))"
    using running_store [OF inv r] inv_fiber_frame [OF inv _ fiber_frame_fls(2)] running_live [OF r] by blast+
  then have "do_FlsGetValue K me i tid (store s f (OFiber ?fb)) = (if i = index then Some v else do_FlsGetValue K me i tid s)" for i
    using False fls_get_eq [OF r'(2,1), of i] fls_get_eq [OF inv r, of i] unsigned_word_eqI [of i index]
    by (auto simp: fls_store_at_def)
  then show ?thesis
    using False fls_set_eq [OF inv r, of index v] by (auto simp: bad_index_def MAX_FLS_POINTERS_def store_def fls_store_at_def)
qed

theorem fls_isolation_witness:
  "\<exists>f fb s1 s2. do_FlsAlloc K0 1 1 ex2 = Some (0, s1) \<and> running K0 1 1 s1 = Some (f, fb) \<and>
     do_FlsSetValue K0 1 0 42 1 s1 = Some s2 \<and> do_FlsGetValue K0 1 0 1 s2 = Some 42 \<and>
     s2 = s1\<lparr>heap := (heap s1)(f \<mapsto> Live (OFiber (fb\<lparr>fls := (fls fb)(0 := 42)\<rparr>)))\<rparr>"
proof -
  obtain s1 where s1: "do_FlsAlloc K0 1 1 ex2 = Some (0, s1)" "fls_ready K0 1 1 s1" "fls_used K0 1 1 s1 0"
    using kfls.alloc_free_slot [OF ex2_ready, of 0] ex2_unused by (auto simp: MAX_FLS_POINTERS_def)
  then obtain f fb where r: "kinv K0 s1" "running K0 1 1 s1 = Some (f, fb)" "fls_bitmap fb 0"
    by (auto simp: fls_ready_def fls_used_def)
  then show ?thesis using fls_isolation [OF r(1,2), of 0 42] s1(1) by auto
qed

text \<open>\<^bold>\<open>C25\<close> (errors). Freeing, reading and writing with an index outside 0 to 4095, with an
  index that is not allocated, or from a thread that is not a fiber, returns the
  error value (false, -1, nothing) and changes nothing.\<close>

theorem fls_errors:
  assumes inv: "kinv K s" and cur: "tasks s me = Some cur"
    and bad: "bad_index index \<or> \<not> fls_used K me tid s (unat index)"
  shows "do_FlsFree K me index tid s = Some (False, s) \<and> do_FlsGetValue K me index tid s = Some (-1) \<and>
    do_FlsSetValue K me index v tid s = Some s"
proof (cases "running K me tid s")
  case None
  then show ?thesis using fls_not_running [OF inv cur] by simp
next
  case (Some ffb)
  then obtain f fb where r: "running K me tid s = Some (f, fb)" by (cases ffb) auto
  then have "bad_index index \<or> \<not> fls_bitmap fb (unat index)" using bad by (simp add: fls_used_def)
  then show ?thesis using fls_free_eq [OF inv r] fls_get_eq [OF inv r] fls_set_eq [OF inv r] by auto
qed

theorem fls_errors_witness:
  "do_FlsFree K0 1 4096 1 ex2 = Some (False, ex2) \<and> do_FlsGetValue K0 1 4096 1 ex2 = Some (-1)"
proof -
  have "bad_index 4096" by code_simp
  then show ?thesis using fls_errors [OF ex_inv(3) ex_tasks(2), of 4096 1] by simp
qed

section \<open>The end of threads and processes\<close>

text \<open>\<^bold>\<open>C20\<close> (hand-over). When a thread exits while another thread of the process
  lives on, the fiber it ran is free again with the context the thread died with,
  and the other thread can switch to it and continue there.\<close>

theorem exit_hands_over:
  assumes inv: "kinv K s" and K: "kapi_ok K" and cur: "tasks s me = Some cur"
    and r: "running K me (task_pid cur) s = Some (g, gb)"
    and cur2: "tasks s me2 = Some cur2" "task_tgid cur2 = task_tgid cur" "me2 \<noteq> me" "tid2 \<noteq> task_pid cur"
    and r2: "running K me2 tid2 s = Some (h, hb)"
  shows "\<exists>s1 s2. exit_cleanup K me s = Some s1 \<and>
    do_SwitchToFiber K me2 (fiber_id gb) tid2 (s1\<lparr>tasks := (tasks s1)(me := None)\<rparr>) = Some (0, s2) \<and>
    tasks s2 me2 = Some (cur2\<lparr>user_regs := user_regs cur, fx := fx cur\<rparr>)"
proof -
  obtain a p t th where c: "caller K s me (task_pid cur) = Some (a, p, t)" "live_thread s t = Some th"
      "selected_fiber th = Some g" "live_fiber s g = Some gb" "g \<in> nodes (fibers p)"
    using runningD [OF inv r] by metis
  obtain a' p' t2 th2 where c2: "caller K s me2 tid2 = Some (a', p', t2)" "live_thread s t2 = Some th2"
      "selected_fiber th2 = Some h" "live_fiber s h = Some hb" "attached_thread hb = Some t2"
    using runningD [OF inv r2] by metis
  have same: "a' = a" "p' = p" using c(1) c2(1) cur cur2 by (auto simp: caller_def bind_eq_Some_conv)
  note cd = callerD [OF inv c(1)] and cd2 = callerD [OF inv c2(1), unfolded same]
  have tt: "t2 \<noteq> t" using cd(8) cd2(8) cur2(4) by auto
  have n: "active_threads p \<noteq> 1" using one_thread [OF cd(3,5)] cd2(5) tt by blast
  let ?s1 = "exited_state cur a p t th g gb s" and ?p = "less_thread p t"
  let ?s = "?s1\<lparr>tasks := (tasks ?s1)(me := None)\<rparr>"
  have ex: "exit_cleanup K me s = Some ?s1" by (rule exit_not_last [OF inv cur c(1-4) n])
  have inv1: "kinv K ?s" using exited_state_inv [OF inv K c(1-4), of cur] by simp
  have g: "attached_thread gb = Some t" using thread_links(3) [OF cd(3,5) c(2)] c(3,4) by auto
  have ne: "a \<noteq> t" "a \<noteq> g" "t \<noteq> g" "t2 \<noteq> a" "t2 \<noteq> g" "h \<noteq> a" "h \<noteq> t" "h \<noteq> g"
    using live_types_differ(1) [OF cd(2) c(2)] live_types_differ(2) [OF cd(2) c(4)] live_types_differ(3) [OF c(2,4)]
      live_types_differ(1) [OF cd(2) c2(2)] live_types_differ(3) [OF c2(2) c(4)] live_types_differ(2) [OF cd(2) c2(4)]
      live_types_differ(3) [OF c(2) c2(4)] g c(4) c2(4,5) tt by auto
  have live: "live_process ?s a = Some ?p" "live_thread ?s t2 = Some th2" "live_fiber ?s h = Some hb"
      "live_fiber ?s g = Some (left_fiber cur gb)"
    using ne tt c2 by (simp_all add: heap_live exited_state_def)
  have tk: "tasks ?s me2 = Some cur2" using cur2 by (simp add: exited_state_def)
  have an: "a \<in> nodes (processes ?s)" using cd(1) by (simp add: exited_state_def)
  have ok: "threads_ok K ?s a ?p" "fibers_ok K ?s a ?p" using inv_process [OF inv1 an] live(1) by auto
  have "process_id ?p = task_tgid cur2" using cd2(7) cur2(1) by (auto simp: less_thread_def)
  then have pr: "proc_of K ?s (task_tgid cur2) = Some a" using an live(1) by (simp add: proc_of_Some [OF inv1])
  have "t2 \<in> nodes (threads ?p)" "g \<in> nodes (fibers ?p)" using cd2(5) c(5) tt by (simp_all add: less_thread_def)
  then have look: "thread_of K ?s ?p tid2 = Some t2" "fiber_of K ?s ?p (fiber_id gb) = Some g"
    using live cd2(8) c2(2) by (simp_all add: thread_of_Some [OF ok(1)] fiber_of_Some [OF ok(2)] left_fiber_def)
  have cs: "caller K ?s me2 tid2 = Some (a, ?p, t2)" using tk pr live(1) look(1) by (simp add: caller_def)
  have "do_SwitchToFiber K me2 (fiber_id gb) tid2 ?s = Some (0, switched_state me2 cur2 t2 th2 h hb g (left_fiber cur gb) ?s)"
    by (rule switch_free [OF inv1 cs look(2) live(4) _ tk live(2) c2(3) live(3)]) (simp add: left_fiber_def)
  then show ?thesis
    using ex by (auto simp: switched_state_def left_fiber_def)
qed

theorem exit_hands_over_witness:
  "\<exists>s1 s2. exit_cleanup K0 1 ex3 = Some s1 \<and>
    do_SwitchToFiber K0 2 1 2 (s1\<lparr>tasks := (tasks s1)(1 := None)\<rparr>) = Some (0, s2) \<and>
    map_option user_regs (tasks s2 2) = Some (user_regs task1)"
proof -
  have "map_option (\<lambda>(f, fb). (f, fiber_id fb)) (running K0 1 1 ex3) = Some (3, 1)" by code_simp
  then obtain g gb where r: "running K0 1 (task_pid task1) ex3 = Some (g, gb)" "fiber_id gb = 1"
    by (auto simp: task1_def)
  have "map_option fst (running K0 2 2 ex3) = Some 6" by code_simp
  then obtain h hb where r2: "running K0 2 2 ex3 = Some (h, hb)" by auto
  show ?thesis
    using exit_hands_over [OF ex_inv(4) K0_ok(1) ex_tasks(3) r(1) ex_tasks(6) _ _ _ r2] r(2)
    by (auto simp: task1_def task2_def)
qed

text \<open>\<^bold>\<open>C21\<close> (last exit). The exit of the last thread of a process frees all or faults. If it
  returns, the process structure, the thread and every fiber are freed, the process has
  left the table, and all other objects, the tasks and the lock are as before. It
  returns exactly where memory can be read after it was freed: the walk that frees the
  fibers reads each node once more.\<close>

theorem last_exit_frees_everything:
  assumes inv: "kinv K s" and K: "kapi_ok K" and cur: "tasks s me = Some cur"
    and c: "caller K s me (task_pid cur) = Some (a, p, t)" and last: "active_threads p = 1"
  shows "case exit_cleanup K me s of
      None \<Rightarrow> \<not> stale_reads K
    | Some s' \<Rightarrow> stale_reads K \<and> (\<forall>x. if x \<in> owned s a then \<not> is_live s' x else heap s' x = heap s x) \<and>
        proc_of K s' (task_tgid cur) = None \<and> processes s' = hash_del_rcu (processes s) a \<and> tasks s' = tasks s \<and>
        struct_process_lock s' = struct_process_lock s \<and> kinv K s'"
proof (cases "exit_cleanup K me s")
  case None
  then show ?thesis using exit_last_returns [OF inv K _ cur c last] by auto
next
  case (Some s')
  have td: "torn_down s a s'" by (rule exit_last_torn_down [OF inv K cur c last Some])
  have a: "proc_of K s (task_tgid cur) = Some a" using callerD(7) [OF inv c] cur by auto
  have "stale_reads K" using exit_poisoned [OF inv K _ cur c last] Some by auto
  then show ?thesis
    using Some td torn_down_proc_of [OF inv a td] torn_down_inv [OF inv callerD(1) [OF inv c] td]
    by (auto simp: torn_down_def)
qed

theorem last_exit_frees_everything_witness:
  "\<exists>s'. exit_cleanup K0 1 ex2 = Some s' \<and> proc_of K0 s' 1 = None \<and> kinv K0 s'"
proof -
  have "map_option (\<lambda>(a, p, t). active_threads p) (caller K0 ex2 1 1) = Some 1" by code_simp
  then obtain a p t where "caller K0 ex2 1 (task_pid task1) = Some (a, p, t)" "active_threads p = 1"
    by (auto simp: task1_def)
  then show ?thesis
    using last_exit_frees_everything [OF ex_inv(3) K0_ok(1) ex_tasks(2)] by (auto simp: task1_def split: option.splits)
qed

text \<open>A clean-up returns where freed memory can be read, or where there is nothing to walk.\<close>

lemma cleanup_returns_iff:
  assumes inv: "kinv K s" and K: "kapi_ok K" and cur: "tasks s me = Some cur" and a: "proc_of K s (task_tgid cur) = Some a"
  shows "(\<exists>s'. process_cleanup K me s = Some s') \<longleftrightarrow> stale_reads K \<or> owned s a = {a}"
proof -
  obtain p where an: "a \<in> nodes (processes s)" and p: "live_process s a = Some p" using a by (auto simp: proc_of_Some [OF inv])
  have ok: "threads_ok K s a p" "fibers_ok K s a p" using inv_process [OF inv an] p by auto
  note walk = walk_nodes(1) [OF K ok(1)] walk_nodes(2) [OF K ok(2)]
  have own: "owned s a = {a} \<longleftrightarrow> nodes (threads p) = {} \<and> nodes (fibers p) = {}"
    using p nodes_apart(1,2) [OF p ok] unfolding owned_def by fastforce
  let ?s = "s\<lparr>processes := hash_del_rcu (processes s) a\<rparr>"
  have "is_live ?s a" using live_is_live(1) [OF p] by (simp add: is_live_def)
  then have empty: "process_cleanup K me s \<noteq> None" if "owned s a = {a}"
    using cur a get_live(1) [OF p] that own walk kfree_live by (simp add: process_cleanup_def find_process_eq [OF inv])
  have "process_cleanup K me s = None" if "\<not> stale_reads K" "owned s a \<noteq> {a}"
  proof (cases "hash_nodes (threads p) = []")
    case True
    then have "hash_nodes (fibers p) \<noteq> []" using that(2) walk unfolding own by (metis empty_set)
    then show ?thesis
      using True kfree_each_poisoned [OF that(1)] get_live(1) [OF p] cur a by (simp add: process_cleanup_def find_process_eq [OF inv])
  next
    case False
    then show ?thesis
      using kfree_each_poisoned [OF that(1)] get_live(1) [OF p] cur a by (simp add: process_cleanup_def find_process_eq [OF inv])
  qed
  then show ?thesis using empty cleanup_returns [OF inv K _ cur] by (cases "process_cleanup K me s") auto
qed

text \<open>\<^bold>\<open>C22\<close> (close). If closing the device returns, it has ended the fibers of the calling process in
  the same way, whatever its threads are doing, and dropped one reference to the
  module; for a process without fibers it does the latter only, and always returns. For
  a process with fibers it returns exactly where memory can be read after it was freed,
  or if the process has neither thread nor fiber left in its tables.\<close>

theorem close_ends_process:
  assumes inv: "kinv K s" and K: "kapi_ok K" and cur: "tasks s me = Some cur"
  shows "case proc_of K s (task_tgid cur) of
      None \<Rightarrow> fiber_close K me refs s = Some (0, refs - 1, s)
    | Some a \<Rightarrow> (case fiber_close K me refs s of
          None \<Rightarrow> \<not> stale_reads K \<and> owned s a \<noteq> {a}
        | Some (r, refs', s') \<Rightarrow> (stale_reads K \<or> owned s a = {a}) \<and> r = 0 \<and> refs' = refs - 1 \<and> torn_down s a s' \<and>
            proc_of K s' (task_tgid cur) = None \<and> kinv K s')"
proof (cases "proc_of K s (task_tgid cur)")
  case None
  then show ?thesis using cleanup_unregistered [OF inv cur] by (simp add: fiber_close_def)
next
  case (Some a)
  show ?thesis
  proof (cases "process_cleanup K me s")
    case None
    then show ?thesis using Some cleanup_returns_iff [OF inv K cur Some] by (simp add: fiber_close_def)
  next
    case res: (Some s')
    have td: "torn_down s a s'" by (rule cleanup_torn_down [OF inv K cur Some res])
    show ?thesis
      using Some res cleanup_returns_iff [OF inv K cur Some] cleanup_inv [OF inv K res] td torn_down_proc_of [OF inv Some td]
      by (simp add: fiber_close_def)
  qed
qed

theorem close_ends_process_witness: "\<exists>s'. fiber_close K0 1 5 ex3 = Some (0, 4, s') \<and> proc_of K0 s' 1 = None \<and> kinv K0 s'"
proof -
  have "map_option (\<lambda>p. p \<noteq> None) (find_process_by_tgid K0 (task_tgid task1) ex3) = Some True" by code_simp
  then have "proc_of K0 ex3 (task_tgid task1) \<noteq> None" by (simp add: find_process_eq [OF ex_inv(4)])
  then show ?thesis
    using close_ends_process [OF ex_inv(4) K0_ok(1) ex_tasks(3), of 5] by (auto simp: task1_def split: option.splits)
qed




section \<open>Memory\<close>

text \<open>A conversion makes a sleeping allocation in atomic
  context exactly when it is the first of its process: the process structure is
  allocated with \<open>GFP_KERNEL\<close> while \<open>struct_process_lock\<close> is held.\<close>

lemma first_conversion_sleeps_in_atomic:
  assumes inv: "kinv K s" and K: "kapi_ok K" and ids: "ids_left K me s" and cur: "tasks s me = Some cur"
    and res: "do_ConvertThreadToFiber K me tid s = Some (r, s')" and clean: "\<not> slept_in_atomic s"
  shows "slept_in_atomic s' \<longleftrightarrow> proc_of K s (task_tgid cur) = None"
proof (cases "proc_of K s (task_tgid cur)")
  case None
  then obtain a where a: "kmalloc_at K (allocs s) (is_live s) = Some a"
    and res': "convert_thread K me a tid (registered_state K cur a s) = Some (r, s')"
    using res convert_unregistered [OF inv cur None] by (auto split: option.splits)
  note reg = registered_state_inv [OF inv K None kapi_ok_fresh [OF K a]]
  have "threads_ok K (registered_state K cur a s) a (new_process cur)" using inv_process [OF reg(1,2)] reg(3) by auto
  then show ?thesis
    using res' convert_thread_new [OF K _ reg(3) _ thread_of_new_process, of me cur tid] cur None
    by (auto simp: registered_state_def converted_state_def alloc_step_def split: option.splits)
next
  case (Some a)
  then obtain p where p: "live_process s a = Some p" "threads_ok K s a p" using proc_of_abs [OF inv] by metis
  have "\<not> struct_process_lock s" using inv by (simp add: kinv_def)
  then show ?thesis
    using res Some clean convert_registered [OF inv cur Some] convert_thread_new [OF K p(2,1) cur, of tid]
      convert_thread_again [OF p(2,1) cur, of tid]
    by (cases "thread_of K s p tid") (auto simp: converted_state_def alloc_step_def split: option.splits)
qed

text \<open>\<^bold>\<open>C36\<close> (failed allocation). Creating a fiber faults exactly when the allocation of the
  fiber fails: its result is used without a test.\<close>

theorem create_faults_iff_no_memory:
  assumes inv: "kinv K s" and K: "kapi_ok K" and r: "running K me tid s = Some (g, gb)"
  shows "do_CreateFiber K me stk sz func par tid s = None \<longleftrightarrow> kmalloc_at K (allocs s) (is_live s) = NULL"
proof -
  obtain a p t where c: "caller K s me tid = Some (a, p, t)" using runningD [OF inv r] by metis
  then obtain cur where "tasks s me = Some cur" "proc_of K s (task_tgid cur) = Some a"
    using callerD(7) [OF inv c] by auto
  then show ?thesis
    using create_converted [OF inv K _ _ callerD(2,6) [OF inv c]] by (simp split: option.split)
qed

theorem create_faults_iff_no_memory_witness: "do_CreateFiber K0 1 65536 4096 555 77 1 ex2 \<noteq> None"
proof -
  have "map_option fst (running K0 1 1 ex2) = Some 3" by code_simp
  then obtain g gb where "running K0 1 1 ex2 = Some (g, gb)" by auto
  moreover have "kmalloc_at K0 (allocs ex2) (is_live ex2) = Some 5" by code_simp
  ultimately show ?thesis using create_faults_iff_no_memory [OF ex_inv(3) K0_ok(1)] by simp
qed

section \<open>Accounting\<close>

text \<open>\<^bold>\<open>C38\<close> (preemption balance). The accounting handler leaves the preemption counter as it
  found it, except when the previous task is an unconverted thread of a process that
  uses fibers: then the counter stays raised by one for ever.\<close>

theorem timer_leaks_preemption:
  assumes inv: "kinv K s" and k: "prev_kind K c s = Some k"
  shows "\<exists>c' s'. fiber_timer K me c s = Some (c', s') \<and> prev_task c' = Some me \<and>
    preempt_count c' = preempt_count c + (if k = Unconverted then 1 else 0)"
  using timer_by_kind [OF inv k, of me] by (cases k) (auto simp: cpu_after_def)

theorem timer_leaks_preemption_witness:
  "\<exists>c' s'. fiber_timer K0 1 \<lparr>prev_task = Some 2, preempt_count = 0\<rparr> ex2 = Some (c', s') \<and> preempt_count c' = 1"
proof -
  have "prev_kind K0 \<lparr>prev_task = Some 2, preempt_count = 0\<rparr> ex2 = Some Unconverted"
  proof -
    have "Option.is_none (running K0 2 2 ex2)" "proc_of K0 ex2 1 = Some 1" by code_simp+
    then show ?thesis by (simp add: prev_kind_def task2_def Option.is_none_def)
  qed
  then show ?thesis using timer_leaks_preemption [OF ex_inv(3), of _ Unconverted 1] by force
qed

text \<open>Each time a task that runs a fiber is scheduled out, the handler adds
  the whole user time the task has used since it was created, so that two
  consecutive runs charge the same time twice.\<close>

lemma timer_charges_total_twice:
  assumes inv: "kinv K s" and tk: "tasks s me = Some cur" and r: "running K me (task_pid cur) s = Some (f, fb)"
    and c: "prev_task c = Some me"
  shows "\<exists>c1 s1 c2 s2 fb2. fiber_timer K me c s = Some (c1, s1) \<and> fiber_timer K me c1 s1 = Some (c2, s2) \<and>
    live_fiber s2 f = Some fb2 \<and> total_time fb2 = total_time fb + utime cur + utime cur \<and>
    preempt_count c2 = preempt_count c"
proof -
  obtain a p t where ca: "caller K s me (task_pid cur) = Some (a, p, t)" using runningD [OF inv r] by metis
  then have pr: "proc_of K s (task_tgid cur) \<noteq> None" using tk by (auto simp: caller_def bind_eq_Some_conv)
  have k: "prev_kind K c s = Some (Running f fb cur)"
    using c tk r pr by (auto simp: prev_kind_def)
  let ?s1 = "store s f (OFiber (charged_fiber cur fb))" and ?c1 = "cpu_after me 0 c"
  have lf: "live_fiber s f = Some fb" using running_live [OF r] by blast
  have inv1: "kinv K ?s1" by (rule inv_fiber_frame [OF inv lf fiber_frame_charged])
  have r1: "running K me (task_pid cur) ?s1 = Some (f, charged_fiber cur fb)" by (rule running_store [OF inv r])
  have "proc_of K ?s1 = proc_of K s"
    using live_store_fiber [OF lf] by (simp add: proc_of_def pkey_def [abs_def])
  then have k1: "prev_kind K ?c1 ?s1 = Some (Running f (charged_fiber cur fb) cur)"
    using tk r1 pr by (auto simp: prev_kind_def cpu_after_def)
  show ?thesis
    using timer_by_kind [OF inv k, of me] timer_by_kind [OF inv1 k1, of me]
    by (simp add: live_simps cpu_after_def charged_fiber_def)
qed

end
