(* ===== verification/Interface_Props.thy ===== *)
theory Interface_Props
  imports Fiber_Spec Fiber_Examples
begin

text \<open>
  The properties of what lies around the operations: the command dispatcher, the
  device file and its registration, the \<^verbatim>\<open>/proc\<close> files and the user library.
\<close>

section \<open>Commands\<close>

text \<open>\<^bold>\<open>C27\<close> (rejected commands). A command number that is not one of the seven is answered
  with -EINVAL, and a command with an argument that cannot be read with -EFAULT; in
  both cases nothing changes.\<close>

theorem ioctl_rejects:
  assumes "tasks s me = Some cur"
    and "command major cmd = None \<or> (\<exists>nr. command major cmd = Some nr \<and> nr \<notin> {0, 3} \<and> get_arguments arg u = None)"
  shows "fibers_ioctl K major me cmd arg u s =
    Some (if command major cmd = None then - EINVAL else - EFAULT, u, s)"
  using assms(2) by (auto simp: ioctl_dispatch [OF assms(1)])

definition u0 :: uspace where
  "u0 = \<lparr>access_ok = (\<lambda>a n. a < 1000), args_at = Map.empty, cells = Map.empty, writable = (\<lambda>a. a < 1000)\<rparr>"

theorem ioctl_rejects_witness: "fibers_ioctl K0 244 1 7 0 u0 ex3 = Some (- EINVAL, u0, ex3)"
proof -
  have "command 244 7 = None" by code_simp
  then show ?thesis using ioctl_rejects [OF ex_tasks(3), of 244 7 0 u0 K0] by simp
qed

section \<open>The device file\<close>

text \<open>A reader that asks for the whole message in one read gets the seven
  command numbers, one per line, and the end of the file after that.\<close>

lemma device_read_whole:
  assumes "unat len \<ge> 147"
  shows "\<exists>off. fibers_read (message_array (publish_ioctl_message major)) (\<lambda>_. True) len 0 =
      Some (of_nat (length (command_lines major)), command_lines major, off) \<and>
    fibers_read (message_array (publish_ioctl_message major)) (\<lambda>_. True) len' off = Some (0, [], off)"
proof -
  have "length (publish_ioctl_message major) \<le> unat len"
    using assms length_command_lines [of major] by (simp add: publish_untruncated)
  then show ?thesis
    using dev_file.read_twice [of major len len'] command_lines_nonempty [of major] by (simp add: publish_untruncated)
qed

text \<open>The published numbers are short: with the twelve bits that a major number has, each line has
  at most seven digits.\<close>

lemma IO_cmd_small:
  assumes "unat major < 4096" "nr < 7"
  shows "0 \<le> sint (IO_cmd major nr)" "sint (IO_cmd major nr) < 2 ^ 20"
proof -
  have "unat major < 2 ^ 12" using assms(1) by simp
  then have "take_bit 12 major = major" by (metis take_bit_nat_eq_self unsigned_take_bit_eq word_unat_eq_iff)
  then have "take_bit 20 (push_bit 8 major) = push_bit 8 major" by (simp add: take_bit_push_bit)
  moreover have "take_bit 20 (of_nat nr :: long) = of_nat nr" using assms(2) by (simp add: take_bit_of_nat take_bit_nat_eq_self)
  ultimately have "take_bit 20 (IO_cmd major nr) = IO_cmd major nr" by (simp add: IO_cmd_def take_bit_or)
  then have u: "uint (IO_cmd major nr) < 2 ^ 20" by (metis take_bit_int_less_exp unsigned_take_bit_eq)
  have "- (2 ^ 63) \<le> uint (IO_cmd major nr)" by (rule order_trans [of _ 0]) simp_all
  then have "signed_take_bit 63 (uint (IO_cmd major nr)) = uint (IO_cmd major nr)"
    using u by (intro signed_take_bit_int_eq_self) simp_all
  then have "sint (IO_cmd major nr) = uint (IO_cmd major nr)" by (simp add: sint_uint)
  then show "0 \<le> sint (IO_cmd major nr)" "sint (IO_cmd major nr) < 2 ^ 20" using u by simp_all
qed

lemma length_published:
  assumes "unat major < 4096"
  shows "length (publish_ioctl_message major) \<le> 56"
proof -
  have "length (dec_int (sint (IO_cmd major nr))) \<le> 7" if "nr < 7" for nr
    using IO_cmd_small [OF assms that] length_dec_nat [of "nat (sint (IO_cmd major nr))" 7] by (simp add: dec_int_def nat_less_iff)
  then have "length (concat (map (\<lambda>nr. dec_int (sint (IO_cmd major nr)) @ [newline]) ns)) \<le> 8 * length ns" if "\<forall>nr \<in> set ns. nr < 7" for ns
    using that by (induction ns) fastforce+
  from this [of "[0..<7]"] show ?thesis by (simp add: publish_untruncated command_lines_def)
qed

text \<open>\<^bold>\<open>C40\<close> (reads of the device). A read of the published message, of any length and from any offset, stays
  inside the message array. From the end on it answers 0; before it, it gives as many
  bytes as were asked for, up to the length of the whole message and not of what is left
  of it: a reader that comes back in the middle is given NUL bytes behind the message.\<close>

theorem device_read_pads:
  assumes major: "unat major < 4096"
  shows "let msg = publish_ioctl_message major; i = min (unat len) (length msg) in
    fibers_read (message_array msg) (\<lambda>_. True) len off =
      (if length msg \<le> unat off then Some (0, [], off)
       else Some (of_nat i, take i (drop (unat off) msg @ replicate (unat off) nul), off + of_nat i))"
proof -
  let ?m = "publish_ioctl_message major"
  let ?i = "min (unat len) (length ?m)"
  have len: "length ?m \<le> 56" by (rule length_published [OF major])
  have n: "strnlen (message_array ?m) MESSAGE_MAX_LEN = length ?m"
    using len nul_not_in_lines [of major] by (intro strnlen_message) (simp_all add: publish_untruncated MESSAGE_MAX_LEN_def)
  have "take ?i (drop (unat off) (message_array ?m)) = take ?i (drop (unat off) ?m @ replicate (unat off) nul)" if "unat off < length ?m"
    using that len by (auto simp: message_array_def MESSAGE_MAX_LEN_def min_def)
  then show ?thesis using n len by (auto simp: fibers_read_def Let_def MESSAGE_MAX_LEN_def)
qed

theorem device_read_pads_witness:
  "\<exists>msg. msg = publish_ioctl_message 244 \<and> fibers_read (message_array msg) (\<lambda>_. True) 256 1 =
    Some (of_nat (length msg), tl msg @ [nul], 1 + of_nat (length msg))"
proof -
  let ?m = "publish_ioctl_message 244"
  have "length ?m \<le> 56" by (rule length_published) simp
  moreover have "1 < length ?m" by (simp add: publish_untruncated command_lines_def command_upt)
  ultimately show ?thesis
    using device_read_pads [of 244 256 1] by (simp add: Let_def min_def drop_Suc)
qed

section \<open>Registration\<close>

text \<open>\<^bold>\<open>C28\<close> (registration). Registering the device either succeeds, then the major number, the
  class and the device node are held and the message lists the commands of that
  major number; or it returns a negative error number, then nothing is held that was
  not held before.\<close>

theorem register_all_or_nothing:
  assumes D: "devapi_ok D" and reg: "register_fiber_device D d = (ret, d')"
    and new: "Chrdev (word_of_int (chrdev_result D)) \<notin> held d" "\<And>c. class_result D = KObj c \<Longrightarrow> Class c \<notin> held d"
  shows "ret < 0 \<and> held d' = held d \<or>
    ret = 0 \<and> (\<exists>c v. class_result D = KObj c \<and> device_result D = KObj v \<and>
      held d' = held d \<union> {Chrdev (dev_major d'), Class c, Node c} \<and>
      string_message d' = publish_ioctl_message (dev_major d'))"
  using D
proof (cases rule: register_cases [where d = d])
  case no_major
  then show ?thesis using reg by auto
next
  case (no_class e d2)
  then show ?thesis using reg new(1) by auto
next
  case (no_node e c d2)
  then show ?thesis using reg new by auto
next
  case (registered c v d2)
  then show ?thesis using reg by auto
qed

definition d0 :: device where
  "d0 = \<lparr>dev_major = 0, class_fibers = KNull, dev_fibers = KNull, string_message = [], fops_ioctl = False,
     devnode_set = False, calls = []\<rparr>"

definition D0 :: devapi where
  "D0 = \<lparr>chrdev_result = 244, class_result = KObj 1, device_result = KObj 2\<rparr>"

definition D0_no_node :: devapi where
  "D0_no_node = \<lparr>chrdev_result = 244, class_result = KObj 1, device_result = KErr (-12)\<rparr>"

lemma D0_ok: "devapi_ok D0" "devapi_ok D0_no_node"
  by (auto simp: devapi_ok_def D0_def D0_no_node_def)

lemma held_d0: "held d0 = {}"
  by (simp add: held_def d0_def)

theorem register_all_or_nothing_witness: "held (snd (register_fiber_device D0_no_node d0)) = held d0"
proof -
  obtain ret d' where r: "register_fiber_device D0_no_node d0 = (ret, d')" by (cases "register_fiber_device D0_no_node d0")
  show ?thesis
    using register_all_or_nothing [OF D0_ok(2) r] r by (auto simp: held_d0 D0_no_node_def)
qed

text \<open>\<^bold>\<open>C29\<close> (loading and unloading). Unloading the module after a successful load gives back
  everything the load acquired: the device and the four probes.\<close>

theorem load_unload:
  assumes D: "devapi_ok D" and ok: "fst (register_fiber_device D d) = 0"
    and new: "held d \<inter> (the_probes \<union> {Chrdev (word_of_int (chrdev_result D))}) = {}"
      "\<And>c. class_result D = KObj c \<Longrightarrow> Class c \<notin> held d \<and> Node c \<notin> held d"
  shows "held (fiber_cleanup (snd (fiber_init D d))) = held d"
  using D
proof (cases rule: register_cases [where d = d])
  case (registered c v d')
  have "held (snd (fiber_init D d)) = the_probes \<union> held d'" "dev_major (snd (fiber_init D d)) = dev_major d'"
      "class_fibers (snd (fiber_init D d)) = KObj c"
    using init_held [of D d] registered by simp_all
  then have "held (fiber_cleanup (snd (fiber_init D d))) =
      (the_probes \<union> held d') - the_probes - {Node c} - {Class c} - {Chrdev (dev_major d')}"
    by (simp add: cleanup_held)
  moreover have "held d \<inter> the_probes = {}" "Chrdev (dev_major d') \<notin> held d" "Class c \<notin> held d" "Node c \<notin> held d"
    using new registered by auto
  moreover have "Class c \<notin> the_probes" "Node c \<notin> the_probes" "Chrdev (dev_major d') \<notin> the_probes"
    by (simp_all add: the_probes_def)
  ultimately show ?thesis using registered(5,8) by auto
qed (use ok D in \<open>auto simp: devapi_ok_def\<close>)

theorem load_unload_witness: "held (fiber_cleanup (snd (fiber_init D0 d0))) = {}"
proof -
  have "fst (register_fiber_device D0 d0) = 0"
    by (simp add: register_fiber_device_def Let_def D0_def call_def is_err_def)
  then show ?thesis using load_unload [OF D0_ok(1), of d0] by (simp add: held_d0)
qed

text \<open>Loading the module reports success also when the device could not be
  registered: the module stays loaded, its probes armed, without a device and with
  no commands published.\<close>

lemma load_ignores_failure:
  assumes D: "devapi_ok D" and fail: "fst (register_fiber_device D d) < 0"
    and new: "Chrdev (word_of_int (chrdev_result D)) \<notin> held d" "\<And>c. class_result D = KObj c \<Longrightarrow> Class c \<notin> held d"
  shows "fst (fiber_init D d) = 0 \<and> held (snd (fiber_init D d)) = held d \<union> the_probes"
  using D
proof (cases rule: register_cases [where d = d])
  case no_major
  then show ?thesis using init_held(1) [of D d] by (auto simp: fiber_init_def Let_def)
next
  case (no_class e d')
  then show ?thesis using init_held(1) [of D d] new(1) by (auto simp: fiber_init_def Let_def)
next
  case (no_node e c d')
  then show ?thesis using init_held(1) [of D d] new by (auto simp: fiber_init_def Let_def)
qed (use fail in simp)

section \<open>The files under /proc\<close>

text \<open>\<^bold>\<open>C30\<close> (listing). Listing the directory of a process that uses fibers hands the kernel an
  array that is exactly filled: one entry for each fiber, none twice, each named by
  the decimal number of its fiber.\<close>

theorem listing_exact:
  assumes inv: "kinv K s" and K: "kapi_ok K" and a: "proc_of K s (task_tgid tk) = Some a" "live_process s a = Some p"
    and m: "kmalloc_at K (allocs s) (is_live s) \<noteq> NULL"
  shows "\<exists>ents. proc_fiber_base_readdir K readdir (Some tk) ctx s =
      (let (ret, ctx') = readdir ctx ents in Some (ret, ctx', alloc_step s)) \<and>
    length ents = unat (last_fiber_id p) \<and> distinct (map pe_name ents) \<and>
    set (map pe_name ents) = (\<lambda>fid. dec_nat (unat fid)) ` a_fibers (abs_process K s p)"
proof -
  have ok: "threads_ok K s a p" "fibers_ok K s a p"
    using a by (auto simp: proc_of_Some [OF inv] elim: inv_process [OF inv])
  have "proc_fiber_base_readdir K readdir (Some tk) ctx s =
      (let (ret, ctx') = readdir ctx (fiber_entries s p) in Some (ret, ctx', alloc_step s))"
    using a find_process_eq [OF inv] base_stuff_eq [OF K a(2) ok(2) m]
    by (simp add: proc_fiber_base_readdir_def)
  moreover have "length (fiber_entries s p) = unat (last_fiber_id p)"
    using length_hash_nodes [OF K ok(2)] by (simp add: fiber_entries_def)
  moreover have "set (map pe_name (fiber_entries s p)) = (\<lambda>fid. dec_nat (unat fid)) ` a_fibers (abs_process K s p)"
  proof -
    have nm: "name (the (live_fiber s f)) = dec_nat (unat (fiber_id (the (live_fiber s f))))" "fkey s f = Some (fiber_id (the (live_fiber s f)))"
      if f: "f \<in> nodes (fibers p)" for f
    proof -
      obtain fb where "live_fiber s f = Some fb" using fibers_okD [OF ok(2) f] by metis
      then show "name (the (live_fiber s f)) = dec_nat (unat (fiber_id (the (live_fiber s f))))"
        "fkey s f = Some (fiber_id (the (live_fiber s f)))"
        using fiber_entry_name [OF ok(2) f] by (simp_all add: fkey_def)
    qed
    have "a_fibers (abs_process K s p) = (\<lambda>f. fiber_id (the (live_fiber s f))) ` nodes (fibers p)"
      using nm(2) by (auto simp: set_eq_iff abs_fibers [OF ok(2)] image_iff)
    then show ?thesis
      using nm(1) walk_nodes(2) [OF K ok(2)] by (auto simp: fiber_entries_def fiber_entry_def image_iff)
  qed
  ultimately show ?thesis using distinct_entry_names [OF K ok(2)] by blast
qed

theorem listing_exact_witness:
  "proc_fiber_base_readdir K0 (\<lambda>c e. (int (length e), c)) (Some task1) () ex3 = Some (3, (), alloc_step ex3)"
proof -
  have "map_option (\<lambda>(a, p, t). (a, last_fiber_id p)) (caller K0 ex3 1 1) = Some (1, 3)" by code_simp
  then obtain a p t where c: "caller K0 ex3 1 1 = Some (a, p, t)" "last_fiber_id p = 3" by auto
  have "proc_of K0 ex3 (task_tgid task1) = Some a" using callerD(7) [OF ex_inv(4) c(1)] by auto
  moreover have "kmalloc_at K0 (allocs ex3) (is_live ex3) = Some 7" by code_simp
  ultimately show ?thesis
    using listing_exact [OF ex_inv(4) K0_ok(1) _ callerD(2) [OF ex_inv(4) c(1)],
        of task1 "\<lambda>c e. (int (length e), c)" "()"] c(2) by auto
qed

lemma alloc_step_views: "caller K (alloc_step s) = caller K s" "ids_left K me (alloc_step s) = ids_left K me s"
proof -
  have "pkey (alloc_step s) = pkey s" "tkey (alloc_step s) = tkey s" by (auto simp: pkey_def tkey_def)
  then have "proc_of K (alloc_step s) = proc_of K s" "thread_of K (alloc_step s) = thread_of K s"
    by (auto simp: proc_of_def thread_of_def)
  then show "caller K (alloc_step s) = caller K s" "ids_left K me (alloc_step s) = ids_left K me s"
    by (simp_all add: caller_def ids_left_def fun_eq_iff)
qed

text \<open>\<^bold>\<open>C35\<close> (listing and creation). The array for a listing is sized before the table is walked, and
  nothing keeps other threads from creating fibers in between. In every consistent state,
  the walk fits the array if nothing happens in between; if a thread of the process
  creates one fiber in between, the walk writes past the end of the array.\<close>

theorem listing_races_creation:
  assumes inv: "kinv K s" and K: "kapi_ok K" and c: "caller K s me tid = Some (a, p, t)" and ids: "ids_left K me s"
    and arr: "base_stuff_array K a s = Some (ents, s1)"
    and new: "do_CreateFiber K me ptr sz func par tid s1 = Some (fid, s2)"
  shows "fid = ucast (last_fiber_id p + 1) \<and> length ents = unat (last_fiber_id p) \<and>
    (\<exists>ents'. base_stuff_fill K a ents s1 = Some ents') \<and> base_stuff_fill K a ents s2 = None"
proof -
  note cd = callerD [OF inv c]
  have ents: "ents = replicate (unat (last_fiber_id p)) zero_entry" "s1 = alloc_step s"
    using arr get_live(1) [OF cd(2), of K] by (auto simp: base_stuff_array_def kmalloc_eq Let_def split: if_splits)
  have inv1: "kinv K s1" using inv_alloc_step [OF inv] ents(2) by simp
  have c1: "caller K s1 me tid = Some (a, p, t)" "ids_left K me s1"
    using c ids by (simp_all add: ents(2) alloc_step_views)
  obtain cur where cur: "tasks s1 me = Some cur" using new by (auto simp: do_CreateFiber_def bind_eq_Some_conv)
  obtain f where f: "fid = next_fid p" "kinv K s2" "caller K s2 me tid = Some (a, add_fiber K p f, t)"
    using after_create [OF inv1 K c1(2) cur c1(1) new] by blast
  note cd2 = callerD [OF f(2,3)]
  have small: "unat (last_fiber_id p) + 1 < 2 ^ 31" using ids cur cd(2,7) by (auto simp: ids_left_def ents(2))
  then have "length (hash_nodes (fibers (add_fiber K p f))) = unat (last_fiber_id p) + 1"
    using length_hash_nodes [OF K cd2(4)] by (simp add: add_fiber_def unat_word_ariths)
  then have "base_stuff_fill K a ents s2 = None"
    using get_live(1) [OF cd2(2), of K] fill_entries_overrun [of ents 0] ents(1) by (simp add: base_stuff_fill_def)
  then show ?thesis using f(1) ents base_stuff_fits [OF K cd(2,4)] by (simp add: next_fid_def)
qed

theorem listing_races_creation_witness:
  "\<exists>ents s1 s2. base_stuff_array K0 1 ex2 = Some (ents, s1) \<and> do_CreateFiber K0 1 65536 4096 555 77 1 s1 = Some (3, s2) \<and>
    base_stuff_fill K0 1 ents s2 = None"
proof -
  have "map_option (\<lambda>(ents, s1). map_option fst (do_CreateFiber K0 1 65536 4096 555 77 1 s1)) (base_stuff_array K0 1 ex2) = Some (Some 3)"
    by code_simp
  then obtain ents s1 s2 where r: "base_stuff_array K0 1 ex2 = Some (ents, s1)" "do_CreateFiber K0 1 65536 4096 555 77 1 s1 = Some (3, s2)"
    by auto
  have "map_option fst (caller K0 ex2 1 1) = Some 1" by code_simp
  then obtain p t where "caller K0 ex2 1 1 = Some (1, p, t)" by auto
  then show ?thesis using listing_races_creation [OF ex_inv(3) K0_ok(1) _ ex_ids(4) r] r by blast
qed

text \<open>Reading the file named by the number of a fiber with a buffer that is
  large enough gives the complete status text of that fiber and then the end of the
  file. The conversion of the name is the kernel's; it is only assumed to read
  decimal numbers back.\<close>

lemma status_read_whole:
  assumes inv: "kinv K s" and a: "proc_of K s (task_tgid tk) = Some a" "live_process s a = Some p"
    and f: "fiber_of K s p fid = Some f" "live_fiber s f = Some fb" and len: "PROC_STAT_LEN \<le> unat len"
    and parse: "\<And>n. n < 2 ^ 64 \<Longrightarrow> kstrtoul (dec_nat n) = Some (of_nat n)"
  shows "\<exists>off. proc_fiber_read K kstrtoul (Some tk) (name fb) (\<lambda>_. True) s len 0 =
      Some (of_nat (length (stat_text fb)), stat_text fb, off) \<and>
    proc_fiber_read K kstrtoul (Some tk) (name fb) (\<lambda>_. True) s len' off = Some (0, [], off)"
proof -
  have ok: "fibers_ok K s a p" using a by (auto simp: proc_of_Some [OF inv] elim: inv_process [OF inv])
  have fn: "f \<in> nodes (fibers p)" "fiber_id fb = fid" using f by (auto simp: fiber_of_Some [OF ok])
  have nm: "name fb = dec_nat (unat fid)" using fiber_entry_name [OF ok fn(1) f(2)] fn(2) by simp
  have "unat fid < 2 ^ 32" using unsigned_less [of fid, where ?'a = nat] by simp
  then have k: "kstrtoul (name fb) = Some (of_nat (unat fid))" unfolding nm by (intro parse) simp
  have u: "ucast (of_nat (unat fid) :: ulong) = fid" by (simp add: word_unat_eq_iff unsigned_ucast_eq take_bit_word_eq_self)
  have tf: "text_file (stat_text fb) (proc_fiber_read K kstrtoul (Some tk) (name fb) (\<lambda>_. True) s)"
    by (rule stat_file [where kstrtoul = kstrtoul and nm = "name fb", OF inv a f k u])
  have "stat_text fb \<noteq> []" by (simp add: stat_text_def)
  then show ?thesis
    using text_file.read_twice [OF tf, of len len'] len length_stat_text [of fb] by auto
qed

text \<open>A conversion with the assumed property: it reads a string of digits.\<close>

definition digits_only :: "string \<Rightarrow> ulong option" where
  "digits_only str = (if str \<noteq> [] \<and> list_all is_digit str then Some (of_nat (digits_val str)) else None)"

lemma digits_only_dec: "digits_only (dec_nat n) = Some (of_nat n)"
  by (auto simp: digits_only_def digits_val_dec_nat list_all_iff dec_nat_digits)

text \<open>A reader with a small buffer is given the beginning of the text again and
  again: the copy does not start at the offset.\<close>

lemma status_read_repeats:
  assumes inv: "kinv K s" and a: "proc_of K s (task_tgid tk) = Some a" "live_process s a = Some p"
    and f: "fiber_of K s p fid = Some f" "live_fiber s f = Some fb" and nm: "kstrtoul nm = Some n" "ucast n = fid"
    and off: "unat off < length (stat_text fb)" and len: "unat len \<le> length (stat_text fb)"
  shows "proc_fiber_read K kstrtoul (Some tk) nm (\<lambda>_. True) s len off =
    Some (len, take (unat len) (stat_text fb), off + len)"
  using proc_read_eq [where kstrtoul = kstrtoul and nm = nm, OF inv a f nm, of "\<lambda>_. True" len off] off len
  by (simp add: Let_def min_absorb1)

lemma added_cases:
  assumes "int pos < int m \<Longrightarrow> hd [int pos - int m..0] = int pos - int m"
  shows "(if pos = m then map (f \<circ> nat) [int pos - int m..0] = [f 0]
     else if m < pos then [int pos - int m..0] = []
     else hd [int pos - int m..0] = int pos - int m \<and> hd [int pos - int m..0] < 0) \<and>
    ((\<forall>i \<in> set [int pos - int m..0]. 0 \<le> i \<and> i < 1) \<longleftrightarrow> m \<le> pos)"
proof (cases "m \<le> pos")
  case False
  then have "int pos - int m \<in> set [int pos - int m..0]" "int pos - int m < 0" by simp_all
  then have "\<not> (\<forall>i \<in> set [int pos - int m..0]. 0 \<le> i \<and> i < 1)" by (metis not_le)
  then show ?thesis using False assms by simp
qed (auto simp: comp_def)

text \<open>\<^bold>\<open>C32\<close> (the added directory). The first reader of a \<^verbatim>\<open>/proc/PID\<close> directory teaches the probe the size of
  the directory, which is taken to be the position that reader has come to. For a process
  with fibers the probe has the kernel's directory reader go on, from the position of its
  own reader, in a range that ends with \<open>additional[0]\<close>. A reader exactly at the end is shown the
  one entry \<open>fibers\<close>, a reader beyond it nothing more; but for a reader that has not come to the
  end, whose buffer was full before, the entries read begin before the array.\<close>

theorem added_directory_range:
  assumes inv: "kinv K s" and a: "proc_task (di regs) = Some tk" "proc_of K s (task_tgid tk) \<noteq> None"
    and n: "n = (if nents = 0 then ucast (ctx_pos (si regs)) else nents)" "2 \<le> unat n"
    and pos: "pos = unat (ctx_pos (si regs))" "2 \<le> pos" and kernel: "pident_readdir_ok looks_at"
  shows "\<exists>start count. proc_insert_dir K proc_task ctx_pos (snd (entry_proc_insert_dir regs)) nents s =
      Some (n, Some (di regs, si regs, start, count)) \<and>
    (if pos = unat n then map ((!) additional \<circ> nat) (looks_at pos start count) =
       [\<lparr>pe_name = ''fibers'', pe_len = 6, pe_mode = 16749, pe_iop = True, pe_fop = Dir_ops\<rparr>]
     else if unat n < pos then looks_at pos start count = []
     else hd (looks_at pos start count) = int pos - int (unat n) \<and> hd (looks_at pos start count) < 0) \<and>
    ((\<forall>i \<in> set (looks_at pos start count). 0 \<le> i \<and> i < int (length additional)) \<longleftrightarrow> unat n \<le> pos)"
proof -
  obtain start count where range: "additional_range n = (start, count)" by fastforce
  have entry: "additional ! 0 = \<lparr>pe_name = ''fibers'', pe_len = 6, pe_mode = 16749, pe_iop = True, pe_fop = Dir_ops\<rparr>"
      "length additional = 1"
    by (simp_all add: additional_def DIR_def NOD_def S_IFDIR_def)
  have call: "proc_insert_dir K proc_task ctx_pos (snd (entry_proc_insert_dir regs)) nents s =
      Some (n, Some (di regs, si regs, start, count))"
    using a range find_process_eq [OF inv, of "task_tgid tk"] unfolding n(1)
    by (auto simp: proc_insert_dir_def entry_proc_insert_dir_def Let_def)
  have looks: "looks_at pos start count = [int pos - int (unat n)..0]"
    using pident_readdirD [OF kernel pos(2), of start count] additional_range_ends [OF n(2)] range by auto
  have "int pos < int (unat n) \<Longrightarrow> hd [int pos - int (unat n)..0] = int pos - int (unat n)"
    using upto_ends [of "int pos - int (unat n)" 0] by linarith
  then have "(if pos = unat n then map ((!) additional \<circ> nat) [int pos - int (unat n)..0] = [additional ! 0]
     else if unat n < pos then [int pos - int (unat n)..0] = []
     else hd [int pos - int (unat n)..0] = int pos - int (unat n) \<and> hd [int pos - int (unat n)..0] < 0) \<and>
    ((\<forall>i \<in> set [int pos - int (unat n)..0]. 0 \<le> i \<and> i < 1) \<longleftrightarrow> unat n \<le> pos)"
    by (rule added_cases)
  then show ?thesis
    by - (rule exI [of _ start], rule exI [of _ count], simp only: call looks entry(1) [symmetric] entry(2) of_nat_1 simp_thms, blast)
qed

definition looks0 :: "nat \<Rightarrow> int \<Rightarrow> int \<Rightarrow> int list" where
  "looks0 pos start count = [start + (int pos - 2)..start + count - 1]"

lemma looks0_ok: "pident_readdir_ok looks0"
  by (simp add: pident_readdir_ok_def looks0_def)

definition regs0 :: pt_regs where
  "regs0 = (user_regs task1)\<lparr>di := 1000, si := 2000\<rparr>"

theorem added_directory_range_witness:
  "\<exists>start count start' count'. proc_insert_dir K0 (\<lambda>_. Some task1) (\<lambda>_. 50) (snd (entry_proc_insert_dir regs0)) 0 ex3 =
     Some (50, Some (1000, 2000, start, count)) \<and> map ((!) additional \<circ> nat) (looks0 50 start count) = additional \<and>
   proc_insert_dir K0 (\<lambda>_. Some task1) (\<lambda>_. 10) (snd (entry_proc_insert_dir regs0)) 50 ex3 =
     Some (50, Some (1000, 2000, start', count')) \<and> hd (looks0 10 start' count') = -40"
proof -
  have "proc_of K0 ex3 (task_tgid task1) \<noteq> None" by code_simp
  note at = added_directory_range [OF ex_inv(4) _ this, of "\<lambda>_. Some task1" regs0, OF refl refl _ refl _ looks0_ok]
  have "di regs0 = 1000" "si regs0 = 2000" by (simp_all add: regs0_def)
  then show ?thesis
    using at [of 0 "\<lambda>_. 50"] at [of 50 "\<lambda>_. 10"] by (auto simp: additional_def DIR_def NOD_def S_IFDIR_def)
qed

text \<open>The look-up probe hands the kernel the range of entries that suits
  the directory reader. It ends with the one entry of the array \<open>additional\<close>, but
  starts before the array whenever \<^verbatim>\<open>/proc/PID\<close> has more than two positions, and a look-up
  compares names from the start of its range: it reads memory that is not an entry.\<close>

lemma lookup_range_before_array:
  assumes inv: "kinv K s" and a: "proc_task (di regs) = Some tk" "proc_of K s (task_tgid tk) \<noteq> None"
    and n: "2 < unat nents" and kernel: "pident_lookup_ok looks_at"
  shows "\<exists>start count. proc_lookup_dir K proc_task (snd (entry_proc_lookup_dir regs)) nents s =
      Some (Some (di regs, si regs, start, count)) \<and>
    last (looks_at start count) = 0 \<and> hd (looks_at start count) = 2 - int (unat nents) \<and> hd (looks_at start count) < 0"
proof -
  have "nents \<noteq> 0" using n by auto
  then have "proc_lookup_dir K proc_task (snd (entry_proc_lookup_dir regs)) nents s =
      Some (Some (di regs, si regs, 2 - int (unat nents), int (unat nents) - 1))"
    using a n additional_range_ends [of nents] find_process_eq [OF inv, of "task_tgid tk"]
    by (auto simp: proc_lookup_dir_def entry_proc_lookup_dir_def)
  moreover have "looks_at (2 - int (unat nents)) (int (unat nents) - 1) = [2 - int (unat nents)..0]"
    using kernel by (simp add: pident_lookup_ok_def)
  moreover have "hd [2 - int (unat nents)..0] = 2 - int (unat nents)" "last [2 - int (unat nents)..0] = 0"
    using n upto_ends [of "2 - int (unat nents)" 0] by linarith+
  moreover have "2 < uint nents" using n unfolding uint_nat by linarith
  ultimately show ?thesis by auto
qed

section \<open>The user library\<close>


lemma strtok_returns_iff: "strtok buf \<noteq> None \<longleftrightarrow> (\<exists>c \<in> set (dropWhile (\<lambda>c. c = newline) buf). c = newline \<or> c = nul)"
proof (cases "dropWhile (\<lambda>c. c = newline) buf")
  case (Cons c r)
  then have "c \<noteq> newline" using hd_dropWhile [of "\<lambda>c. c = newline" buf] by auto
  then show ?thesis
    using Cons dropWhile_eq_Nil_conv [of "\<lambda>c. c \<noteq> newline \<and> c \<noteq> nul" r]
    by (cases "dropWhile (\<lambda>c. c \<noteq> newline \<and> c \<noteq> nul) r") (auto simp: strtok_def simp del: dropWhile_eq_Nil_conv)
qed (simp add: strtok_def del: dropWhile_eq_Nil_conv)

text \<open>\<^bold>\<open>C26\<close> (agreement on the commands). The constructor of the library has two outcomes, and the old contents
  of its buffer behind the message decide. If they have a newline or a NUL behind their
  leading newlines, it ends with exactly the seven command numbers of the module in its
  array, each of which the module recognises as the command of its place; if not, its
  search for one more token reads past the buffer. The reading loop needs two rounds.\<close>

theorem library_reads_commands:
  assumes "length buf = 256" "2 \<le> fuel" "unat major < 4096"
  shows "let tail = dropWhile (\<lambda>c. c = newline) (drop (length (publish_ioctl_message major)) buf) in
    if \<exists>c \<in> set tail. c = newline \<or> c = nul
    then \<exists>L. fiberlib_init fuel (device_read (publish_ioctl_message major)) 0 buf fresh_lib = Some L \<and> fiberlib_initialized L \<and>
      ioctl_numbers L = map (IO_cmd major) [0..<7] \<and> (\<forall>nr < 7. command major (ucast (ioctl_numbers L ! nr)) = Some nr)
    else fiberlib_init fuel (device_read (publish_ioctl_message major)) 0 buf fresh_lib = None"
proof -
  define L where "L = fresh_lib\<lparr>ioctl_numbers := map (IO_cmd major) [0..<7], fiberlib_initialized := True\<rparr>"
  have "lib_ready major L" using assms(3) by (simp add: lib_ready_def L_def)
  then have "\<forall>nr < 7. command major (ucast (ioctl_numbers L ! nr)) = Some nr" using lib_command by blast
  moreover have "fiberlib_initialized L" "ioctl_numbers L = map (IO_cmd major) [0..<7]" by (simp_all add: L_def)
  moreover have "fiberlib_init fuel (device_read (publish_ioctl_message major)) 0 buf fresh_lib =
      (if strtok (drop (length (command_lines major)) buf) = None then None else Some L)"
    using init_from_device [OF assms(1,2), of fresh_lib major] by (simp add: fresh_lib_def L_def)
  ultimately show ?thesis
    unfolding Let_def publish_untruncated strtok_returns_iff [symmetric] by auto
qed

theorem library_reads_commands_witness:
  "\<exists>L. fiberlib_init 2 (device_read (publish_ioctl_message 244)) 0 (replicate 256 nul) fresh_lib = Some L \<and>
    ioctl_numbers L = map (IO_cmd 244) [0..<7]"
proof -
  have "nul \<in> set (dropWhile (\<lambda>c. c = newline) (replicate (256 - length (publish_ioctl_message 244)) nul))"
    using length_command_lines [of 244] by (simp add: publish_untruncated nul_def newline_def)
  then show ?thesis
    using library_reads_commands [of "replicate 256 nul" 2 244] by (auto simp: drop_replicate Let_def split: if_splits)
qed



text \<open>What a program sees of a switch is what the module did: 0 and the
  new context, or -1.\<close>

lemma library_switch:
  assumes "kinv K s" "lib_ready major L" "tasks s me = Some cur" "access_ok u f_at sizeof_fiber_arguments"
  shows "\<exists>r s' u'. do_SwitchToFiber K me fid (task_pid cur) s = Some (r, s') \<and>
    SwitchToFiber K major L me f_at fid u s = Some (r, u', s') \<and> r \<in> {0, -1}"
proof -
  obtain r s' where r: "do_SwitchToFiber K me fid (task_pid cur) s = Some (r, s')" "r = 0 \<or> r = -1"
    using switch_refines [OF assms(1,3), of fid "task_pid cur"] by auto
  have "SwitchToFiber K major L me f_at fid u s = Some (r, put_args f_at (no_args\<lparr>fa_fiber_id := fid\<rparr>) u, s')"
    using lib_ioctl(4) [OF assms(2,3) get_put_args [OF assms(4), of "no_args\<lparr>fa_fiber_id := fid\<rparr>"], of K] r
    by (auto simp: SwitchToFiber_def)
  then show ?thesis using r by auto
qed

text \<open>A value set through the library at an allocated index is
  read back through the library, by way of the memory of the process.\<close>

lemma library_set_get:
  assumes inv: "kinv K s" and L: "lib_ready major L" and cur: "tasks s me = Some cur"
    and r: "running K me (task_pid cur) s = Some (f, fb)" and i: "\<not> bad_index index" "fls_bitmap fb (unat index)"
    and u: "access_ok u f_at sizeof_fiber_arguments" "writable u a_at"
  shows "\<exists>u1 s1 u2. FlsSetValue K major L me f_at v index u s = Some (u1, s1) \<and>
    FlsGetValue K major L me f_at a_at index u1 s1 = Some (v, u2, s1)"
proof -
  let ?s1 = "store s f (OFiber (fls_store_at (unat index) v fb))"
  let ?fa = "no_args\<lparr>fa_index := index, fa_buffer := v\<rparr>" and ?ga = "no_args\<lparr>fa_index := index, fa_buffer := a_at\<rparr>"
  let ?u1 = "put_args f_at ?fa u"
  let ?u2 = "put_args f_at ?ga (?u1\<lparr>cells := (cells ?u1)(a_at \<mapsto> 0)\<rparr>)"
  have lf: "live_fiber s f = Some fb" using running_live [OF r] by blast
  have set: "FlsSetValue K major L me f_at v index u s = Some (?u1, ?s1)"
    using lib_ioctl(7) [OF L cur get_put_args [OF u(1), of ?fa], of K] fls_set_eq [OF inv r] i
    by (simp add: FlsSetValue_def)
  have inv1: "kinv K ?s1" by (rule inv_fiber_frame [OF inv lf]) simp
  have r1: "running K me (task_pid cur) ?s1 = Some (f, fls_store_at (unat index) v fb)" by (rule running_store [OF inv r])
  have "do_FlsGetValue K me index (task_pid cur) ?s1 = Some v"
    using fls_get_eq [OF inv1 r1] i by (simp add: fls_store_at_def)
  moreover have "get_arguments f_at ?u2 = Some ?ga" "writable ?u2 a_at"
    using u by (simp_all add: get_arguments_def put_args_def)
  ultimately have "FlsGetValue K major L me f_at a_at index ?u1 ?s1 =
      Some (v, ?u2\<lparr>cells := (cells ?u2)(a_at \<mapsto> v)\<rparr>, ?s1)"
    using lib_ioctl(6) [OF L, of ?s1 me cur f_at ?u2 ?ga K] cur by (simp add: FlsGetValue_def Let_def)
  then show ?thesis using set by blast
qed

text \<open>Freeing an index through the library reports success when the system call
  itself failed: the -1 of \<open>ioctl\<close> is converted to true.\<close>

lemma library_free_hides_errors:
  assumes "lib_ready major L" "tasks s me = Some cur" "\<not> access_ok u f_at sizeof_fiber_arguments"
  shows "\<exists>u'. FlsFree K major L me f_at index u s = Some (True, u', s)"
proof -
  have "get_arguments f_at (put_args f_at fa u) = None" for fa
    using assms(3) by (simp add: get_arguments_def put_args_def)
  moreover have "libc_result (- EFAULT) = -1" by (simp add: libc_result_def EFAULT_def)
  ultimately show ?thesis
    using lib_command [OF assms(1), of 4]
    by (simp add: FlsFree_def ioctl_libc ioctl_dispatch [OF assms(2)])
qed

end
