(* ===== verification/Proc_Inode.thy ===== *)
theory Proc_Inode
  imports Proc_Probes
begin

text \<open>
  How the handlers under \<^verbatim>\<open>/proc\<close> find the task a file belongs to: the copy of \<open>struct proc_inode\<close>
  and the inline functions of \<^verbatim>\<open>module/kprobes.h\<close> and \<^verbatim>\<open>module/proc.h\<close>, the tables of file
  operations, and the handlers of \<open>Proc_Fs\<close> as the kernel calls them through these tables.

  \<open>get_pid_task\<close> is a function of the kernel and a parameter: from a \<open>struct pid\<close> and the
  state the kernel keeps of its tasks to the task, if there is one, and the new state. That
  none of the handlers drops the reference it takes is not part of the model: they
  contain no call of \<open>put_task_struct\<close>.
\<close>

section \<open>Inodes\<close>

text \<open>The fields before the embedded inode; the \<open>hlist_node\<close> is two pointers.\<close>

record proc_inode =
  pi_pid :: ulong
  pi_fd :: "32 word"
  pi_op :: ulong
  pi_pde :: ulong
  pi_sysctl :: ulong
  pi_sysctl_entry :: ulong
  pi_sysctl_inodes :: "ulong \<times> ulong"
  pi_ns_ops :: ulong

text \<open>The layout of the structure: size and alignment of these fields, and the offset of
  what follows them.\<close>

definition align_up :: "nat \<Rightarrow> nat \<Rightarrow> nat" where
  "align_up al n = (n + al - 1) div al * al"

definition proc_inode_fields :: "(nat \<times> nat) list" where
  "proc_inode_fields = [(8, 8), (4, 4), (8, 8), (8, 8), (8, 8), (8, 8), (16, 8), (8, 8)]"

fun end_of :: "(nat \<times> nat) list \<Rightarrow> nat \<Rightarrow> nat" where
  "end_of [] n = n"
| "end_of ((sz, al) # fs) n = end_of fs (align_up al n + sz)"

definition offsetof_vfs_inode :: nat where
  "offsetof_vfs_inode = align_up 8 (end_of proc_inode_fields 0)"

lemma offsetof_vfs_inode_72: "offsetof_vfs_inode = 72"
  by (simp add: offsetof_vfs_inode_def proc_inode_fields_def align_up_def)

text \<open>\<open>container_of(inode, struct proc_inode, vfs_inode)\<close>\<close>

definition PROC_I :: "ulong \<Rightarrow> ulong" where
  "PROC_I inode = inode - of_nat offsetof_vfs_inode"

text \<open>What the handlers read through pointers: the structures by their address, the inode
  of an open file, and the name in its directory entry.\<close>

record proc_files =
  pf_inodes :: "ulong \<rightharpoonup> proc_inode"
  file_inode :: "ulong \<rightharpoonup> ulong"
  d_name :: "ulong \<Rightarrow> string"

definition proc_pid :: "proc_files \<Rightarrow> ulong \<Rightarrow> ulong option" where
  "proc_pid V inode = map_option pi_pid (pf_inodes V (PROC_I inode))"

definition get_proc_task :: "(ulong \<Rightarrow> 'r \<Rightarrow> task option \<times> 'r) \<Rightarrow> proc_files \<Rightarrow> ulong \<Rightarrow> 'r \<Rightarrow> (task option \<times> 'r) option" where
  "get_proc_task get_pid_task V inode refs = do {
     pid \<leftarrow> proc_pid V inode;
     Some (get_pid_task pid refs) }"

text \<open>\<open>get_pid_task(proc_pid(file_inode(file)), PIDTYPE_PID)\<close>\<close>

definition file_task :: "(ulong \<Rightarrow> 'r \<Rightarrow> task option \<times> 'r) \<Rightarrow> proc_files \<Rightarrow> ulong \<Rightarrow> 'r \<Rightarrow> (task option \<times> 'r) option" where
  "file_task get_pid_task V file refs = do {
     inode \<leftarrow> file_inode V file;
     get_proc_task get_pid_task V inode refs }"

section \<open>Tables of operations\<close>

datatype fop = Generic_read_dir | Generic_file_llseek | Proc_fiber_base_readdir | Proc_fiber_read

record file_operations =
  fo_read :: "fop option"
  fo_iterate_shared :: "fop option"
  fo_llseek :: "fop option"

datatype iop = Proc_fiber_base_lookup

record inode_operations =
  io_lookup :: "iop option"

definition file_ops :: file_operations where
  "file_ops = \<lparr>fo_read = Some Generic_read_dir, fo_iterate_shared = Some Proc_fiber_base_readdir,
     fo_llseek = Some Generic_file_llseek\<rparr>"

definition inode_ops :: inode_operations where
  "inode_ops = \<lparr>io_lookup = Some Proc_fiber_base_lookup\<rparr>"

definition f_fops :: file_operations where
  "f_fops = \<lparr>fo_read = Some Proc_fiber_read, fo_iterate_shared = None, fo_llseek = None\<rparr>"

text \<open>The tables the entries of \<open>Proc_Fs\<close> point at.\<close>

fun fop_table :: "Proc_Fs.file_ops \<Rightarrow> file_operations option" where
  "fop_table No_ops = None"
| "fop_table F_fops = Some f_fops"
| "fop_table Dir_ops = Some file_ops"

definition iop_table :: "pid_entry \<Rightarrow> inode_operations option" where
  "iop_table e = (if pe_iop e then Some inode_ops else None)"

section \<open>The handlers as the kernel calls them\<close>

definition ENOTDIR :: int where "ENOTDIR = 20"
definition EISDIR :: long where "EISDIR = 21"

text \<open>Without an operation in the table the kernel answers itself; \<open>generic_read_dir\<close> is its
  refusal to read a directory.\<close>

definition vfs_iterate where
  "vfs_iterate K readdir get_pid_task V ops file ctx refs s = (case fo_iterate_shared ops of
       Some Proc_fiber_base_readdir \<Rightarrow> do {
         (task, refs) \<leftarrow> file_task get_pid_task V file refs;
         (ret, ctx, s) \<leftarrow> proc_fiber_base_readdir K readdir task ctx s;
         Some (ret, ctx, refs, s) }
     | _ \<Rightarrow> Some (- ENOTDIR, ctx, refs, s))"

definition vfs_lookup where
  "vfs_lookup K look get_pid_task V ops dir refs s = (case io_lookup ops of
       Some Proc_fiber_base_lookup \<Rightarrow> do {
         (task, refs) \<leftarrow> get_proc_task get_pid_task V dir refs;
         (d, s) \<leftarrow> proc_fiber_base_lookup K look task s;
         Some (d, refs, s) }
     | None \<Rightarrow> Some (Derr (- ENOTDIR), refs, s))"

definition vfs_read where
  "vfs_read K kstrtoul get_pid_task V ops file copies refs s len off = (case fo_read ops of
       Some Proc_fiber_read \<Rightarrow> do {
         (task, refs) \<leftarrow> file_task get_pid_task V file refs;
         (r, bytes, off) \<leftarrow> proc_fiber_read K kstrtoul task (d_name V file) copies s len off;
         Some (r, bytes, off, refs) }
     | Some Generic_read_dir \<Rightarrow> Some (- EISDIR, [], off, refs)
     | _ \<Rightarrow> Some (- EINVAL, [], off, refs))"

end
