(* ===== verification/Proc_Props.thy ===== *)
theory Proc_Props
  imports Proc_Inode Interface_Props
begin

text \<open>
  Properties of the files under \<^verbatim>\<open>/proc\<close> as the kernel reaches them through their inodes and
  tables of operations.
\<close>

section \<open>Files of a process\<close>

text \<open>The directory \<open>fibers\<close> of process 1 and the file of its fiber 2.\<close>

definition some_inode :: "ulong \<Rightarrow> proc_inode" where
  "some_inode pid = \<lparr>pi_pid = pid, pi_fd = 0, pi_op = 0, pi_pde = 0, pi_sysctl = 0, pi_sysctl_entry = 0,
     pi_sysctl_inodes = (0, 0), pi_ns_ops = 0\<rparr>"

definition V0 :: proc_files where
  "V0 = \<lparr>pf_inodes = [928 \<mapsto> some_inode 5, 1928 \<mapsto> some_inode 5], file_inode = [10 \<mapsto> 1000, 20 \<mapsto> 2000],
     d_name = (\<lambda>f. if f = 20 then ''2'' else ''fibers'')\<rparr>"

definition get_pid_task0 :: "ulong \<Rightarrow> (pid_t \<Rightarrow> nat) \<Rightarrow> task option \<times> (pid_t \<Rightarrow> nat)" where
  "get_pid_task0 pid refs = (if pid = 5 then (Some task1, refs(1 := Suc (refs 1))) else (None, refs))"

lemma V0_files: "file_inode V0 10 = Some 1000" "file_inode V0 20 = Some 2000" "proc_pid V0 1000 = Some 5" "proc_pid V0 2000 = Some 5"
  by (simp_all add: V0_def proc_pid_def PROC_I_def offsetof_vfs_inode_72 some_inode_def)

text \<open>\<^bold>\<open>C31\<close> (names and files). The entries that listing the directory \<open>fibers\<close> of a process shows are its
  fibers, and each can be opened by its name: the table of operations of the entry
  leads a read to the complete status text of the very fiber that the entry stands
  for, while the directory itself cannot be read.\<close>

theorem listed_names_readable:
  assumes inv: "kinv K s" and K: "kapi_ok K" and a: "proc_of K s (task_tgid tk) = Some a" "live_process s a = Some p"
    and m: "kmalloc_at K (allocs s) (is_live s) \<noteq> NULL" and dir: "file_task get_pid_task V dir refs = Some (Some tk, refs1)"
    and len: "PROC_STAT_LEN \<le> unat len" and parse: "\<And>n. n < 2 ^ 64 \<Longrightarrow> kstrtoul (dec_nat n) = Some (of_nat n)"
  shows "\<exists>ents ops. fop_table (pe_fop (hd additional)) = Some ops \<and>
    vfs_iterate K readdir get_pid_task V ops dir ctx refs s = (let (ret, ctx') = readdir ctx ents in Some (ret, ctx', refs1, alloc_step s)) \<and>
    vfs_read K kstrtoul get_pid_task V ops dir (\<lambda>_. True) refs s len 0 = Some (- EISDIR, [], 0, refs) \<and>
    (\<forall>e \<in> set ents. \<exists>ops f fb. fop_table (pe_fop e) = Some ops \<and> f \<in> nodes (fibers p) \<and> live_fiber s f = Some fb \<and> pe_name e = name fb \<and>
      (\<forall>file refs refs'. d_name V file = pe_name e \<longrightarrow> file_task get_pid_task V file refs = Some (Some tk, refs') \<longrightarrow>
        (\<exists>off. vfs_read K kstrtoul get_pid_task V ops file (\<lambda>_. True) refs s len 0 =
          Some (of_nat (length (stat_text fb)), stat_text fb, off, refs'))))"
proof -
  have ok: "fibers_ok K s a p" using a by (auto simp: proc_of_Some [OF inv] elim: inv_process [OF inv])
  have list: "vfs_iterate K readdir get_pid_task V file_ops dir ctx refs s =
      (let (ret, ctx') = readdir ctx (fiber_entries s p) in Some (ret, ctx', refs1, alloc_step s))"
    using a dir find_process_eq [OF inv] base_stuff_eq [OF K a(2) ok m]
    by (simp add: vfs_iterate_def file_ops_def proc_fiber_base_readdir_def split_def Let_def)
  have "\<exists>ops f fb. fop_table (pe_fop e) = Some ops \<and> f \<in> nodes (fibers p) \<and> live_fiber s f = Some fb \<and> pe_name e = name fb \<and>
      (\<forall>file refs refs'. d_name V file = pe_name e \<longrightarrow> file_task get_pid_task V file refs = Some (Some tk, refs') \<longrightarrow>
        (\<exists>off. vfs_read K kstrtoul get_pid_task V ops file (\<lambda>_. True) refs s len 0 =
          Some (of_nat (length (stat_text fb)), stat_text fb, off, refs')))" if e: "e \<in> set (fiber_entries s p)" for e
  proof -
    obtain f where f: "f \<in> nodes (fibers p)" "e = fiber_entry (the (live_fiber s f))"
      using e walk_nodes(2) [OF K ok] by (auto simp: fiber_entries_def)
    obtain fb where fb: "live_fiber s f = Some fb" using fibers_okD [OF ok f(1)] by metis
    have of: "fiber_of K s p (fiber_id fb) = Some f" using f(1) fb by (auto simp: fiber_of_Some [OF ok])
    obtain off where "proc_fiber_read K kstrtoul (Some tk) (name fb) (\<lambda>_. True) s len 0 =
        Some (of_nat (length (stat_text fb)), stat_text fb, off)"
      using status_read_whole [OF inv a of fb len parse] by blast
    then show ?thesis using f fb by (auto simp: fiber_entry_def vfs_read_def f_fops_def)
  qed
  moreover have "fop_table (pe_fop (hd additional)) = Some file_ops" by (simp add: additional_def DIR_def NOD_def)
  moreover have "vfs_read K kstrtoul get_pid_task V file_ops dir (\<lambda>_. True) refs s len 0 = Some (- EISDIR, [], 0, refs)"
    by (simp add: vfs_read_def file_ops_def)
  ultimately show ?thesis using list by blast
qed

lemma ex3_process: "proc_of K0 ex3 (task_tgid task1) = Some 1" "live_process ex3 1 \<noteq> None" "kmalloc_at K0 (allocs ex3) (is_live ex3) \<noteq> NULL"
proof -
  show "proc_of K0 ex3 (task_tgid task1) = Some 1" by code_simp
  have "map_option last_fiber_id (live_process ex3 1) = Some 3" by code_simp
  then show "live_process ex3 1 \<noteq> None" by auto
  have "kmalloc_at K0 (allocs ex3) (is_live ex3) = Some 7" by code_simp
  then show "kmalloc_at K0 (allocs ex3) (is_live ex3) \<noteq> NULL" by simp
qed

lemma V0_task: "f = 10 \<or> f = 20 \<Longrightarrow> file_task get_pid_task0 V0 f refs = Some (Some task1, refs(1 := Suc (refs 1)))"
  using V0_files by (auto simp: file_task_def get_proc_task_def get_pid_task0_def)

theorem listed_names_readable_witness:
  "\<exists>ents. vfs_iterate K0 (\<lambda>c e. (int (length e), e)) get_pid_task0 V0 file_ops 10 [] (\<lambda>_. 1) ex3 =
      Some (int (length ents), ents, (\<lambda>_. 1)(1 := 2), alloc_step ex3) \<and>
    (\<forall>e \<in> set ents. pe_name e = ''2'' \<longrightarrow> (\<exists>ops fb off. fop_table (pe_fop e) = Some ops \<and> name fb = ''2'' \<and>
      vfs_read K0 digits_only get_pid_task0 V0 ops 20 (\<lambda>_. True) (\<lambda>_. 1) ex3 512 0 =
        Some (of_nat (length (stat_text fb)), stat_text fb, off, (\<lambda>_. 1)(1 := 2))))"
proof -
  obtain p where p: "live_process ex3 1 = Some p" using ex3_process(2) by blast
  have t: "file_task get_pid_task0 V0 10 (\<lambda>_. 1) = Some (Some task1, (\<lambda>_. 1)(1 := 2))"
      "file_task get_pid_task0 V0 20 (\<lambda>_. 1) = Some (Some task1, (\<lambda>_. 1)(1 := 2))"
    using V0_task [of 10 "\<lambda>_. 1"] V0_task [of 20 "\<lambda>_. 1"] by (simp_all add: numeral_2_eq_2)
  have d: "d_name V0 20 = ''2''" by (simp add: V0_def)
  have len: "PROC_STAT_LEN \<le> unat (512 :: ulong)" by (simp add: PROC_STAT_LEN_def)
  note R = listed_names_readable [OF ex_inv(4) K0_ok(1) ex3_process(1) p ex3_process(3) t(1) len digits_only_dec,
      of "\<lambda>c e. (int (length e), e)" "[]", unfolded Let_def prod.case]
  obtain ents ops where r: "fop_table (pe_fop (hd additional)) = Some ops"
      "vfs_iterate K0 (\<lambda>c e. (int (length e), e)) get_pid_task0 V0 ops 10 [] (\<lambda>_. 1) ex3 =
        Some (int (length ents), ents, (\<lambda>_. 1)(1 := 2), alloc_step ex3)"
      "\<forall>e \<in> set ents. \<exists>ops f fb. fop_table (pe_fop e) = Some ops \<and> f \<in> nodes (fibers p) \<and> live_fiber ex3 f = Some fb \<and> pe_name e = name fb \<and>
        (\<forall>file refs refs'. d_name V0 file = pe_name e \<longrightarrow> file_task get_pid_task0 V0 file refs = Some (Some task1, refs') \<longrightarrow>
          (\<exists>off. vfs_read K0 digits_only get_pid_task0 V0 ops file (\<lambda>_. True) refs ex3 512 0 =
            Some (of_nat (length (stat_text fb)), stat_text fb, off, refs')))"
    using R by (elim exE conjE) (rule that)
  have o: "ops = file_ops" using r(1) by (simp add: additional_def DIR_def NOD_def)
  have "\<exists>ops fb off. fop_table (pe_fop e) = Some ops \<and> name fb = ''2'' \<and>
      vfs_read K0 digits_only get_pid_task0 V0 ops 20 (\<lambda>_. True) (\<lambda>_. 1) ex3 512 0 =
        Some (of_nat (length (stat_text fb)), stat_text fb, off, (\<lambda>_. 1)(1 := 2))" if e: "e \<in> set ents" "pe_name e = ''2''" for e
  proof -
    obtain ops fb where f: "fop_table (pe_fop e) = Some ops" "pe_name e = name fb"
        "\<forall>file refs refs'. d_name V0 file = pe_name e \<longrightarrow> file_task get_pid_task0 V0 file refs = Some (Some task1, refs') \<longrightarrow>
          (\<exists>off. vfs_read K0 digits_only get_pid_task0 V0 ops file (\<lambda>_. True) refs ex3 512 0 =
            Some (of_nat (length (stat_text fb)), stat_text fb, off, refs'))"
      using r(3) e(1) by blast
    then show ?thesis using f(3) [rule_format, OF _ t(2)] d e(2) by auto
  qed
  then show ?thesis using r(2) unfolding o by blast
qed

end
