(* ===== verification/Fiber_Steps.thy ===== *)
theory Fiber_Steps
  imports Fiber_System
begin

text \<open>
  The switch and the conversion of \<^verbatim>\<open>module/fibers.c\<close> cut into the steps between which
  other processors can act: a step reads or writes the fields two threads can
  both see (lock, attached thread, selected fiber, tables) at most once. The
  program counters carry the local variables of the C functions. Executed without
  interruption, the steps are the functions of \<open>Fiber_Ops\<close>.
\<close>

section \<open>The switch\<close>

datatype switch_pc =
    S_find pid_t pid_t \<comment> \<open>the three look-ups\<close>
  | S_trylock addr addr
  | S_check addr addr \<comment> \<open>the second disjunct: is the fiber attached?\<close>
  | S_fail addr
  | S_attach addr addr
  | S_count addr addr
  | S_select addr addr
  | S_save addr addr addr
  | S_detach addr addr addr
  | S_unlock addr addr addr
  | S_restore addr addr
  | S_return long

fun switch_step :: "kapi \<Rightarrow> pid_t \<Rightarrow> switch_pc \<Rightarrow> kstate \<Rightarrow> (switch_pc \<times> kstate) option" where
  "switch_step K me (S_find fid tid) s = do {
     cur \<leftarrow> tasks s me;
     ep \<leftarrow> find_process_by_tgid K (task_tgid cur) s;
     (case ep of None \<Rightarrow> Some (S_return (-1), s)
      | Some ep \<Rightarrow> do {
          tp \<leftarrow> find_thread_by_pid K tid ep s;
          (case tp of None \<Rightarrow> Some (S_return (-1), s)
           | Some tp \<Rightarrow> do {
               f \<leftarrow> find_fiber_by_id K fid ep s;
               (case f of None \<Rightarrow> Some (S_return (-1), s)
                | Some f \<Rightarrow> Some (S_trylock tp f, s)) }) }) }"
| "switch_step K me (S_trylock tp f) s = do {
     (locked, s) \<leftarrow> spin_trylock K f s;
     Some (if locked then S_check tp f else S_fail f, s) }"
| "switch_step K me (S_check tp f) s = do {
     fb \<leftarrow> get_fiber K s f;
     Some (if attached_thread fb \<noteq> NULL then S_fail f else S_attach tp f, s) }"
| "switch_step K me (S_fail f) s = do {
     s \<leftarrow> upd_fiber s f (\<lambda>x. x\<lparr>failed_activation_counter := failed_activation_counter x + 1\<rparr>);
     Some (S_return (-1), s) }"
| "switch_step K me (S_attach tp f) s = do {
     s \<leftarrow> upd_fiber s f (\<lambda>x. x\<lparr>attached_thread := Some tp\<rparr>);
     Some (S_count tp f, s) }"
| "switch_step K me (S_count tp f) s = do {
     s \<leftarrow> upd_fiber s f (\<lambda>x. x\<lparr>activation_counter := activation_counter x + 1\<rparr>);
     Some (S_select tp f, s) }"
| "switch_step K me (S_select tp f) s = do {
     t \<leftarrow> get_thread K s tp;
     let prev = selected_fiber t;
     s \<leftarrow> upd_thread s tp (\<lambda>t. t\<lparr>selected_fiber := Some f\<rparr>);
     prev_fiber \<leftarrow> prev;
     Some (S_save tp prev_fiber f, s) }"
| "switch_step K me (S_save tp prev_fiber f) s = do {
     cur \<leftarrow> tasks s me;
     s \<leftarrow> upd_fiber s prev_fiber (\<lambda>x. x\<lparr>total_time := total_time x + utime cur,
       registers := user_regs cur, fpu := fx cur\<rparr>);
     Some (S_detach tp prev_fiber f, s) }"
| "switch_step K me (S_detach tp prev_fiber f) s = do {
     s \<leftarrow> upd_fiber s prev_fiber (\<lambda>x. x\<lparr>attached_thread := NULL\<rparr>);
     Some (S_unlock tp prev_fiber f, s) }"
| "switch_step K me (S_unlock tp prev_fiber f) s = do {
     s \<leftarrow> upd_fiber s prev_fiber (\<lambda>x. x\<lparr>fiber_lock := False\<rparr>);
     Some (S_restore tp f, s) }"
| "switch_step K me (S_restore tp f) s = do {
     cur \<leftarrow> tasks s me;
     fb \<leftarrow> get_fiber K s f;
     Some (S_return 0, set_task s me (cur\<lparr>user_regs := registers fb, fx := fpu fb\<rparr>)) }"
| "switch_step K me (S_return r) s = Some (S_return r, s)"

section \<open>The conversion\<close>

text \<open>The look-up or creation of the process structure is protected by
  \<open>struct_process_lock\<close> and is one step; so are the constructors, at whose end the
  new object is in its table.\<close>

datatype convert_pc =
    C_process pid_t
  | C_find addr pid_t
  | C_thread addr pid_t
  | C_fiber addr addr
  | C_regs addr addr
  | C_attach addr addr
  | C_select addr addr
  | C_trylock addr addr
  | C_return pid_t

fun convert_step :: "kapi \<Rightarrow> pid_t \<Rightarrow> convert_pc \<Rightarrow> kstate \<Rightarrow> (convert_pc \<times> kstate) option" where
  "convert_step K me (C_process tid) s = do {
     cur \<leftarrow> tasks s me;
     s \<leftarrow> spin_lock_struct_process s;
     ep \<leftarrow> find_process_by_tgid K (task_tgid cur) s;
     (ep, s) \<leftarrow> (case ep of None \<Rightarrow> init_process K me s | Some ep \<Rightarrow> Some (ep, s));
     Some (C_find ep tid, spin_unlock_struct_process s) }"
| "convert_step K me (C_find ep tid) s = do {
     gp \<leftarrow> find_thread_by_pid K tid ep s;
     (case gp of Some gp \<Rightarrow> Some (C_return (-1), s) | None \<Rightarrow> Some (C_thread ep tid, s)) }"
| "convert_step K me (C_thread ep tid) s = do {
     (gp, s) \<leftarrow> init_thread K ep tid s;
     Some (C_fiber ep gp, s) }"
| "convert_step K me (C_fiber ep gp) s = do {
     (fp, s) \<leftarrow> init_fiber K me ep (-1) 0 s;
     Some (C_regs gp fp, s) }"
| "convert_step K me (C_regs gp fp) s = do {
     cur \<leftarrow> tasks s me;
     s \<leftarrow> upd_fiber s fp (\<lambda>f. f\<lparr>registers := (registers f)\<lparr>sp := sp (user_regs cur), bp := bp (user_regs cur)\<rparr>\<rparr>);
     s \<leftarrow> upd_fiber s fp (\<lambda>f. f\<lparr>activation_counter := activation_counter f + 1\<rparr>);
     Some (C_attach gp fp, s) }"
| "convert_step K me (C_attach gp fp) s = do {
     s \<leftarrow> upd_fiber s fp (\<lambda>f. f\<lparr>attached_thread := Some gp\<rparr>);
     Some (C_select gp fp, s) }"
| "convert_step K me (C_select gp fp) s = do {
     s \<leftarrow> upd_thread s gp (\<lambda>t. t\<lparr>selected_fiber := Some fp\<rparr>);
     Some (C_trylock gp fp, s) }"
| "convert_step K me (C_trylock gp fp) s = do {
     (locked, s) \<leftarrow> spin_trylock K fp s;
     f \<leftarrow> get_fiber K s fp;
     Some (C_return (if locked then fiber_id f else -1), s) }"
| "convert_step K me (C_return r) s = Some (C_return r, s)"

section \<open>Without interruption\<close>

fun run_steps :: "('pc \<Rightarrow> kstate \<Rightarrow> ('pc \<times> kstate) option) \<Rightarrow> nat \<Rightarrow> 'pc \<Rightarrow> kstate \<Rightarrow> ('pc \<times> kstate) option" where
  "run_steps step 0 pc s = Some (pc, s)"
| "run_steps step (Suc n) pc s = do { (pc, s) \<leftarrow> step pc s; run_steps step n pc s }"

lemma run_stuck: "step pc s = Some (pc, s) \<Longrightarrow> run_steps step n pc s = Some (pc, s)"
  by (induction n) simp_all

lemma run_returned [simp]:
  "run_steps (switch_step K me) n (S_return r) s = Some (S_return r, s)"
  "run_steps (convert_step K me) n (C_return q) s = Some (C_return q, s)"
  by (simp_all add: run_stuck)

lemma upd_fiber_twice:
  "upd_fiber s f g \<bind> (\<lambda>s. upd_fiber s f h \<bind> k) = upd_fiber s f (\<lambda>x. h (g x)) \<bind> k"
  by (cases "live_fiber s f") (simp_all add: upd_fiber_def live_simps)


text \<open>The updates leave the tasks alone, so that it does not matter when they are read.\<close>

lemma upd_tasks:
  "upd_fiber s f g \<bind> (\<lambda>s'. tasks s' me \<bind> k s') = tasks s me \<bind> (\<lambda>cur. upd_fiber s f g \<bind> (\<lambda>s'. k s' cur))"
  "upd_thread s t h \<bind> (\<lambda>s'. tasks s' me \<bind> k s') = tasks s me \<bind> (\<lambda>cur. upd_thread s t h \<bind> (\<lambda>s'. k s' cur))"
  by (cases "live_fiber s f"; cases "live_thread s t"; simp add: upd_fiber_def upd_thread_def; cases "tasks s me"; simp)+

lemma upd_tasks_eq:
  "upd_fiber s f g = Some s' \<Longrightarrow> tasks s' = tasks s" "upd_thread s t h = Some s' \<Longrightarrow> tasks s' = tasks s"
  by (auto simp: upd_fiber_def upd_thread_def bind_eq_Some_conv)

lemma switch_save:
  "run_steps (switch_step K me) (Suc (Suc (Suc (Suc n)))) (S_save tp prev f) s = tasks s me \<bind> (\<lambda>cur.
     upd_fiber s prev (\<lambda>x. x\<lparr>total_time := total_time x + utime cur, registers := user_regs cur, fpu := fx cur\<rparr>) \<bind> (\<lambda>s.
     upd_fiber s prev (\<lambda>x. x\<lparr>attached_thread := NULL, fiber_lock := False\<rparr>) \<bind> (\<lambda>s.
     get_fiber K s f \<bind> (\<lambda>fb. Some (S_return 0, set_task s me (cur\<lparr>user_regs := registers fb, fx := fpu fb\<rparr>))))))"
  by (cases "tasks s me") (simp_all add: upd_fiber_twice upd_tasks)

lemma switch_tail:
  "run_steps (switch_step K me) (Suc (Suc (Suc (Suc (Suc (Suc (Suc n))))))) (S_attach tp f) s =
     map_option (\<lambda>(r, s). (S_return r, s)) (switch_to K me tp f s)"
proof (cases "upd_fiber s f (\<lambda>x. x\<lparr>attached_thread := Some tp, activation_counter := activation_counter x + 1\<rparr>)")
  case None
  then show ?thesis by (cases "tasks s me") (simp_all add: switch_to_def upd_fiber_twice)
next
  case (Some s1)
  have t1: "tasks s1 = tasks s" by (rule upd_tasks_eq(1) [OF Some])
  have "run_steps (switch_step K me) (Suc (Suc (Suc (Suc (Suc n))))) (S_select tp f) s1 =
      map_option (\<lambda>(r, s). (S_return r, s)) (switch_to K me tp f s)"
    using Some t1 by (auto simp: switch_to_def switch_save Let_def upd_tasks_eq map_option_bind
        simp del: run_steps.simps(2) simp: run_steps.simps(2) [of _ "Suc (Suc (Suc (Suc n)))"] split: option.split bind_splits)
  then show ?thesis using Some by (simp add: upd_fiber_twice)
qed


lemma trylock_get:
  assumes "spin_trylock K f s = Some (l, s')"
  obtains fb where "get_fiber K s' f = Some fb"
  using assms by (auto simp: spin_trylock_def upd_fiber_def bind_eq_Some_conv)

lemma switch_try:
  "run_steps (switch_step K me) (Suc (Suc (Suc (Suc (Suc (Suc (Suc (Suc (Suc n))))))))) (S_trylock tp f) s =
     map_option (\<lambda>(r, s). (S_return r, s)) (do {
       (locked, s) \<leftarrow> spin_trylock K f s;
       fb \<leftarrow> get_fiber K s f;
       if \<not> locked \<or> attached_thread fb \<noteq> NULL then do {
         s \<leftarrow> upd_fiber s f (\<lambda>x. x\<lparr>failed_activation_counter := failed_activation_counter x + 1\<rparr>);
         Some (-1, s) }
       else switch_to K me tp f s })"
proof (cases "spin_trylock K f s")
  case (Some ls)
  then obtain l s1 where ls: "spin_trylock K f s = Some (l, s1)" by (cases ls) auto
  obtain fb where fb: "get_fiber K s1 f = Some fb" using trylock_get [OF ls] .
  show ?thesis
  proof (cases "l \<and> attached_thread fb = NULL")
    case True
    then show ?thesis using ls fb switch_tail [of K me n tp f s1] by simp
  next
    case False
    then show ?thesis
      using ls fb
      by (cases "upd_fiber s1 f (\<lambda>x. x\<lparr>failed_activation_counter := failed_activation_counter x + 1\<rparr>)") auto
  qed
qed simp

lemma switch_steps:
  "run_steps (switch_step K me) (Suc (Suc (Suc (Suc (Suc (Suc (Suc (Suc (Suc (Suc n)))))))))) (S_find fid tid) s =
     map_option (\<lambda>(r, s). (S_return r, s)) (do_SwitchToFiber K me fid tid s)"
  unfolding run_steps.simps(2) [of _ _ "S_find fid tid"]
  by (auto simp: do_SwitchToFiber_def switch_try simp del: run_steps.simps(2) split: option.split bind_splits)


lemma init_tasks:
  "init_process K me s = Some (a, s') \<Longrightarrow> tasks s' = tasks s"
  "init_thread K ep tid s = Some (a, s') \<Longrightarrow> tasks s' = tasks s"
  "init_fiber K me ep ss sptr s = Some (a, s') \<Longrightarrow> tasks s' = tasks s"
  by (auto simp: init_process_def init_thread_def init_fiber_def kmalloc_def upd_process_def bind_eq_Some_conv Let_def)

lemma convert_tail:
  "run_steps (convert_step K me) (Suc (Suc (Suc (Suc n)))) (C_regs gp fp) s =
     map_option (\<lambda>(r, s). (C_return r, s)) (do {
       cur \<leftarrow> tasks s me;
       s \<leftarrow> upd_fiber s fp (\<lambda>f. f\<lparr>registers := (registers f)\<lparr>sp := sp (user_regs cur), bp := bp (user_regs cur)\<rparr>\<rparr>);
       s \<leftarrow> upd_fiber s fp (\<lambda>f. f\<lparr>activation_counter := activation_counter f + 1\<rparr>);
       s \<leftarrow> upd_fiber s fp (\<lambda>f. f\<lparr>attached_thread := Some gp\<rparr>);
       s \<leftarrow> upd_thread s gp (\<lambda>t. t\<lparr>selected_fiber := Some fp\<rparr>);
       (locked, s) \<leftarrow> spin_trylock K fp s;
       f \<leftarrow> get_fiber K s fp;
       Some (if locked then fiber_id f else -1, s) })"
  by (cases "tasks s me") (auto simp: map_option_bind upd_fiber_twice split: bind_splits)

lemma convert_new_steps:
  assumes "tasks s me = Some cur"
  shows "run_steps (convert_step K me) (Suc (Suc (Suc (Suc (Suc (Suc n)))))) (C_thread ep tid) s =
    map_option (\<lambda>(r, s). (C_return r, s)) (do {
      (gp, s) \<leftarrow> init_thread K ep tid s;
      (fp, s) \<leftarrow> init_fiber K me ep (-1) 0 s;
      s \<leftarrow> upd_fiber s fp (\<lambda>f. f\<lparr>registers := (registers f)\<lparr>sp := sp (user_regs cur), bp := bp (user_regs cur)\<rparr>\<rparr>);
      s \<leftarrow> upd_fiber s fp (\<lambda>f. f\<lparr>activation_counter := activation_counter f + 1\<rparr>);
      s \<leftarrow> upd_fiber s fp (\<lambda>f. f\<lparr>attached_thread := Some gp\<rparr>);
      s \<leftarrow> upd_thread s gp (\<lambda>t. t\<lparr>selected_fiber := Some fp\<rparr>);
      (locked, s) \<leftarrow> spin_trylock K fp s;
      f \<leftarrow> get_fiber K s fp;
      Some (if locked then fiber_id f else -1, s) })"
proof (cases "init_thread K ep tid s")
  case (Some r)
  then obtain gp s1 where r: "init_thread K ep tid s = Some (gp, s1)" by (cases r) auto
  have s1: "tasks s1 me = Some cur" using init_tasks(2) [OF r] assms by simp
  show ?thesis
  proof (cases "init_fiber K me ep (-1) 0 s1")
    case (Some q)
    then obtain fp s2 where q: "init_fiber K me ep (-1) 0 s1 = Some (fp, s2)" by (cases q) auto
    have s2: "tasks s2 me = Some cur" using init_tasks(3) [OF q] s1 by simp
    show ?thesis using r q s2 convert_tail [of K me n gp fp s2]
      by (simp del: run_steps.simps(2) add: run_steps.simps(2) [of _ _ "C_thread ep tid"] run_steps.simps(2) [of _ _ "C_fiber ep gp"])
  qed (use r in simp)
qed simp

lemma convert_steps:
  "run_steps (convert_step K me) (Suc (Suc (Suc (Suc (Suc (Suc (Suc (Suc n)))))))) (C_process tid) s =
     map_option (\<lambda>(r, s). (C_return r, s)) (do_ConvertThreadToFiber K me tid s)"
proof (cases "convert_step K me (C_process tid) s")
  case None
  then have "do_ConvertThreadToFiber K me tid s = None"
    by (auto simp: do_ConvertThreadToFiber_def split: bind_splits)
  then show ?thesis using None by (simp del: convert_step.simps(1))
next
  case (Some r)
  then obtain cur s0 e ep s2 where o: "tasks s me = Some cur" "spin_lock_struct_process s = Some s0"
      "find_process_by_tgid K (task_tgid cur) s0 = Some e"
      "(case e of None \<Rightarrow> init_process K me s0 | Some ep \<Rightarrow> Some (ep, s0)) = Some (ep, s2)"
    by (auto simp: bind_eq_Some_conv)
  let ?s1 = "spin_unlock_struct_process s2"
  have c: "convert_step K me (C_process tid) s = Some (C_find ep tid, ?s1)"
      "do_ConvertThreadToFiber K me tid s = convert_thread K me ep tid ?s1"
    using o by (simp_all add: do_ConvertThreadToFiber_def Let_def)
  have "tasks s2 = tasks s"
    using o by (cases e) (auto simp: spin_lock_struct_process_def split: if_splits dest: init_tasks)
  then have cur: "tasks ?s1 me = Some cur" using o(1) by (simp add: spin_unlock_struct_process_def)
  show ?thesis
  proof (cases "find_thread_by_pid K tid ep ?s1")
    case None
    then show ?thesis using c cur
      by (simp del: convert_step.simps(1) add: convert_thread_def)
  next
    case (Some gp)
    then show ?thesis using c(1,2) cur convert_new_steps [OF cur, of K n ep tid]
      by (cases gp) (simp_all del: convert_step.simps(1) run_steps.simps(2) add: convert_thread_def
          run_steps.simps(2) [of _ _ "C_process tid"] run_steps.simps(2) [of _ _ "C_find ep tid"])
  qed
qed

end
