(* ===== verification/Fiber_Concurrent.thy ===== *)
theory Fiber_Concurrent
  imports Fiber_Steps
begin

text \<open>
  Several threads inside the module at the same time: the steps of \<open>Fiber_Steps\<close>
  interleaved in any order, over a memory in which every step sees the ones
  before it. The protocol by which fibers change hands, that is the order of
  taking and releasing the lock, attaching and detaching, is proved correct on a
  small machine of its own; the interleaved switches follow it.
\<close>

section \<open>Interleaving\<close>

datatype op_pc = Switching switch_pc | Converting convert_pc

text \<open>What each task is executing in the module, if anything. The flag tells whether
  threads may also be converted.\<close>

inductive cstep ::
  "kapi \<Rightarrow> bool \<Rightarrow> (pid_t \<rightharpoonup> op_pc) \<times> kstate \<Rightarrow> (pid_t \<rightharpoonup> op_pc) \<times> kstate \<Rightarrow> bool" for K :: kapi and conv :: bool where
  enter_switch: "pcs me = None \<Longrightarrow> tasks s me = Some cur \<Longrightarrow>
    cstep K conv (pcs, s) (pcs(me \<mapsto> Switching (S_find fid (task_pid cur))), s)"
| run_switch: "pcs me = Some (Switching pc) \<Longrightarrow> switch_step K me pc s = Some (pc', s') \<Longrightarrow>
    cstep K conv (pcs, s) (pcs(me \<mapsto> Switching pc'), s')"
| leave_switch: "pcs me = Some (Switching (S_return r)) \<Longrightarrow> cstep K conv (pcs, s) (pcs(me := None), s)"
| enter_convert: "conv \<Longrightarrow> pcs me = None \<Longrightarrow> tasks s me = Some cur \<Longrightarrow>
    cstep K conv (pcs, s) (pcs(me \<mapsto> Converting (C_process (task_pid cur))), s)"
| run_convert: "pcs me = Some (Converting pc) \<Longrightarrow> convert_step K me pc s = Some (pc', s') \<Longrightarrow>
    cstep K conv (pcs, s) (pcs(me \<mapsto> Converting pc'), s')"
| leave_convert: "pcs me = Some (Converting (C_return r)) \<Longrightarrow> cstep K conv (pcs, s) (pcs(me := None), s)"
| compute: "pcs me = None \<Longrightarrow> tasks s me = Some t \<Longrightarrow> task_pid t' = task_pid t \<Longrightarrow> task_tgid t' = task_tgid t \<Longrightarrow>
    cstep K conv (pcs, s) (pcs, set_task s me t')"

text \<open>An executable reading of the relation: a schedule says which task moves next.\<close>

datatype move = Call_switch pid_t pid_t | Call_convert pid_t | Run pid_t | Leave_call pid_t

fun do_move :: "kapi \<Rightarrow> move \<Rightarrow> (pid_t \<rightharpoonup> op_pc) \<times> kstate \<Rightarrow> ((pid_t \<rightharpoonup> op_pc) \<times> kstate) option" where
  "do_move K (Call_switch me fid) (pcs, s) = (case (pcs me, tasks s me) of
     (None, Some cur) \<Rightarrow> Some (pcs(me \<mapsto> Switching (S_find fid (task_pid cur))), s) | _ \<Rightarrow> None)"
| "do_move K (Call_convert me) (pcs, s) = (case (pcs me, tasks s me) of
     (None, Some cur) \<Rightarrow> Some (pcs(me \<mapsto> Converting (C_process (task_pid cur))), s) | _ \<Rightarrow> None)"
| "do_move K (Run me) (pcs, s) = (case pcs me of
     Some (Switching pc) \<Rightarrow> do { (pc, s) \<leftarrow> switch_step K me pc s; Some (pcs(me \<mapsto> Switching pc), s) }
   | Some (Converting pc) \<Rightarrow> do { (pc, s) \<leftarrow> convert_step K me pc s; Some (pcs(me \<mapsto> Converting pc), s) }
   | None \<Rightarrow> None)"
| "do_move K (Leave_call me) (pcs, s) = (case pcs me of
     Some (Switching (S_return r)) \<Rightarrow> Some (pcs(me := None), s)
   | Some (Converting (C_return r)) \<Rightarrow> Some (pcs(me := None), s)
   | _ \<Rightarrow> None)"

fun schedule :: "kapi \<Rightarrow> move list \<Rightarrow> (pid_t \<rightharpoonup> op_pc) \<times> kstate \<Rightarrow> ((pid_t \<rightharpoonup> op_pc) \<times> kstate) option" where
  "schedule K [] X = Some X"
| "schedule K (m # ms) X = do { X \<leftarrow> do_move K m X; schedule K ms X }"

fun converts :: "move \<Rightarrow> bool" where
  "converts (Call_convert me) = True"
| "converts _ = False"

lemma do_move_step:
  assumes "do_move K m X = Some Y" "converts m \<longrightarrow> conv"
  shows "cstep K conv X Y"
  using assms
  by (cases "(K, m, X)" rule: do_move.cases)
    (auto simp: bind_eq_Some_conv split: option.splits op_pc.splits switch_pc.splits convert_pc.splits
      intro: cstep.intros simp del: switch_step.simps convert_step.simps)

lemma schedule_steps:
  "schedule K ms X = Some Y \<Longrightarrow> (\<forall>m \<in> set ms. converts m \<longrightarrow> conv) \<Longrightarrow> (cstep K conv)\<^sup>*\<^sup>* X Y"
proof (induction ms arbitrary: X)
  case (Cons m ms)
  then obtain Z where Z: "do_move K m X = Some Z" "schedule K ms Z = Some Y" by (auto simp: bind_eq_Some_conv)
  have "cstep K conv X Z" using do_move_step [OF Z(1)] Cons.prems by simp
  moreover have "(cstep K conv)\<^sup>*\<^sup>* Z Y" using Cons.IH [OF Z(2)] Cons.prems by simp
  ultimately show ?case by (rule converse_rtranclp_into_rtranclp)
qed simp

section \<open>The protocol\<close>

text \<open>What a thread has in hand besides the fiber it has selected: a fiber whose lock it
  took, the same after attaching it, the previous fiber before and after detaching
  it.\<close>

datatype hand = Free | Taken addr | Attached addr | Leaving addr | Left addr

fun in_hand :: "hand \<Rightarrow> ptr" where
  "in_hand Free = NULL"
| "in_hand (Taken f) = Some f"
| "in_hand (Attached f) = Some f"
| "in_hand (Leaving f) = Some f"
| "in_hand (Left f) = Some f"

record proto =
  psel :: "addr \<rightharpoonup> addr"
  plock :: "addr \<Rightarrow> bool"
  patt :: "addr \<rightharpoonup> addr"
  phand :: "addr \<Rightarrow> hand"

inductive pstep :: "(addr \<Rightarrow> addr \<Rightarrow> bool) \<Rightarrow> proto \<Rightarrow> proto \<Rightarrow> bool" for fam :: "addr \<Rightarrow> addr \<Rightarrow> bool" where
  p_take: "phand P t = Free \<Longrightarrow> fam t f \<Longrightarrow> \<not> plock P f \<Longrightarrow>
    pstep fam P (P\<lparr>plock := (plock P)(f := True), phand := (phand P)(t := Taken f)\<rparr>)"
| p_attach: "phand P t = Taken f \<Longrightarrow>
    pstep fam P (P\<lparr>patt := (patt P)(f \<mapsto> t), phand := (phand P)(t := Attached f)\<rparr>)"
| p_select: "phand P t = Attached f \<Longrightarrow> psel P t = Some g \<Longrightarrow>
    pstep fam P (P\<lparr>psel := (psel P)(t \<mapsto> f), phand := (phand P)(t := Leaving g)\<rparr>)"
| p_detach: "phand P t = Leaving g \<Longrightarrow>
    pstep fam P (P\<lparr>patt := (patt P)(g := NULL), phand := (phand P)(t := Left g)\<rparr>)"
| p_unlock: "phand P t = Left g \<Longrightarrow>
    pstep fam P (P\<lparr>plock := (plock P)(g := False), phand := (phand P)(t := Free)\<rparr>)"

definition claims :: "proto \<Rightarrow> addr \<Rightarrow> addr \<Rightarrow> bool" where
  "claims P t f \<longleftrightarrow> psel P t = Some f \<or> in_hand (phand P t) = Some f"

definition proto_ok :: "(addr \<Rightarrow> addr \<Rightarrow> bool) \<Rightarrow> proto \<Rightarrow> bool" where
  "proto_ok fam P \<longleftrightarrow>
     (\<forall>f. plock P f \<longleftrightarrow> (\<exists>t. claims P t f)) \<and>
     (\<forall>t t' f. claims P t f \<longrightarrow> claims P t' f \<longrightarrow> t = t') \<and>
     (\<forall>t f. in_hand (phand P t) = Some f \<longrightarrow> psel P t \<noteq> Some f \<and> psel P t \<noteq> NULL) \<and>
     (\<forall>t f. patt P f = Some t \<longleftrightarrow> psel P t = Some f \<or> phand P t = Attached f \<or> phand P t = Leaving f) \<and>
     (\<forall>t f. claims P t f \<longrightarrow> fam t f) \<and>
     (\<forall>t f. fam t f \<longrightarrow> psel P t \<noteq> NULL)"

lemma proto_okD:
  assumes "proto_ok fam P"
  shows "plock P f \<longleftrightarrow> (\<exists>t. claims P t f)" "claims P t f \<Longrightarrow> claims P t' f \<Longrightarrow> t = t'"
    "in_hand (phand P t) = Some f \<Longrightarrow> psel P t \<noteq> Some f \<and> psel P t \<noteq> NULL"
    "patt P f = Some t \<longleftrightarrow> psel P t = Some f \<or> phand P t = Attached f \<or> phand P t = Leaving f"
    "claims P t f \<Longrightarrow> fam t f" "fam t f \<Longrightarrow> psel P t \<noteq> NULL"
  using assms unfolding proto_ok_def by blast+

lemma proto_selected: "proto_ok fam P \<Longrightarrow> psel P t = Some f \<Longrightarrow> fam t f"
  using proto_okD(5) [of fam P t f] by (simp add: claims_def)

text \<open>Taking a lock adds a claim, releasing it removes one, the other steps only shift
  claims between the selected fiber and the hand.\<close>

lemma claims_step:
  assumes "proto_ok fam P"
  shows "phand P t = Free \<Longrightarrow> claims (P\<lparr>plock := l, phand := (phand P)(t := Taken f)\<rparr>) u x \<longleftrightarrow> claims P u x \<or> u = t \<and> x = f"
    "phand P t = Taken f \<Longrightarrow> claims (P\<lparr>patt := a, phand := (phand P)(t := Attached f)\<rparr>) u x \<longleftrightarrow> claims P u x"
    "phand P t = Attached f \<Longrightarrow> psel P t = Some g \<Longrightarrow>
      claims (P\<lparr>psel := (psel P)(t \<mapsto> f), phand := (phand P)(t := Leaving g)\<rparr>) u x \<longleftrightarrow> claims P u x"
    "phand P t = Leaving f \<Longrightarrow> claims (P\<lparr>patt := a, phand := (phand P)(t := Left f)\<rparr>) u x \<longleftrightarrow> claims P u x"
    "phand P t = Left f \<Longrightarrow> claims (P\<lparr>plock := l, phand := (phand P)(t := Free)\<rparr>) u x \<longleftrightarrow> claims P u x \<and> \<not> (u = t \<and> x = f)"
proof -
  show "phand P t = Free \<Longrightarrow> claims (P\<lparr>plock := l, phand := (phand P)(t := Taken f)\<rparr>) u x \<longleftrightarrow> claims P u x \<or> u = t \<and> x = f"
    "phand P t = Taken f \<Longrightarrow> claims (P\<lparr>patt := a, phand := (phand P)(t := Attached f)\<rparr>) u x \<longleftrightarrow> claims P u x"
    "phand P t = Attached f \<Longrightarrow> psel P t = Some g \<Longrightarrow>
      claims (P\<lparr>psel := (psel P)(t \<mapsto> f), phand := (phand P)(t := Leaving g)\<rparr>) u x \<longleftrightarrow> claims P u x"
    "phand P t = Leaving f \<Longrightarrow> claims (P\<lparr>patt := a, phand := (phand P)(t := Left f)\<rparr>) u x \<longleftrightarrow> claims P u x"
    by (auto simp: claims_def)
  show "claims (P\<lparr>plock := l, phand := (phand P)(t := Free)\<rparr>) u x \<longleftrightarrow> claims P u x \<and> \<not> (u = t \<and> x = f)"
    if h: "phand P t = Left f"
  proof -
    have "psel P t \<noteq> Some f" using proto_okD(3) [OF assms, of t f] h by simp
    then show ?thesis using h by (auto simp: claims_def)
  qed
qed

lemma pstep_claims:
  assumes step: "pstep fam P Q" and ok: "proto_ok fam P"
  notes D = proto_okD [OF ok]
  shows "(\<forall>x. plock Q x \<longleftrightarrow> (\<exists>u. claims Q u x)) \<and> (\<forall>u u' x. claims Q u x \<longrightarrow> claims Q u' x \<longrightarrow> u = u') \<and>
    (\<forall>u x. claims Q u x \<longrightarrow> fam u x)"
  using step
proof cases
  case (p_take t f)
  have c: "claims Q u x \<longleftrightarrow> claims P u x \<or> u = t \<and> x = f" for u x
    using p_take claims_step(1) [OF ok p_take(2)] by simp
  have "\<not> claims P u f" for u using D(1) p_take(4) by blast
  then show ?thesis using c D(1,2,5) p_take(1,3) by auto
next
  case (p_unlock t g)
  have c: "claims Q u x \<longleftrightarrow> claims P u x \<and> \<not> (u = t \<and> x = g)" for u x
    using p_unlock claims_step(5) [OF ok p_unlock(2)] by simp
  have g: "claims P t g" using p_unlock by (simp add: claims_def)
  have "\<not> claims Q u g" for u using c D(2) [OF g] by blast
  moreover have "claims Q u x \<longleftrightarrow> claims P u x" if "x \<noteq> g" for u x using c that by blast
  moreover have "plock Q = (plock P)(g := False)" using p_unlock by simp
  ultimately show ?thesis using c D(1) D(2) D(5) by (metis fun_upd_apply)
next
  case (p_attach t f)
  then have "claims Q = claims P" "plock Q = plock P" using claims_step(2) [OF ok p_attach(2)] by (auto simp: fun_eq_iff)
  then show ?thesis using D(1) D(2) D(5) by metis
next
  case (p_select t f g)
  then have "claims Q = claims P" "plock Q = plock P" using claims_step(3) [OF ok p_select(2,3)] by (auto simp: fun_eq_iff)
  then show ?thesis using D(1) D(2) D(5) by metis
next
  case (p_detach t g)
  then have "claims Q = claims P" "plock Q = plock P" using claims_step(4) [OF ok p_detach(2)] by (auto simp: fun_eq_iff)
  then show ?thesis using D(1) D(2) D(5) by metis
qed

lemma pstep_hand:
  assumes step: "pstep fam P Q" and ok: "proto_ok fam P" and that: "in_hand (phand Q u) = Some x"
  notes D = proto_okD [OF ok]
  shows "psel Q u \<noteq> Some x \<and> psel Q u \<noteq> NULL"
  using step
proof cases
  case (p_take t f)
  then have "\<not> claims P t f" using D(1) by blast
  then show ?thesis using that p_take D(3) [of u x] D(6) [of t f] by (auto simp: claims_def split: if_splits)
next
  case (p_select t f g)
  then show ?thesis using that D(3) [of u x] D(3) [of t f] by (auto split: if_splits)
qed (use that D(3) [of u x] in \<open>auto split: if_splits\<close>)

lemma pstep_attached:
  assumes step: "pstep fam P Q" and ok: "proto_ok fam P"
  notes D = proto_okD [OF ok]
  shows "patt Q x = Some u \<longleftrightarrow> psel Q u = Some x \<or> phand Q u = Attached x \<or> phand Q u = Leaving x"
  using step
proof cases
  case (p_attach t f)
  then have "claims P t f" by (simp add: claims_def)
  then have "\<not> claims P u f" if "u \<noteq> t" using D(2) [of t f u] that by blast
  then show ?thesis
    using p_attach D(4) [of x u] by (cases "x = f"; cases "u = t") (auto simp: claims_def)
next
  case (p_detach t g)
  then have g: "claims P t g" by (simp add: claims_def)
  have "\<not> claims P u g" if "u \<noteq> t" using D(2) [OF g, of u] that by blast
  moreover have "psel P t \<noteq> Some g" using D(3) [of t g] p_detach by simp
  ultimately show ?thesis
    using p_detach D(4) [of x u] by (cases "x = g"; cases "u = t") (auto simp: claims_def)
qed (use D(4) [of x u] in \<open>auto split: if_splits\<close>)

lemma pstep_ok:
  assumes "pstep fam P Q" "proto_ok fam P"
  shows "proto_ok fam Q"
proof -
  have "psel Q t \<noteq> NULL" if "fam t f" for t f
    using assms(1) by cases (use proto_okD(6) [OF assms(2) that] in auto)
  then show ?thesis
    unfolding proto_ok_def using pstep_claims [OF assms] pstep_hand [OF assms] pstep_attached [OF assms] by blast
qed

section \<open>What the switches leave alone\<close>

text \<open>The tables, the identities and the owners of all objects are the ones of the
  state \<open>s0\<close> the switches started from.\<close>

definition thread_tag :: "thread \<Rightarrow> pid_t \<times> ptr" where
  "thread_tag th = (thread_id th, parent th)"

definition fiber_tag :: "fiber \<Rightarrow> pid_t \<times> string \<times> ptr" where
  "fiber_tag fb = (fiber_id fb, name fb, parent_process fb)"

definition shape :: "kstate \<Rightarrow> kstate \<Rightarrow> bool" where
  "shape s0 s \<longleftrightarrow> processes s = processes s0 \<and> struct_process_lock s = struct_process_lock s0 \<and>
     live_process s = live_process s0 \<and> is_live s = is_live s0 \<and>
     (\<forall>x. map_option thread_tag (live_thread s x) = map_option thread_tag (live_thread s0 x)) \<and>
     (\<forall>x. map_option fiber_tag (live_fiber s x) = map_option fiber_tag (live_fiber s0 x))"

definition family :: "kstate \<Rightarrow> addr \<Rightarrow> addr \<Rightarrow> bool" where
  "family s t f \<longleftrightarrow> (\<exists>a \<in> nodes (processes s). \<exists>p. live_process s a = Some p \<and> t \<in> nodes (threads p) \<and> f \<in> nodes (fibers p))"

lemma shape_refl [simp]: "shape s s"
  by (simp add: shape_def)

lemma shape_set_task [simp]: "shape s0 (set_task s me t) = shape s0 s"
  by (simp add: shape_def set_task_def)

lemma store_live:
  "live_fiber s f = Some fb \<Longrightarrow> live_process (store s f (OFiber fb')) = live_process s"
  "live_fiber s f = Some fb \<Longrightarrow> live_thread (store s f (OFiber fb')) = live_thread s"
  "live_fiber s f = Some fb \<Longrightarrow> is_live (store s f (OFiber fb')) = is_live s"
  "live_thread s t = Some th \<Longrightarrow> live_process (store s t (OThread th')) = live_process s"
  "live_thread s t = Some th \<Longrightarrow> live_fiber (store s t (OThread th')) = live_fiber s"
  "live_thread s t = Some th \<Longrightarrow> is_live (store s t (OThread th')) = is_live s"
  by (auto simp: fun_eq_iff live_process_def live_thread_def live_fiber_def is_live_def
      split: option.splits cell.splits kobj.splits)

lemma shape_fiber:
  assumes "shape s0 s" "live_fiber s f = Some fb" "fiber_tag fb' = fiber_tag fb"
  shows "shape s0 (store s f (OFiber fb'))"
proof -
  have "map_option fiber_tag (live_fiber (store s f (OFiber fb')) x) = map_option fiber_tag (live_fiber s x)" for x
    using assms(2,3) by (simp add: live_simps)
  then show ?thesis using assms(1) by (simp add: shape_def store_live(1-3) [OF assms(2)])
qed

lemma shape_thread:
  assumes "shape s0 s" "live_thread s t = Some th" "thread_tag th' = thread_tag th"
  shows "shape s0 (store s t (OThread th'))"
proof -
  have "map_option thread_tag (live_thread (store s t (OThread th')) x) = map_option thread_tag (live_thread s x)" for x
    using assms(2,3) by (simp add: live_simps)
  then show ?thesis using assms(1) by (simp add: shape_def store_live(4-6) [OF assms(2)])
qed

lemma shape_live:
  assumes "shape s0 s"
  shows "live_thread s0 t = Some th0 \<Longrightarrow> \<exists>th. live_thread s t = Some th \<and> thread_tag th = thread_tag th0"
    "live_fiber s0 f = Some fb0 \<Longrightarrow> \<exists>fb. live_fiber s f = Some fb \<and> fiber_tag fb = fiber_tag fb0"
    "live_thread s t = Some th \<Longrightarrow> \<exists>th0. live_thread s0 t = Some th0 \<and> thread_tag th = thread_tag th0"
    "live_fiber s f = Some fb \<Longrightarrow> \<exists>fb0. live_fiber s0 f = Some fb0 \<and> fiber_tag fb = fiber_tag fb0"
proof -
  have T: "map_option thread_tag (live_thread s t) = map_option thread_tag (live_thread s0 t)"
    and F: "map_option fiber_tag (live_fiber s f) = map_option fiber_tag (live_fiber s0 f)"
    using assms by (simp_all add: shape_def)
  show "live_thread s0 t = Some th0 \<Longrightarrow> \<exists>th. live_thread s t = Some th \<and> thread_tag th = thread_tag th0"
    "live_thread s t = Some th \<Longrightarrow> \<exists>th0. live_thread s0 t = Some th0 \<and> thread_tag th = thread_tag th0"
    using T by (cases "live_thread s0 t"; auto)+
  show "live_fiber s0 f = Some fb0 \<Longrightarrow> \<exists>fb. live_fiber s f = Some fb \<and> fiber_tag fb = fiber_tag fb0"
    "live_fiber s f = Some fb \<Longrightarrow> \<exists>fb0. live_fiber s0 f = Some fb0 \<and> fiber_tag fb = fiber_tag fb0"
    using F by (cases "live_fiber s0 f"; auto)+
qed

lemma shape_keys:
  assumes "shape s0 s"
  shows "pkey s = pkey s0" "tkey s = tkey s0" "fkey s = fkey s0"
proof -
  show "pkey s = pkey s0" using assms by (simp add: shape_def pkey_def [abs_def])
  show "tkey s = tkey s0"
  proof
    fix x
    have "map_option fst (map_option thread_tag (live_thread s x)) = map_option fst (map_option thread_tag (live_thread s0 x))"
      using assms by (simp add: shape_def)
    then show "tkey s x = tkey s0 x" by (simp add: tkey_def option.map_comp comp_def thread_tag_def)
  qed
  show "fkey s = fkey s0"
  proof
    fix x
    have "map_option fst (map_option fiber_tag (live_fiber s x)) = map_option fst (map_option fiber_tag (live_fiber s0 x))"
      using assms by (simp add: shape_def)
    then show "fkey s x = fkey s0 x" by (simp add: fkey_def option.map_comp comp_def fiber_tag_def)
  qed
qed

text \<open>So the look-ups give what they would have given in \<open>s0\<close>.\<close>

lemma find_process_shape:
  assumes inv: "kinv K s0" and sh: "shape s0 s"
  shows "find_process_by_tgid K tgid s = Some (proc_of K s0 tgid)"
proof -
  have "(do { ep \<leftarrow> get_process K s a; Some (process_id ep = tgid) }) = Some (pkey s0 a = Some tgid)"
    if a: "a \<in> set (processes s0 (hash_min K tgid))" for a
  proof -
    have "a \<in> nodes (processes s0)" using a by (rule bucket_in_nodes)
    then obtain p where "live_process s0 a = Some p" using inv_process [OF inv] by metis
    then have "live_process s a = Some p" "pkey s0 a = Some (process_id p)" using sh by (simp_all add: shape_def pkey_def)
    then show ?thesis by (simp add: get_live)
  qed
  then show ?thesis
    using sh unfolding find_process_by_tgid_def proc_of_def table_find_def
    by (simp add: shape_def hash_for_each_possible_find)
qed

lemma find_thread_shape:
  assumes ok: "threads_ok K s0 a p" and p: "live_process s0 a = Some p" and sh: "shape s0 s"
  shows "find_thread_by_pid K tid a s = Some (thread_of K s0 p tid)"
proof -
  have "(do { tp \<leftarrow> get_thread K s t; Some (thread_id tp = tid) }) = Some (tkey s0 t = Some tid)"
    if t: "t \<in> set (threads p (hash_min K tid))" for t
  proof -
    have "t \<in> nodes (threads p)" using t by (rule bucket_in_nodes)
    then obtain th0 where "live_thread s0 t = Some th0" using threads_okD [OF ok] by metis
    then obtain th where "live_thread s t = Some th" using shape_live(1) [OF sh] by blast
    then show ?thesis by (simp add: get_live tkey_def flip: shape_keys(2) [OF sh])
  qed
  moreover have "live_process s a = Some p" using sh p by (simp add: shape_def)
  ultimately show ?thesis
    unfolding find_thread_by_pid_def thread_of_def table_find_def
    by (simp add: get_live hash_for_each_possible_find)
qed

lemma find_fiber_shape:
  assumes ok: "fibers_ok K s0 a p" and p: "live_process s0 a = Some p" and sh: "shape s0 s"
  shows "find_fiber_by_id K fid a s = Some (fiber_of K s0 p fid)"
proof -
  have "(do { fp \<leftarrow> get_fiber K s f; Some (fiber_id fp = fid) }) = Some (fkey s0 f = Some fid)"
    if f: "f \<in> set (fibers p (hash_min K fid))" for f
  proof -
    have "f \<in> nodes (fibers p)" using f by (rule bucket_in_nodes)
    then obtain fb0 where "live_fiber s0 f = Some fb0" using fibers_okD [OF ok] by metis
    then obtain fb where "live_fiber s f = Some fb" using shape_live(2) [OF sh] by blast
    then show ?thesis by (simp add: get_live fkey_def flip: shape_keys(3) [OF sh])
  qed
  moreover have "live_process s a = Some p" using sh p by (simp add: shape_def)
  ultimately show ?thesis
    unfolding find_fiber_by_id_def fiber_of_def table_find_def
    by (simp add: get_live hash_for_each_possible_find)
qed

lemma family_live:
  assumes inv: "kinv K s0" and sh: "shape s0 s" and fam: "family s0 t f"
  obtains th fb where "live_thread s t = Some th" "live_fiber s f = Some fb" "t \<noteq> f"
proof -
  obtain a p where a: "a \<in> nodes (processes s0)" "live_process s0 a = Some p" "t \<in> nodes (threads p)" "f \<in> nodes (fibers p)"
    using fam by (auto simp: family_def)
  have ok: "threads_ok K s0 a p" "fibers_ok K s0 a p" using inv_process [OF inv a(1)] a(2) by (metis option.inject)+
  obtain th0 fb0 where "live_thread s0 t = Some th0" "live_fiber s0 f = Some fb0"
    using threads_okD [OF ok(1) a(3)] fibers_okD [OF ok(2) a(4)] by metis
  then obtain th fb where "live_thread s t = Some th" "live_fiber s f = Some fb"
    using shape_live(1,2) [OF sh] by blast
  then show ?thesis using that live_types_differ(3) by blast
qed

section \<open>The switches follow the protocol\<close>

text \<open>What the program counter of a switch says about the hand of a thread.\<close>

fun hand_of :: "addr \<Rightarrow> switch_pc \<Rightarrow> hand" where
  "hand_of t (S_check tp f) = (if tp = t then Taken f else Free)"
| "hand_of t (S_attach tp f) = (if tp = t then Taken f else Free)"
| "hand_of t (S_count tp f) = (if tp = t then Attached f else Free)"
| "hand_of t (S_select tp f) = (if tp = t then Attached f else Free)"
| "hand_of t (S_save tp g f) = (if tp = t then Leaving g else Free)"
| "hand_of t (S_detach tp g f) = (if tp = t then Leaving g else Free)"
| "hand_of t (S_unlock tp g f) = (if tp = t then Left g else Free)"
| "hand_of t _ = Free"

fun op_hand :: "addr \<Rightarrow> op_pc option \<Rightarrow> hand" where
  "op_hand t (Some (Switching pc)) = hand_of t pc"
| "op_hand t _ = Free"

definition view :: "kstate \<Rightarrow> (pid_t \<rightharpoonup> op_pc) \<Rightarrow> kstate \<Rightarrow> proto" where
  "view s0 pcs s = \<lparr>psel = (\<lambda>t. live_thread s t \<bind> selected_fiber),
     plock = (\<lambda>f. case live_fiber s f of None \<Rightarrow> False | Some fb \<Rightarrow> fiber_lock fb),
     patt = (\<lambda>f. live_fiber s f \<bind> attached_thread),
     phand = (\<lambda>t. op_hand t (tkey s0 t \<bind> pcs))\<rparr>"

lemma view_simps [simp]:
  "psel (view s0 pcs s) t = live_thread s t \<bind> selected_fiber"
  "plock (view s0 pcs s) f = (case live_fiber s f of None \<Rightarrow> False | Some fb \<Rightarrow> fiber_lock fb)"
  "patt (view s0 pcs s) f = live_fiber s f \<bind> attached_thread"
  "phand (view s0 pcs s) t = op_hand t (tkey s0 t \<bind> pcs)"
  by (simp_all add: view_def)

lemma proto_eqI:
  "psel P = psel Q \<Longrightarrow> plock P = plock Q \<Longrightarrow> patt P = patt Q \<Longrightarrow> phand P = phand Q \<Longrightarrow> P = (Q :: proto)"
  by simp

lemma view_fiber:
  assumes "live_fiber s f = Some fb"
  shows "view s0 pcs (store s f (OFiber fb')) = (view s0 pcs s)\<lparr>plock := (plock (view s0 pcs s))(f := fiber_lock fb'),
    patt := (patt (view s0 pcs s))(f := attached_thread fb')\<rparr>"
  using store_live(2) [OF assms, of fb'] by (intro proto_eqI ext) (auto simp: live_simps)

lemma view_fiber_same:
  assumes "live_fiber s f = Some fb" "fiber_lock fb' = fiber_lock fb" "attached_thread fb' = attached_thread fb"
  shows "view s0 pcs (store s f (OFiber fb')) = view s0 pcs s"
  using store_live(2) [OF assms(1), of fb'] assms by (intro proto_eqI ext) (auto simp: live_simps)

lemma view_thread:
  assumes "live_thread s t = Some th"
  shows "view s0 pcs (store s t (OThread th')) = (view s0 pcs s)\<lparr>psel := (psel (view s0 pcs s))(t := selected_fiber th')\<rparr>"
  using store_live(5) [OF assms, of th'] by (intro proto_eqI ext) (auto simp: live_simps)

lemma view_set_task [simp]: "view s0 pcs (set_task s me c) = view s0 pcs s"
  by (simp add: view_def set_task_def)

lemma view_pc:
  assumes "pcs me = Some (Switching pc)" "tkey s0 tp = Some me"
    and "\<And>t. t \<noteq> tp \<Longrightarrow> hand_of t pc' = hand_of t pc"
  shows "view s0 (pcs(me \<mapsto> Switching pc')) s = (view s0 pcs s)\<lparr>phand := (phand (view s0 pcs s))(tp := hand_of tp pc')\<rparr>"
proof (intro proto_eqI ext)
  fix t
  show "phand (view s0 (pcs(me \<mapsto> Switching pc')) s) t =
      phand ((view s0 pcs s)\<lparr>phand := (phand (view s0 pcs s))(tp := hand_of tp pc')\<rparr>) t"
    using assms by (cases "tkey s0 t") auto
qed simp_all

lemma view_pc_same:
  assumes "pcs me = old" "\<And>t. hand_of t pc' = op_hand t old"
  shows "view s0 (pcs(me \<mapsto> Switching pc')) s = view s0 pcs s"
proof (intro proto_eqI ext)
  fix t
  show "phand (view s0 (pcs(me \<mapsto> Switching pc')) s) t = phand (view s0 pcs s) t"
    using assms by (cases "tkey s0 t") auto
qed simp_all

fun pc_ok :: "kstate \<Rightarrow> pid_t \<Rightarrow> switch_pc \<Rightarrow> bool" where
  "pc_ok s0 me (S_find fid tid) \<longleftrightarrow> tid = me"
| "pc_ok s0 me (S_trylock tp f) \<longleftrightarrow> tkey s0 tp = Some me \<and> family s0 tp f"
| "pc_ok s0 me (S_check tp f) \<longleftrightarrow> tkey s0 tp = Some me \<and> family s0 tp f"
| "pc_ok s0 me (S_fail f) \<longleftrightarrow> (\<exists>t. family s0 t f)"
| "pc_ok s0 me (S_attach tp f) \<longleftrightarrow> tkey s0 tp = Some me \<and> family s0 tp f"
| "pc_ok s0 me (S_count tp f) \<longleftrightarrow> tkey s0 tp = Some me \<and> family s0 tp f"
| "pc_ok s0 me (S_select tp f) \<longleftrightarrow> tkey s0 tp = Some me \<and> family s0 tp f"
| "pc_ok s0 me (S_save tp g f) \<longleftrightarrow> tkey s0 tp = Some me \<and> family s0 tp f \<and> family s0 tp g"
| "pc_ok s0 me (S_detach tp g f) \<longleftrightarrow> tkey s0 tp = Some me \<and> family s0 tp f \<and> family s0 tp g"
| "pc_ok s0 me (S_unlock tp g f) \<longleftrightarrow> tkey s0 tp = Some me \<and> family s0 tp f \<and> family s0 tp g"
| "pc_ok s0 me (S_restore tp f) \<longleftrightarrow> tkey s0 tp = Some me \<and> family s0 tp f"
| "pc_ok s0 me (S_return r) \<longleftrightarrow> True"

definition cinv :: "kstate \<Rightarrow> (pid_t \<rightharpoonup> op_pc) \<times> kstate \<Rightarrow> bool" where
  "cinv s0 = (\<lambda>(pcs, s). shape s0 s \<and> pids_ok s \<and>
     (\<forall>me op. pcs me = Some op \<longrightarrow> tasks s me \<noteq> None \<and> (\<exists>pc. op = Switching pc \<and> pc_ok s0 me pc)) \<and>
     proto_ok (family s0) (view s0 pcs s))"

text \<open>How far a switch is from its return.\<close>

fun pc_rank :: "switch_pc \<Rightarrow> nat" where
  "pc_rank (S_find _ _) = 10"
| "pc_rank (S_trylock _ _) = 9"
| "pc_rank (S_check _ _) = 8"
| "pc_rank (S_attach _ _) = 7"
| "pc_rank (S_count _ _) = 6"
| "pc_rank (S_select _ _) = 5"
| "pc_rank (S_save _ _ _) = 4"
| "pc_rank (S_detach _ _ _) = 3"
| "pc_rank (S_unlock _ _ _) = 2"
| "pc_rank (S_fail _) = 1"
| "pc_rank (S_restore _ _) = 1"
| "pc_rank (S_return _) = 0"

text \<open>The outcome of one step of a switch that keeps everything in order and comes closer to the
  return.\<close>

definition step_good :: "kstate \<Rightarrow> (pid_t \<rightharpoonup> op_pc) \<Rightarrow> pid_t \<Rightarrow> switch_pc \<Rightarrow> kstate \<Rightarrow> switch_pc \<times> kstate \<Rightarrow> bool" where
  "step_good s0 pcs me pc s = (\<lambda>(pc', s'). shape s0 s' \<and>
     (\<forall>x. map_option task_pid (tasks s' x) = map_option task_pid (tasks s x)) \<and> pc_ok s0 me pc' \<and>
     proto_ok (family s0) (view s0 (pcs(me \<mapsto> Switching pc')) s') \<and> pc_rank pc' < pc_rank pc)"

lemma step_find:
  assumes inv: "kinv K s0" and sh: "shape s0 s" and proto: "proto_ok (family s0) (view s0 pcs s)"
    and pc: "pcs me = Some (Switching (S_find fid me))" and cur: "tasks s me = Some cur"
  shows "\<exists>r. switch_step K me (S_find fid me) s = Some r \<and> step_good s0 pcs me (S_find fid me) s r"
proof -
  have same: "proto_ok (family s0) (view s0 (pcs(me \<mapsto> Switching pc')) s)" if "\<And>t. hand_of t pc' = Free" for pc'
    using view_pc_same [of pcs me _ pc' s0 s, OF pc] that proto by simp
  note [simp] = step_good_def same sh
  show ?thesis
  proof (cases "proc_of K s0 (task_tgid cur)")
    case None
    then show ?thesis using cur find_process_shape [OF inv sh] by simp
  next
    case (Some a)
    then obtain p where a: "a \<in> nodes (processes s0)" "live_process s0 a = Some p" by (auto simp: proc_of_Some [OF inv])
    have ok: "threads_ok K s0 a p" "fibers_ok K s0 a p" using inv_process [OF inv a(1)] a(2) by (metis option.inject)+
    note [simp] = find_process_shape [OF inv sh] find_thread_shape [OF ok(1) a(2) sh] find_fiber_shape [OF ok(2) a(2) sh]
    show ?thesis
    proof (cases "thread_of K s0 p me")
      case None
      then show ?thesis using cur Some by simp
    next
      case tp: (Some tp)
      show ?thesis
      proof (cases "fiber_of K s0 p fid")
        case None
        then show ?thesis using cur Some tp by simp
      next
        case (Some f)
        have "tkey s0 tp = Some me" "family s0 tp f"
          using tp Some a by (auto simp: thread_of_Some [OF ok(1)] fiber_of_Some [OF ok(2)] tkey_def family_def)
        then show ?thesis using cur \<open>proc_of K s0 (task_tgid cur) = Some a\<close> tp Some by simp
      qed
    qed
  qed
qed

lemma step_trylock:
  assumes inv: "kinv K s0" and sh: "shape s0 s" and proto: "proto_ok (family s0) (view s0 pcs s)"
    and pc: "pcs me = Some (Switching (S_trylock tp f))" and ok: "pc_ok s0 me (S_trylock tp f)"
  shows "\<exists>r. switch_step K me (S_trylock tp f) s = Some r \<and> step_good s0 pcs me (S_trylock tp f) s r"
proof -
  have fam: "family s0 tp f" using ok by simp
  obtain th fb where l: "live_thread s tp = Some th" "live_fiber s f = Some fb" using family_live [OF inv sh fam] by metis
  let ?s = "store s f (OFiber (fb\<lparr>fiber_lock := True\<rparr>))"
  have sh': "shape s0 ?s" by (rule shape_fiber [OF sh l(2)]) (simp add: fiber_tag_def)
  have tl: "spin_trylock K f s = Some (\<not> fiber_lock fb, ?s)"
    by (rule spin_trylock_live [OF l(2)])
  show ?thesis
  proof (cases "fiber_lock fb")
    case True
    have "view s0 (pcs(me \<mapsto> Switching (S_fail f))) ?s = view s0 pcs s"
      using view_pc_same [of pcs me _ "S_fail f", OF pc] view_fiber_same [OF l(2), of "fb\<lparr>fiber_lock := True\<rparr>"] True by simp
    then show ?thesis using tl True sh' ok proto by (auto simp: step_good_def)
  next
    case False
    have h: "op_hand tp (tkey s0 tp \<bind> pcs) = Free" using pc ok by simp
    have "view s0 (pcs(me \<mapsto> Switching (S_check tp f))) ?s = (view s0 pcs s)\<lparr>plock := (plock (view s0 pcs s))(f := True),
        phand := (phand (view s0 pcs s))(tp := Taken f)\<rparr>"
      using view_pc [of pcs me _ s0 tp, OF pc, of "S_check tp f" ?s] ok view_fiber [OF l(2), of s0 pcs "fb\<lparr>fiber_lock := True\<rparr>"] l(2)
      by (simp add: fun_upd_idem)
    moreover have "pstep (family s0) (view s0 pcs s) \<dots>"
      by (rule p_take) (use h ok l(2) False in simp_all)
    ultimately have "proto_ok (family s0) (view s0 (pcs(me \<mapsto> Switching (S_check tp f))) ?s)"
      using pstep_ok proto by metis
    then show ?thesis using tl False sh' ok by (simp add: step_good_def)
  qed
qed

text \<open>A step that changes neither the lock nor the attachment of a fiber, and keeps the hand.\<close>

lemma step_quiet:
  assumes sh: "shape s0 s" and proto: "proto_ok (family s0) (view s0 pcs s)" and pc: "pcs me = Some (Switching pc)"
    and f: "live_fiber s f = Some fb" "fiber_tag fb' = fiber_tag fb" "fiber_lock fb' = fiber_lock fb"
      "attached_thread fb' = attached_thread fb"
    and pc': "\<And>t. hand_of t pc' = hand_of t pc" "pc_ok s0 me pc'" "pc_rank pc' < pc_rank pc"
  shows "step_good s0 pcs me pc s (pc', store s f (OFiber fb'))"
  using shape_fiber [OF sh f(1,2)] view_fiber_same [OF f(1,3,4), of s0 pcs]
    view_pc_same [of pcs me _ pc' s0 "store s f (OFiber fb')", OF pc] pc' proto
  by (simp add: step_good_def)

lemma step_check:
  assumes inv: "kinv K s0" and sh: "shape s0 s" and proto: "proto_ok (family s0) (view s0 pcs s)"
    and pc: "pcs me = Some (Switching (S_check tp f))" and ok: "pc_ok s0 me (S_check tp f)"
  shows "\<exists>r. switch_step K me (S_check tp f) s = Some r \<and> step_good s0 pcs me (S_check tp f) s r"
proof -
  have fam: "family s0 tp f" "tkey s0 tp = Some me" using ok by simp_all
  obtain th fb where l: "live_thread s tp = Some th" "live_fiber s f = Some fb" using family_live [OF inv sh fam(1)] by metis
  let ?V = "view s0 pcs s"
  have h: "phand ?V tp = Taken f" using pc fam by simp
  then have c: "claims ?V tp f" by (simp add: claims_def)
  have "attached_thread fb = NULL"
  proof (rule ccontr)
    assume "attached_thread fb \<noteq> NULL"
    then obtain t where "patt ?V f = Some t" using l(2) by auto
    then have t: "psel ?V t = Some f \<or> phand ?V t = Attached f \<or> phand ?V t = Leaving f"
      using proto_okD(4) [OF proto] by blast
    then have "claims ?V t f" by (auto simp: claims_def simp del: view_simps)
    then have "t = tp" using proto_okD(2) [OF proto c] by blast
    then show False using t h proto_okD(3) [OF proto, of tp f] by (auto simp del: view_simps)
  qed
  then have "switch_step K me (S_check tp f) s = Some (S_attach tp f, s)" using l(2) by (simp add: get_live)
  moreover have "view s0 (pcs(me \<mapsto> Switching (S_attach tp f))) s = ?V"
    using view_pc_same [of pcs me _ "S_attach tp f", OF pc] by simp
  ultimately show ?thesis using sh proto ok by (simp add: step_good_def)
qed

lemma step_fail:
  assumes inv: "kinv K s0" and sh: "shape s0 s" and proto: "proto_ok (family s0) (view s0 pcs s)"
    and pc: "pcs me = Some (Switching (S_fail f))" and ok: "pc_ok s0 me (S_fail f)"
  shows "\<exists>r. switch_step K me (S_fail f) s = Some r \<and> step_good s0 pcs me (S_fail f) s r"
proof -
  obtain t where fam: "family s0 t f" using ok by auto
  obtain fb where l: "live_fiber s f = Some fb" using family_live [OF inv sh fam] by metis
  show ?thesis
    using step_quiet [OF sh proto pc l, of "refused_fiber fb" "S_return (-1)"] l
    by (simp add: upd_fiber_live refused_fiber_def fiber_tag_def)
qed

lemma step_attach:
  assumes inv: "kinv K s0" and sh: "shape s0 s" and proto: "proto_ok (family s0) (view s0 pcs s)"
    and pc: "pcs me = Some (Switching (S_attach tp f))" and ok: "pc_ok s0 me (S_attach tp f)"
  shows "\<exists>r. switch_step K me (S_attach tp f) s = Some r \<and> step_good s0 pcs me (S_attach tp f) s r"
proof -
  have fam: "family s0 tp f" "tkey s0 tp = Some me" using ok by simp_all
  obtain fb where l: "live_fiber s f = Some fb" using family_live [OF inv sh fam(1)] by metis
  let ?s = "store s f (OFiber (fb\<lparr>attached_thread := Some tp\<rparr>))"
  have "view s0 (pcs(me \<mapsto> Switching (S_count tp f))) ?s = (view s0 pcs s)\<lparr>patt := (patt (view s0 pcs s))(f \<mapsto> tp),
      phand := (phand (view s0 pcs s))(tp := Attached f)\<rparr>"
    using view_pc [of pcs me, OF pc fam(2), of "S_count tp f" ?s] view_fiber [OF l, of s0 pcs "fb\<lparr>attached_thread := Some tp\<rparr>"] l
    by (simp add: fun_upd_idem)
  moreover have "pstep (family s0) (view s0 pcs s) \<dots>" by (rule p_attach) (use pc fam in simp)
  ultimately have "proto_ok (family s0) (view s0 (pcs(me \<mapsto> Switching (S_count tp f))) ?s)"
    using pstep_ok proto by metis
  moreover have "shape s0 ?s" by (rule shape_fiber [OF sh l]) (simp add: fiber_tag_def)
  ultimately show ?thesis using l ok by (simp add: step_good_def upd_fiber_live)
qed

lemma step_select:
  assumes inv: "kinv K s0" and sh: "shape s0 s" and proto: "proto_ok (family s0) (view s0 pcs s)"
    and pc: "pcs me = Some (Switching (S_select tp f))" and ok: "pc_ok s0 me (S_select tp f)"
  shows "\<exists>r. switch_step K me (S_select tp f) s = Some r \<and> step_good s0 pcs me (S_select tp f) s r"
proof -
  have fam: "family s0 tp f" "tkey s0 tp = Some me" using ok by simp_all
  obtain th where l: "live_thread s tp = Some th" using family_live [OF inv sh fam(1)] by metis
  let ?V = "view s0 pcs s" and ?s = "store s tp (OThread (th\<lparr>selected_fiber := Some f\<rparr>))"
  obtain g where g: "selected_fiber th = Some g" using proto_okD(6) [OF proto fam(1)] l by auto
  then have "claims ?V tp g" using l by (simp add: claims_def)
  then have famg: "family s0 tp g" by (rule proto_okD(5) [OF proto])
  have "view s0 (pcs(me \<mapsto> Switching (S_save tp g f))) ?s = ?V\<lparr>psel := (psel ?V)(tp \<mapsto> f), phand := (phand ?V)(tp := Leaving g)\<rparr>"
    using view_pc [of pcs me, OF pc fam(2), of "S_save tp g f" ?s] view_thread [OF l, of s0 pcs "th\<lparr>selected_fiber := Some f\<rparr>"] by simp
  moreover have "pstep (family s0) ?V \<dots>" by (rule p_select) (use pc fam l g in simp_all)
  ultimately have "proto_ok (family s0) (view s0 (pcs(me \<mapsto> Switching (S_save tp g f))) ?s)"
    using pstep_ok proto by metis
  moreover have "shape s0 ?s" by (rule shape_thread [OF sh l]) (simp add: thread_tag_def)
  ultimately show ?thesis using l g ok famg by (simp add: step_good_def upd_thread_live get_live Let_def)
qed

lemma step_detach:
  assumes inv: "kinv K s0" and sh: "shape s0 s" and proto: "proto_ok (family s0) (view s0 pcs s)"
    and pc: "pcs me = Some (Switching (S_detach tp g f))" and ok: "pc_ok s0 me (S_detach tp g f)"
  shows "\<exists>r. switch_step K me (S_detach tp g f) s = Some r \<and> step_good s0 pcs me (S_detach tp g f) s r"
proof -
  have fam: "family s0 tp g" "tkey s0 tp = Some me" using ok by simp_all
  obtain gb where l: "live_fiber s g = Some gb" using family_live [OF inv sh fam(1)] by metis
  let ?V = "view s0 pcs s" and ?s = "store s g (OFiber (gb\<lparr>attached_thread := NULL\<rparr>))"
  have "view s0 (pcs(me \<mapsto> Switching (S_unlock tp g f))) ?s = ?V\<lparr>patt := (patt ?V)(g := NULL), phand := (phand ?V)(tp := Left g)\<rparr>"
    using view_pc [of pcs me, OF pc fam(2), of "S_unlock tp g f" ?s] view_fiber [OF l, of s0 pcs "gb\<lparr>attached_thread := NULL\<rparr>"] l
    by (simp add: fun_upd_idem)
  moreover have "pstep (family s0) ?V \<dots>" by (rule p_detach) (use pc fam in simp)
  ultimately have "proto_ok (family s0) (view s0 (pcs(me \<mapsto> Switching (S_unlock tp g f))) ?s)"
    using pstep_ok proto by metis
  moreover have "shape s0 ?s" by (rule shape_fiber [OF sh l]) (simp add: fiber_tag_def)
  ultimately show ?thesis using l ok by (simp add: step_good_def upd_fiber_live)
qed

lemma step_unlock:
  assumes inv: "kinv K s0" and sh: "shape s0 s" and proto: "proto_ok (family s0) (view s0 pcs s)"
    and pc: "pcs me = Some (Switching (S_unlock tp g f))" and ok: "pc_ok s0 me (S_unlock tp g f)"
  shows "\<exists>r. switch_step K me (S_unlock tp g f) s = Some r \<and> step_good s0 pcs me (S_unlock tp g f) s r"
proof -
  have fam: "family s0 tp g" "tkey s0 tp = Some me" using ok by simp_all
  obtain gb where l: "live_fiber s g = Some gb" using family_live [OF inv sh fam(1)] by metis
  let ?V = "view s0 pcs s" and ?s = "store s g (OFiber (gb\<lparr>fiber_lock := False\<rparr>))"
  have "view s0 (pcs(me \<mapsto> Switching (S_restore tp f))) ?s = ?V\<lparr>plock := (plock ?V)(g := False), phand := (phand ?V)(tp := Free)\<rparr>"
    using view_pc [of pcs me, OF pc fam(2), of "S_restore tp f" ?s] view_fiber [OF l, of s0 pcs "gb\<lparr>fiber_lock := False\<rparr>"] l
    by (simp add: fun_upd_idem)
  moreover have "pstep (family s0) ?V \<dots>" by (rule p_unlock) (use pc fam in simp)
  ultimately have "proto_ok (family s0) (view s0 (pcs(me \<mapsto> Switching (S_restore tp f))) ?s)"
    using pstep_ok proto by metis
  moreover have "shape s0 ?s" by (rule shape_fiber [OF sh l]) (simp add: fiber_tag_def)
  ultimately show ?thesis using l ok by (simp add: step_good_def upd_fiber_live)
qed

lemma step_count_save:
  assumes inv: "kinv K s0" and sh: "shape s0 s" and proto: "proto_ok (family s0) (view s0 pcs s)"
  shows "pcs me = Some (Switching (S_count tp f)) \<Longrightarrow> pc_ok s0 me (S_count tp f) \<Longrightarrow>
      \<exists>r. switch_step K me (S_count tp f) s = Some r \<and> step_good s0 pcs me (S_count tp f) s r"
    "pcs me = Some (Switching (S_save tp g f)) \<Longrightarrow> pc_ok s0 me (S_save tp g f) \<Longrightarrow> tasks s me = Some cur \<Longrightarrow>
      \<exists>r. switch_step K me (S_save tp g f) s = Some r \<and> step_good s0 pcs me (S_save tp g f) s r"
proof -
  show "\<exists>r. switch_step K me (S_count tp f) s = Some r \<and> step_good s0 pcs me (S_count tp f) s r"
    if pc: "pcs me = Some (Switching (S_count tp f))" and ok: "pc_ok s0 me (S_count tp f)"
  proof -
    have fam: "family s0 tp f" using ok by simp
    obtain fb where l: "live_fiber s f = Some fb" using family_live [OF inv sh fam] by metis
    show ?thesis
      using step_quiet [OF sh proto pc l, of "fb\<lparr>activation_counter := activation_counter fb + 1\<rparr>" "S_select tp f"] l ok
      by (simp add: upd_fiber_live fiber_tag_def)
  qed
  show "\<exists>r. switch_step K me (S_save tp g f) s = Some r \<and> step_good s0 pcs me (S_save tp g f) s r"
    if pc: "pcs me = Some (Switching (S_save tp g f))" and ok: "pc_ok s0 me (S_save tp g f)" and cur: "tasks s me = Some cur"
  proof -
    have fam: "family s0 tp g" using ok by simp
    obtain gb where l: "live_fiber s g = Some gb" using family_live [OF inv sh fam] by metis
    show ?thesis
      using step_quiet [OF sh proto pc l, of "gb\<lparr>total_time := total_time gb + utime cur,
          registers := user_regs cur, fpu := fx cur\<rparr>" "S_detach tp g f"] l ok cur
      by (simp add: upd_fiber_live fiber_tag_def)
  qed
qed

lemma step_restore:
  assumes inv: "kinv K s0" and sh: "shape s0 s" and proto: "proto_ok (family s0) (view s0 pcs s)"
    and pc: "pcs me = Some (Switching (S_restore tp f))" and ok: "pc_ok s0 me (S_restore tp f)" and cur: "tasks s me = Some cur"
  shows "\<exists>r. switch_step K me (S_restore tp f) s = Some r \<and> step_good s0 pcs me (S_restore tp f) s r"
proof -
  have fam: "family s0 tp f" using ok by simp
  obtain fb where l: "live_fiber s f = Some fb" using family_live [OF inv sh fam] by metis
  let ?s = "set_task s me (cur\<lparr>user_regs := registers fb, fx := fpu fb\<rparr>)"
  have "view s0 (pcs(me \<mapsto> Switching (S_return 0))) ?s = view s0 pcs s"
    using view_pc_same [of pcs me _ "S_return 0", OF pc] by simp
  moreover have "map_option task_pid (tasks ?s x) = map_option task_pid (tasks s x)" for x
    using cur by (simp add: set_task_def)
  ultimately show ?thesis using l cur sh proto by (simp add: step_good_def get_live)
qed

text \<open>Every step of a switch in progress is possible, follows the protocol, and brings
  the switch closer to its return, whatever the other tasks are doing.\<close>

lemma switch_step_good:
  assumes inv: "kinv K s0" and sh: "shape s0 s" and proto: "proto_ok (family s0) (view s0 pcs s)"
    and pc: "pcs me = Some (Switching pc)" and ok: "pc_ok s0 me pc" and cur: "tasks s me = Some cur"
    and busy: "\<And>r. pc \<noteq> S_return r"
  shows "\<exists>r. switch_step K me pc s = Some r \<and> step_good s0 pcs me pc s r"
proof (cases pc)
  case (S_find fid tid)
  then show ?thesis using step_find [OF inv sh proto _ cur, of fid] pc ok by (auto simp del: switch_step.simps)
next
  case (S_trylock tp f)
  then show ?thesis using step_trylock [OF inv sh proto, of me tp f] pc ok by (auto simp del: switch_step.simps)
next
  case (S_check tp f)
  then show ?thesis using step_check [OF inv sh proto, of me tp f] pc ok by (auto simp del: switch_step.simps)
next
  case (S_fail f)
  then show ?thesis using step_fail [OF inv sh proto, of me f] pc ok by (auto simp del: switch_step.simps)
next
  case (S_attach tp f)
  then show ?thesis using step_attach [OF inv sh proto, of me tp f] pc ok by (auto simp del: switch_step.simps)
next
  case (S_count tp f)
  then show ?thesis using step_count_save(1) [OF inv sh proto, of me tp f] pc ok by (auto simp del: switch_step.simps)
next
  case (S_select tp f)
  then show ?thesis using step_select [OF inv sh proto, of me tp f] pc ok by (auto simp del: switch_step.simps)
next
  case (S_save tp g f)
  then show ?thesis using step_count_save(2) [OF inv sh proto, of me tp g f cur] pc ok cur by (auto simp del: switch_step.simps)
next
  case (S_detach tp g f)
  then show ?thesis using step_detach [OF inv sh proto, of me tp g f] pc ok by (auto simp del: switch_step.simps)
next
  case (S_unlock tp g f)
  then show ?thesis using step_unlock [OF inv sh proto, of me tp g f] pc ok by (auto simp del: switch_step.simps)
next
  case (S_restore tp f)
  then show ?thesis using step_restore [OF inv sh proto, of me tp f cur] pc ok cur by (auto simp del: switch_step.simps)
qed (use busy in blast)

section \<open>Every interleaving\<close>

lemma cinvD:
  assumes "cinv s0 (pcs, s)"
  shows "shape s0 s" "pids_ok s" "proto_ok (family s0) (view s0 pcs s)"
    "pcs me = Some op \<Longrightarrow> tasks s me \<noteq> None \<and> (\<exists>pc. op = Switching pc \<and> pc_ok s0 me pc)"
  using assms by (auto simp: cinv_def)

lemma cinvI:
  assumes "shape s0 s" "pids_ok s" "proto_ok (family s0) (view s0 pcs s)"
    "\<And>me op. pcs me = Some op \<Longrightarrow> tasks s me \<noteq> None \<and> (\<exists>pc. op = Switching pc \<and> pc_ok s0 me pc)"
  shows "cinv s0 (pcs, s)"
  unfolding cinv_def using assms by blast

lemma cinv_run:
  assumes inv: "kinv K s0" and c: "cinv s0 (pcs, s)" and pc: "pcs me = Some (Switching pc)"
    and r: "switch_step K me pc s = Some (pc', s')"
  shows "cinv s0 (pcs(me \<mapsto> Switching pc'), s')"
proof (cases "\<exists>r. pc = S_return r")
  case True
  then have "pcs(me \<mapsto> Switching pc') = pcs" "s' = s" using r pc by auto
  then show ?thesis using c by simp
next
  case False
  note D = cinvD [OF c]
  obtain cur where cur: "tasks s me = Some cur" and ok: "pc_ok s0 me pc" using D(4) [OF pc] by auto
  have "step_good s0 pcs me pc s (pc', s')"
    using switch_step_good [OF inv D(1,3) pc ok cur] False r by auto
  then have g: "shape s0 s'" "\<And>x. map_option task_pid (tasks s' x) = map_option task_pid (tasks s x)" "pc_ok s0 me pc'"
      "proto_ok (family s0) (view s0 (pcs(me \<mapsto> Switching pc')) s')"
    by (simp_all add: step_good_def)
  have "tasks s' x \<noteq> None" if "tasks s x \<noteq> None" for x using g(2) [of x] that by auto
  then have "tasks s' x \<noteq> None \<and> (\<exists>pc. op = Switching pc \<and> pc_ok s0 x pc)" if "(pcs(me \<mapsto> Switching pc')) x = Some op" for x op
    using that D(4) [of x op] cur g(3) by (cases "x = me") auto
  then show ?thesis by (intro cinvI g(1,4) pids_ok_cong [OF D(2) g(2)])
qed

lemma cinv_step:
  assumes inv: "kinv K s0" and c: "cinv s0 X" and step: "cstep K False X Y"
  shows "cinv s0 Y"
  using step
proof cases
  case (enter_switch pcs me s cur fid)
  note D = cinvD [OF c [unfolded enter_switch(1)]]
  have "task_pid cur = me" using D(2) enter_switch by (auto simp: pids_ok_def)
  moreover have "view s0 (pcs(me \<mapsto> Switching (S_find fid me))) s = view s0 pcs s"
    using view_pc_same [of pcs me None "S_find fid me", OF enter_switch(3)] by simp
  ultimately show ?thesis using D enter_switch by (auto simp: cinv_def)
next
  case (run_switch pcs me pc s pc' s')
  then show ?thesis using cinv_run [OF inv] c by metis
next
  case (leave_switch pcs me r s)
  note D = cinvD [OF c [unfolded leave_switch(1)]]
  have "view s0 (pcs(me := None)) s = view s0 pcs s"
  proof (intro proto_eqI ext)
    fix t
    show "phand (view s0 (pcs(me := None)) s) t = phand (view s0 pcs s) t"
      using leave_switch(3) by (cases "tkey s0 t") auto
  qed simp_all
  then show ?thesis using D leave_switch by (auto simp: cinv_def)
next
  case (compute pcs me s t t')
  note D = cinvD [OF c [unfolded compute(1)]]
  have "tasks (set_task s me t') x \<noteq> None" if "tasks s x \<noteq> None" for x using that by (simp add: set_task_def)
  moreover have "pids_ok (set_task s me t')"
    by (rule pids_ok_cong [OF D(2)]) (use compute in \<open>simp add: set_task_def\<close>)
  ultimately show ?thesis using D compute by (auto simp: cinv_def)
next
  case (run_convert pcs me pc s pc' s')
  then show ?thesis using cinvD(4) [OF c [unfolded run_convert(1)] run_convert(3)] by simp
next
  case (leave_convert pcs me r s)
  then show ?thesis using cinvD(4) [OF c [unfolded leave_convert(1)] leave_convert(3)] by simp
qed simp

text \<open>The start: no call is in progress.\<close>

lemma proto_quiet:
  assumes inv: "kinv K s"
  shows "proto_ok (family s) (view s Map.empty s)"
proof -
  let ?V = "view s Map.empty s"
  have hand: "phand ?V t = Free" for t by (cases "tkey s t") simp_all
  have c: "claims ?V t f \<longleftrightarrow> (\<exists>th. live_thread s t = Some th \<and> selected_fiber th = Some f)" for t f
    using hand [of t] by (auto simp: claims_def bind_eq_Some_conv)
  have live: "\<exists>fb. live_fiber s f = Some fb" if "claims ?V t f" for t f
    using that selected_live [OF inv] unfolding c by (metis option.inject)
  have "plock ?V f \<longleftrightarrow> (\<exists>t. claims ?V t f)" for f
    using lock_iff_selected [OF inv, of f] live [of _ f] by (cases "live_fiber s f") (auto simp: c)
  moreover have "t = t'" if "claims ?V t f" "claims ?V t' f" for t t' f
    using that selected_once [OF inv] unfolding c by metis
  moreover have "patt ?V f = Some t \<longleftrightarrow> psel ?V t = Some f" for t f
    using attached_iff_selected [OF inv, of f _ t] live [of t f]
    by (cases "live_fiber s f") (auto simp: c bind_eq_Some_conv)
  moreover have "family s t f" if tf: "claims ?V t f" for t f
  proof -
    obtain th where th: "live_thread s t = Some th" "selected_fiber th = Some f" using tf unfolding c by blast
    obtain a p where a: "t \<in> nodes (threads p)" "threads_ok K s a p" "a \<in> nodes (processes s)" "live_process s a = Some p"
      using live_thread_owner [OF inv th(1)] by metis
    then show ?thesis using thread_links(3) [OF a(2,1) th(1)] th(2) by (auto simp: family_def)
  qed
  moreover have "psel ?V t \<noteq> NULL" if tf: "family s t f" for t f
  proof -
    obtain th where th: "live_thread s t = Some th" using family_live [OF inv shape_refl tf] by metis
    then show ?thesis using selected_live [OF inv th] by auto
  qed
  ultimately show ?thesis unfolding proto_ok_def using hand by auto
qed

lemma cinv_start: "kinv K s \<Longrightarrow> pids_ok s \<Longrightarrow> cinv s (Map.empty, s)"
  by (intro cinvI proto_quiet) auto

text \<open>The end: when no call is in progress any more, the invariant of the module holds again.\<close>

lemma quiet_threads_ok:
  assumes ok: "threads_ok K s0 a p" and inv: "kinv K s0" and a: "a \<in> nodes (processes s0)" "live_process s0 a = Some p"
    and sh: "shape s0 s" and proto: "proto_ok (family s0) (view s0 Map.empty s)"
  shows "threads_ok K s a p"
proof -
  have "\<exists>th. live_thread s t = Some th \<and> thread_ok s a p t th" if t: "t \<in> nodes (threads p)" for t
  proof -
    obtain th0 f0 where th0: "live_thread s0 t = Some th0" "parent th0 = Some a" "f0 \<in> nodes (fibers p)"
      using threads_okD [OF ok t] by metis
    obtain th where th: "live_thread s t = Some th" "thread_tag th = thread_tag th0" using shape_live(1) [OF sh th0(1)] by blast
    have "family s0 t f0" using a t th0(3) by (auto simp: family_def)
    then obtain f where f: "selected_fiber th = Some f" using proto_okD(6) [OF proto] th(1) by fastforce
    then have sel: "psel (view s0 Map.empty s) t = Some f" using th(1) by simp
    then have "family s0 t f" by (rule proto_selected [OF proto])
    then obtain b q where b: "b \<in> nodes (processes s0)" "live_process s0 b = Some q" "t \<in> nodes (threads q)" "f \<in> nodes (fibers q)"
      by (auto simp: family_def)
    have "threads_ok K s0 b q" using inv_process [OF inv b(1)] b(2) by (metis option.inject)
    then have "b = a" using thread_links(2) [OF _ b(3) th0(1)] th0(2) by simp
    then have fp: "f \<in> nodes (fibers p)" using a(2) b(2,4) by simp
    have "patt (view s0 Map.empty s) f = Some t" using proto_okD(4) [OF proto] sel by blast
    then obtain fb where "live_fiber s f = Some fb" "attached_thread fb = Some t" by (auto simp: bind_eq_Some_conv)
    then show ?thesis using th f fp th0(2) by (auto simp: thread_ok_def thread_tag_def)
  qed
  then show ?thesis using ok by (simp add: threads_ok_def shape_keys [OF sh])
qed

lemma quiet_fibers_ok:
  assumes ok: "fibers_ok K s0 a p" and inv: "kinv K s0" and a: "a \<in> nodes (processes s0)" "live_process s0 a = Some p"
    and sh: "shape s0 s" and proto: "proto_ok (family s0) (view s0 Map.empty s)"
  shows "fibers_ok K s a p"
proof -
  let ?V = "view s0 Map.empty s"
  have hand: "phand ?V t = Free" for t by (cases "tkey s0 t") simp_all
  have "\<exists>fb. live_fiber s f = Some fb \<and> fiber_ok s a p f fb" if f: "f \<in> nodes (fibers p)" for f
  proof -
    obtain fb0 where fb0: "live_fiber s0 f = Some fb0" "fiber_ok s0 a p f fb0" using fibers_okD [OF ok f] by metis
    obtain fb where fb: "live_fiber s f = Some fb" "fiber_tag fb = fiber_tag fb0" using shape_live(2) [OF sh fb0(1)] by blast
    have att: "attached_thread fb = Some t \<longleftrightarrow> psel ?V t = Some f" for t
      using proto_okD(4) [OF proto, of f t] hand [of t] fb(1) by simp
    have "fiber_lock fb \<longleftrightarrow> (\<exists>t. psel ?V t = Some f)"
      using proto_okD(1) [OF proto, of f] hand fb(1) by (simp add: claims_def)
    then have lock: "fiber_lock fb \<longleftrightarrow> attached_thread fb \<noteq> NULL" using att by auto
    have "t \<in> nodes (threads p) \<and> (\<exists>th. live_thread s t = Some th \<and> selected_fiber th = Some f)"
      if t: "attached_thread fb = Some t" for t
    proof -
      have "psel ?V t = Some f" using att t by blast
      moreover from this have "family s0 t f" by (rule proto_selected [OF proto])
      then obtain b q where b: "b \<in> nodes (processes s0)" "live_process s0 b = Some q" "t \<in> nodes (threads q)" "f \<in> nodes (fibers q)"
        by (auto simp: family_def)
      have "fibers_ok K s0 b q" using inv_process [OF inv b(1)] b(2) by (metis option.inject)
      then have "b = a" using fiber_links(1) [OF _ b(4) fb0(1)] fiber_links(1) [OF ok f fb0(1)] by simp
      ultimately show ?thesis using a(2) b(2,3) by (auto simp: bind_eq_Some_conv)
    qed
    then show ?thesis using fb fb0(2) lock by (auto simp: fiber_ok_def fiber_tag_def)
  qed
  then show ?thesis using ok by (simp add: fibers_ok_def shape_keys [OF sh])
qed

lemma quiet_inv:
  assumes inv: "kinv K s0" and c: "cinv s0 (Map.empty, s)"
  shows "kinv K s"
proof -
  note sh = cinvD(1) [OF c] and proto = cinvD(3) [OF c]
  have "process_ok K s a" if a: "a \<in> nodes (processes s0)" for a
  proof -
    obtain p where p: "live_process s0 a = Some p" "threads_ok K s0 a p" "fibers_ok K s0 a p" by (rule inv_process [OF inv a])
    then show ?thesis
      using quiet_threads_ok [OF p(2) inv a p(1) sh proto] quiet_fibers_ok [OF p(3) inv a p(1) sh proto] sh
      by (auto simp: process_ok_def shape_def)
  qed
  moreover have "owned s a = owned s0 a" for a using sh by (simp add: owned_def shape_def)
  ultimately show ?thesis using inv sh by (simp add: kinv_def shape_keys [OF sh] shape_def)
qed

interpretation switches: invariant_system "\<lambda>X. X = (Map.empty, s0)" "cstep K False"
    "\<lambda>X. kinv K s0 \<longrightarrow> pids_ok s0 \<longrightarrow> cinv s0 X"
  for K :: kapi and s0 :: kstate
proof
  show "kinv K s0 \<longrightarrow> pids_ok s0 \<longrightarrow> cinv s0 X" if "X = (Map.empty, s0)" for X
    using that cinv_start by blast
  show "kinv K s0 \<longrightarrow> pids_ok s0 \<longrightarrow> cinv s0 Y" if "kinv K s0 \<longrightarrow> pids_ok s0 \<longrightarrow> cinv s0 X" "cstep K False X Y" for X Y
    using that cinv_step by blast
qed

lemma interleaved_cinv:
  assumes "kinv K s0" "pids_ok s0" "(cstep K False)\<^sup>*\<^sup>* (Map.empty, s0) X"
  shows "cinv s0 X"
  using switches.reach_inv [OF refl assms(3)] assms(1,2) by blast

end
