(* ===== verification/Concurrency_Props.thy ===== *)
theory Concurrency_Props
  imports Fiber_Concurrent Fiber_Examples
begin

text \<open>
  The properties of the interleaved execution: the steps are the functions, the
  switches of any number of threads are safe together and finish, and the
  conversion of a thread is not safe next to a switch.
\<close>

section \<open>Switches\<close>

lemma convert_tasks:
  assumes "do_ConvertThreadToFiber K me tid s = Some (r, s')"
  shows "tasks s' = tasks s"
  using assms
  by (auto simp: do_ConvertThreadToFiber_def convert_thread_def spin_lock_struct_process_def spin_unlock_struct_process_def
      spin_trylock_def bind_eq_Some_conv Let_def split: option.splits if_splits dest!: init_tasks upd_tasks_eq)

lemma create_tasks:
  assumes "do_CreateFiber K me stk sz func par tid s = Some (r, s')"
  shows "tasks s' = tasks s"
  using assms by (auto simp: do_CreateFiber_def bind_eq_Some_conv split: option.splits dest!: init_tasks upd_tasks_eq)

lemma ex_pids: "pids_ok ex2" "pids_ok ex3"
proof -
  have 0: "tasks ex0 = [1 \<mapsto> task1, 2 \<mapsto> task2]" by (simp add: ex0_def)
  have "tasks ex2 = tasks ex0" "tasks ex3 = tasks ex0"
    using convert_tasks [OF ex_runs(1)] create_tasks [OF ex_runs(2)] convert_tasks [OF ex_runs(3)] by simp_all
  then show "pids_ok ex2" "pids_ok ex3" by (simp_all add: 0 pids_ok_def task1_def task2_def split: if_splits)
qed

text \<open>Executed without interruption, the steps of the switch are the function, with its result,
  its faults and its final state; so are the steps of the conversion.\<close>

lemma steps_are_functions:
  "run_steps (switch_step K me) 10 (S_find fid tid) s =
     map_option (\<lambda>(r, s). (S_return r, s)) (do_SwitchToFiber K me fid tid s) \<and>
   run_steps (convert_step K me) 8 (C_process tid) s =
     map_option (\<lambda>(r, s). (C_return r, s)) (do_ConvertThreadToFiber K me tid s)"
  using switch_steps [of K me 0 fid tid s] convert_steps [of K me 0 tid s]
  by (simp only: numeral_eq_Suc pred_numeral_simps BitM.simps)

text \<open>\<^bold>\<open>C5\<close> (interleaved switches). However the steps of the switches of any number of threads interleave, no
  two threads ever have the same fiber selected, and whenever no call is in
  progress the invariant of the module holds, so that no lock is lost.\<close>

theorem interleaved_switches_safe:
  assumes inv: "kinv K s0" and pids: "pids_ok s0" and run: "(cstep K False)\<^sup>*\<^sup>* (Map.empty, s0) (pcs, s)"
  shows "(\<forall>t t' th th'. live_thread s t = Some th \<longrightarrow> live_thread s t' = Some th' \<longrightarrow>
      selected_fiber th \<noteq> NULL \<longrightarrow> selected_fiber th = selected_fiber th' \<longrightarrow> t = t') \<and>
    (pcs = Map.empty \<longrightarrow> kinv K s)"
proof -
  have c: "cinv s0 (pcs, s)" by (rule interleaved_cinv [OF inv pids run])
  have "t = t'" if "live_thread s t = Some th" "live_thread s t' = Some th'" "selected_fiber th = Some f"
    "selected_fiber th' = Some f" for t t' th th' f
    using proto_okD(2) [OF cinvD(3) [OF c], of t f t'] that by (simp add: claims_def)
  then show ?thesis using quiet_inv [OF inv] c by auto
qed

text \<open>Both threads of the example ask for the fiber 2: the second comes between the
  locking and the attaching of the first, and is refused.\<close>

definition contest :: "move list" where
  "contest = [Call_switch 1 2, Run 1, Run 1, Call_switch 2 2, Run 2, Run 2, Run 1, Run 2, Run 1, Run 1, Leave_call 2]"

lemma contest_run:
  "map_option (\<lambda>(pcs, s). (pcs 1, pcs 2, map_option selected_fiber (live_thread s 2))) (schedule K0 contest (Map.empty, ex3)) =
     Some (Some (Switching (S_select 2 4)), None, Some (Some 3))"
  by code_simp

lemma contest_steps:
  obtains pcs s where "(cstep K0 False)\<^sup>*\<^sup>* (Map.empty, ex3) (pcs, s)" "pcs 1 = Some (Switching (S_select 2 4))"
    "map_option selected_fiber (live_thread s 2) = Some (Some 3)"
proof -
  obtain pcs s where s: "schedule K0 contest (Map.empty, ex3) = Some (pcs, s)" "pcs 1 = Some (Switching (S_select 2 4))"
      "map_option selected_fiber (live_thread s 2) = Some (Some 3)"
    using contest_run by auto
  have "(cstep K0 False)\<^sup>*\<^sup>* (Map.empty, ex3) (pcs, s)"
    by (rule schedule_steps [OF s(1)]) (simp add: contest_def)
  then show ?thesis using s(2,3) by (rule that)
qed

theorem interleaved_switches_safe_witness:
  "\<exists>pcs s. (cstep K0 False)\<^sup>*\<^sup>* (Map.empty, ex3) (pcs, s) \<and> pcs 1 = Some (Switching (S_select 2 4)) \<and>
     map_option selected_fiber (live_thread s 5) \<noteq> Some (Some 3)"
proof -
  obtain pcs s where s: "(cstep K0 False)\<^sup>*\<^sup>* (Map.empty, ex3) (pcs, s)" "pcs 1 = Some (Switching (S_select 2 4))"
      "map_option selected_fiber (live_thread s 2) = Some (Some 3)"
    by (rule contest_steps)
  then obtain th where th: "live_thread s 2 = Some th" "selected_fiber th = Some 3" by auto
  have "map_option selected_fiber (live_thread s 5) \<noteq> Some (Some 3)"
  proof
    assume "map_option selected_fiber (live_thread s 5) = Some (Some 3)"
    then obtain th' where "live_thread s 5 = Some th'" "selected_fiber th' = Some 3" by auto
    then have "(2 :: addr) = 5" using interleaved_switches_safe [OF ex_inv(4) ex_pids(2) s(1)] th by (metis option.distinct(1))
    then show False by simp
  qed
  then show ?thesis using s by blast
qed

text \<open>\<^bold>\<open>C17\<close> (wait freedom). A switch in progress never waits and never faults: whatever the other threads
  are doing, its next step is possible and comes strictly closer to the return,
  which is at most ten steps away.\<close>

theorem switches_finish:
  assumes inv: "kinv K s0" and pids: "pids_ok s0" and run: "(cstep K False)\<^sup>*\<^sup>* (Map.empty, s0) (pcs, s)"
    and pc: "pcs me = Some op"
  shows "\<exists>pc. op = Switching pc \<and> pc_rank pc \<le> 10 \<and>
    ((\<exists>r. pc = S_return r) \<or>
     (\<exists>pc' s'. switch_step K me pc s = Some (pc', s') \<and> pc_rank pc' < pc_rank pc \<and>
        cstep K False (pcs, s) (pcs(me \<mapsto> Switching pc'), s')))"
proof -
  have c: "cinv s0 (pcs, s)" by (rule interleaved_cinv [OF inv pids run])
  obtain cur p where p: "tasks s me = Some cur" "op = Switching p" "pc_ok s0 me p" using cinvD(4) [OF c pc] by auto
  have rank: "pc_rank p \<le> 10" by (cases p) simp_all
  show ?thesis
  proof (cases "\<exists>r. p = S_return r")
    case False
    then obtain p' s' where s': "switch_step K me p s = Some (p', s')" "step_good s0 pcs me p s (p', s')"
      using switch_step_good [OF inv cinvD(1,3) [OF c] _ p(3,1)] pc p(2) by (metis prod.exhaust)
    have "cstep K False (pcs, s) (pcs(me \<mapsto> Switching p'), s')" using pc p(2) s'(1) by (auto intro: run_switch)
    then show ?thesis using p(2) rank s' by (auto simp: step_good_def simp del: switch_step.simps)
  qed (use p rank in auto)
qed

theorem switches_finish_witness:
  "\<exists>pcs s pc' s'. (cstep K0 False)\<^sup>*\<^sup>* (Map.empty, ex3) (pcs, s) \<and> pcs 1 = Some (Switching (S_select 2 4)) \<and>
     switch_step K0 1 (S_select 2 4) s = Some (pc', s') \<and> pc_rank pc' < pc_rank (S_select 2 4)"
proof -
  obtain pcs s where s: "(cstep K0 False)\<^sup>*\<^sup>* (Map.empty, ex3) (pcs, s)" "pcs 1 = Some (Switching (S_select 2 4))"
    by (rule contest_steps)
  show ?thesis
    using switches_finish [OF ex_inv(4) ex_pids(2) s] s by (auto simp del: switch_step.simps)
qed

section \<open>Conversion\<close>

text \<open>The fiber of a thread that is being converted is in the table before it is attached
  and locked.\<close>

definition stolen :: "move list" where
  "stolen = [Call_convert 2, Run 2, Run 2, Run 2, Run 2, Call_switch 1 3] @ replicate 10 (Run 1) @ [Leave_call 1] @ replicate 4 (Run 2)"

lemma stolen_run:
  "map_option (\<lambda>(pcs, s). (pcs 1, pcs 2, map_option selected_fiber (live_thread s 2), map_option selected_fiber (live_thread s 5)))
     (schedule K0 stolen (Map.empty, ex2)) =
   Some (None, Some (Converting (C_return (-1))), Some (Some 6), Some (Some 6))"
  by code_simp

text \<open>\<^bold>\<open>C33\<close> (race of the conversion). When threads may also be converted, the mutual exclusion fails: from a
  consistent state two threads can come to have the same fiber selected. One asks
  for the fiber of a thread that is being converted, after the fiber was put into
  the table and before it was locked. The conversion is then reported as failed.\<close>

theorem conversion_races_switch:
  "\<exists>K s0 pcs s t t' th th' f. kapi_ok K \<and> kinv K s0 \<and> pids_ok s0 \<and> (cstep K True)\<^sup>*\<^sup>* (Map.empty, s0) (pcs, s) \<and>
     pcs 1 = None \<and> pcs 2 = Some (Converting (C_return (-1))) \<and> t \<noteq> t' \<and>
     live_thread s t = Some th \<and> live_thread s t' = Some th' \<and> selected_fiber th = Some f \<and> selected_fiber th' = Some f"
proof -
  obtain pcs s where s: "schedule K0 stolen (Map.empty, ex2) = Some (pcs, s)" "pcs 1 = None"
      "pcs 2 = Some (Converting (C_return (-1)))"
      "map_option selected_fiber (live_thread s 2) = Some (Some 6)" "map_option selected_fiber (live_thread s 5) = Some (Some 6)"
    using stolen_run by auto
  moreover have "(cstep K0 True)\<^sup>*\<^sup>* (Map.empty, ex2) (pcs, s)" by (rule schedule_steps [OF s(1)]) simp
  moreover have "(2 :: addr) \<noteq> 5" by simp
  ultimately show ?thesis using K0_ok(1) ex_inv(3) ex_pids(1) by blast
qed

end
