(* ===== verification/Fiber_Creation.thy ===== *)
theory Fiber_Creation
  imports Fiber_Concurrent
begin

text \<open>
  The creation of a fiber (\<^verbatim>\<open>do_CreateFiber\<close> of \<^verbatim>\<open>module/fibers.c\<close> with the macro \<open>init_fiber\<close> of
  \<^verbatim>\<open>module/init.h\<close>) cut into steps, and creations that interleave.

  The number is taken with an atomic increment, but the insertion into the table is
  not atomic: \<open>hash_add_rcu\<close> reads the head of the bucket, links it behind the new node
  and then writes the new head. No lock is held. The fields of the new object that the
  code has not written yet hold whatever was in the memory, \<open>junk\<close>.
\<close>

section \<open>The steps\<close>

record create_args =
  ca_stack :: ulong
  ca_size :: ulong
  ca_function :: ulong
  ca_parameters :: ulong

datatype create_pc =
    N_find create_args pid_t \<comment> \<open>the two look-ups\<close>
  | N_alloc addr create_args \<comment> \<open>\<open>kmalloc\<close> and the fields before the number\<close>
  | N_number addr addr create_args \<comment> \<open>\<open>atomic64_inc_return\<close>\<close>
  | N_head addr addr create_args \<comment> \<open>the head of the bucket is read\<close>
  | N_publish addr addr create_args "addr list" \<comment> \<open>the new head is written\<close>
  | N_fill addr create_args \<comment> \<open>the rest of the macro\<close>
  | N_ip addr create_args
  | N_di addr create_args
  | N_start addr create_args
  | N_id addr
  | N_return pid_t

definition allocated_fiber :: "fiber \<Rightarrow> task \<Rightarrow> addr \<Rightarrow> create_args \<Rightarrow> fiber" where
  "allocated_fiber junk cur ep x = (let top = ca_stack x + ca_size x - 8 in
     junk\<lparr>fiber_lock := False, attached_thread := NULL, parent_process := Some ep, fls := (\<lambda>_. 0), fls_bitmap := bitmap_zero,
       registers := (user_regs cur)\<lparr>sp := top, bp := top\<rparr>, fiber_stack := ca_stack x, fiber_stack_size := ca_size x\<rparr>)"

fun create_step :: "kapi \<Rightarrow> fiber \<Rightarrow> pid_t \<Rightarrow> create_pc \<Rightarrow> kstate \<Rightarrow> (create_pc \<times> kstate) option" where
  "create_step K junk me (N_find x tid) s = do {
     cur \<leftarrow> tasks s me;
     ep \<leftarrow> find_process_by_tgid K (task_tgid cur) s;
     (case ep of None \<Rightarrow> Some (N_return (-1), s)
      | Some ep \<Rightarrow> do {
          gp \<leftarrow> find_thread_by_pid K tid ep s;
          (case gp of None \<Rightarrow> Some (N_return (-1), s) | Some gp \<Rightarrow> Some (N_alloc ep x, s)) }) }"
| "create_step K junk me (N_alloc ep x) s = do {
     cur \<leftarrow> tasks s me;
     let (f, s) = kmalloc K s;
     f \<leftarrow> f;
     Some (N_number ep f x, store s f (OFiber (allocated_fiber junk cur ep x))) }"
| "create_step K junk me (N_number ep f x) s = do {
     p \<leftarrow> get_process K s ep;
     s \<leftarrow> upd_process s ep (\<lambda>p. p\<lparr>last_fiber_id := last_fiber_id p + 1\<rparr>);
     s \<leftarrow> upd_fiber s f (\<lambda>fb. fb\<lparr>fiber_id := ucast (last_fiber_id p + 1)\<rparr>);
     Some (N_head ep f x, s) }"
| "create_step K junk me (N_head ep f x) s = do {
     fb \<leftarrow> get_fiber K s f;
     p \<leftarrow> get_process K s ep;
     Some (N_publish ep f x (fibers p (hash_min K (fiber_id fb))), s) }"
| "create_step K junk me (N_publish ep f x first) s = do {
     fb \<leftarrow> get_fiber K s f;
     s \<leftarrow> upd_process s ep (\<lambda>p. p\<lparr>fibers := (fibers p)(hash_min K (fiber_id fb) := f # first)\<rparr>);
     Some (N_fill f x, s) }"
| "create_step K junk me (N_fill f x) s = do {
     cur \<leftarrow> tasks s me;
     s \<leftarrow> upd_fiber s f (\<lambda>fb. fb\<lparr>start_address := ip (user_regs cur), creator_thread := task_pid cur, activation_counter := 0,
       failed_activation_counter := 0, fpu := fx cur, total_time := 0, name := snprintf 256 (dec_int (sint (fiber_id fb)))\<rparr>);
     Some (N_ip f x, s) }"
| "create_step K junk me (N_ip f x) s = do {
     s \<leftarrow> upd_fiber s f (\<lambda>fb. fb\<lparr>registers := (registers fb)\<lparr>ip := ca_function x\<rparr>\<rparr>);
     Some (N_di f x, s) }"
| "create_step K junk me (N_di f x) s = do {
     s \<leftarrow> upd_fiber s f (\<lambda>fb. fb\<lparr>registers := (registers fb)\<lparr>di := ca_parameters x\<rparr>\<rparr>);
     Some (N_start f x, s) }"
| "create_step K junk me (N_start f x) s = do {
     s \<leftarrow> upd_fiber s f (\<lambda>fb. fb\<lparr>start_address := ca_function x\<rparr>);
     Some (N_id f, s) }"
| "create_step K junk me (N_id f) s = do {
     fb \<leftarrow> get_fiber K s f;
     Some (N_return (fiber_id fb), s) }"
| "create_step K junk me (N_return r) s = Some (N_return r, s)"

section \<open>Without interruption\<close>

lemma create_returned [simp]: "run_steps (create_step K junk me) n (N_return r) s = Some (N_return r, s)"
  by (simp add: run_stuck)

lemma store_other: "a \<noteq> b \<Longrightarrow> store (store (store s a x) b y) a z = store (store s b y) a z"
  by (simp add: store_def fun_upd_twist)

lemma store_first: "a \<noteq> b \<Longrightarrow> store (store (store s a x) b y) a z = store (store s a z) b y"
  by (simp add: store_def fun_upd_twist)

lemma live_process_alloc [simp]: "live_process (alloc_step s) = live_process s"
  by (simp add: alloc_step_def)

lemma create_built:
  assumes cur: "tasks s me = Some cur" and p: "live_process s ep = Some p" and f: "f \<noteq> ep"
    and k: "kmalloc_at K (allocs s) (is_live s) = Some f"
  shows "run_steps (create_step K junk me) (Suc (Suc (Suc (Suc (Suc (Suc (Suc (Suc (Suc n))))))))) (N_alloc ep x) s =
      Some (N_return (next_fid p), store (store (alloc_step s) ep (OProcess (add_fiber K p f))) f
          (OFiber (created_fiber cur ep (ca_stack x) (ca_size x) (ca_function x) (ca_parameters x) (next_fid p))))"
proof -
  let ?x = "allocated_fiber junk cur ep x" and ?s = "alloc_step s"
  let ?p = "p\<lparr>last_fiber_id := last_fiber_id p + 1\<rparr>"
  let ?n = "\<lambda>p' fb. store (store ?s ep (OProcess p')) f (OFiber fb)"
  have 1: "create_step K junk me (N_alloc ep x) s = Some (N_number ep f x, store ?s f (OFiber ?x))"
    using cur k by (simp add: kmalloc_eq)
  have 2: "create_step K junk me (N_number ep f x) (store ?s f (OFiber ?x)) =
      Some (N_head ep f x, ?n ?p (?x\<lparr>fiber_id := next_fid p\<rparr>))"
    using p f get_live(1) [of "store ?s f (OFiber ?x)" ep p K]
    by (simp add: live_simps upd_process_def upd_fiber_def next_fid_def store_other)
  have 3: "create_step K junk me (N_head ep f x) (?n ?p fb) = Some (N_publish ep f x (fibers p (hash_min K (fiber_id fb))), ?n ?p fb)" for fb
    using f get_live(1) [of "?n ?p fb" ep ?p K] get_live(3) [of "?n ?p fb" f fb K] by (simp add: live_simps)
  have 4: "create_step K junk me (N_publish ep f x first) (?n ?p fb) =
      Some (N_fill f x, ?n (?p\<lparr>fibers := (fibers p)(hash_min K (fiber_id fb) := f # first)\<rparr>) fb)" for fb first
    using f get_live(3) [of "?n ?p fb" f fb K] by (simp add: live_simps upd_process_def store_first)
  have 5: "run_steps (create_step K junk me) (Suc (Suc (Suc (Suc (Suc n))))) (N_fill f x) (?n q (?x\<lparr>fiber_id := fid\<rparr>)) =
      Some (N_return fid, ?n q (created_fiber cur ep (ca_stack x) (ca_size x) (ca_function x) (ca_parameters x) fid))" for q fid
    using cur get_live(3) [of "?n q fb" f fb K for fb]
    by (simp add: live_simps upd_fiber_def) (cases junk, simp add: allocated_fiber_def created_fiber_def new_fiber_def Let_def)
  show ?thesis
    by (simp del: create_step.simps run_steps.simps(2) add: 1 2 3 4 5 add_fiber_def hash_add_rcu_def
        run_steps.simps(2) [of _ _ "N_alloc ep x"] run_steps.simps(2) [of _ _ "N_number ep f x"]
        run_steps.simps(2) [of _ _ "N_head ep f x"] run_steps.simps(2) [of _ _ "N_publish ep f x first" for first])
qed

lemma create_not_live:
  assumes "live_process s ep = None"
  shows "run_steps (create_step K junk me) (Suc (Suc n)) (N_alloc ep x) s = None"
proof -
  have "create_step K junk me (N_number ep f x) (store (alloc_step s) f (OFiber fb)) = None" for f fb
    using assms by (auto simp: upd_process_def live_simps split: bind_splits)
  then show ?thesis by (auto simp: kmalloc_eq split: bind_splits)
qed

lemma create_steps:
  assumes K: "kapi_ok K"
  shows "run_steps (create_step K junk me) (Suc (Suc (Suc (Suc (Suc (Suc (Suc (Suc (Suc (Suc n)))))))))) (N_find x tid) s =
    map_option (\<lambda>(r, s). (N_return r, s))
      (do_CreateFiber K me (ca_stack x) (ca_size x) (ca_function x) (ca_parameters x) tid s)"
proof -
  let ?n = "Suc (Suc (Suc (Suc (Suc (Suc (Suc (Suc (Suc n))))))))"
  have build: "run_steps (create_step K junk me) ?n (N_alloc ep x) s = map_option (\<lambda>(r, s). (N_return r, s)) (do {
      (fp, s) \<leftarrow> init_fiber K me ep (uint (ca_size x)) (ca_stack x) s;
      s \<leftarrow> upd_fiber s fp (\<lambda>f. f\<lparr>registers := (registers f)\<lparr>ip := ca_function x, di := ca_parameters x\<rparr>, start_address := ca_function x\<rparr>);
      f \<leftarrow> get_fiber K s fp;
      Some (fiber_id f, s) })" if cur: "tasks s me = Some cur" for ep cur
  proof (cases "live_process s ep")
    case None
    then show ?thesis using create_not_live [OF None, of K junk me]
      by (auto simp: init_fiber_def kmalloc_eq upd_process_def Let_def simp del: run_steps.simps(2) split: bind_splits)
  next
    case (Some p)
    show ?thesis
    proof (cases "kmalloc_at K (allocs s) (is_live s)")
      case None
      then show ?thesis using cur Some by (simp add: init_fiber_def kmalloc_eq)
    next
      case (Some f)
      then have "f \<noteq> ep" using kapi_ok_fresh [OF K Some] live_is_live(1) [OF \<open>live_process s ep = Some p\<close>] by blast
      note b = create_built [OF cur \<open>live_process s ep = Some p\<close> this Some, of junk n x]
      let ?s = "store (alloc_step s) ep (OProcess (add_fiber K p f))"
      show ?thesis
        using get_live(3) [of "store ?s f (OFiber fb)" f fb K for fb]
        unfolding b init_fiber_eq [OF K \<open>live_process s ep = Some p\<close> cur] Some
        by (simp add: upd_fiber_def live_simps created_fiber_def Let_def)
    qed
  qed
  show ?thesis
    unfolding run_steps.simps(2) [of _ _ "N_find x tid"]
    by (auto simp: do_CreateFiber_def build simp del: run_steps.simps(2) split: option.split bind_splits)
qed

section \<open>Creations that interleave\<close>

text \<open>What each task is executing, the results of the calls that have returned, by
  process, and the state.\<close>

type_synonym nstate = "(pid_t \<rightharpoonup> create_pc) \<times> (pid_t \<times> pid_t) list \<times> kstate"

inductive nstep :: "kapi \<Rightarrow> nstate \<Rightarrow> nstate \<Rightarrow> bool" for K :: kapi where
  enter_create: "pcs me = None \<Longrightarrow> tasks s me = Some cur \<Longrightarrow> nstep K (pcs, log, s) (pcs(me \<mapsto> N_find x (task_pid cur)), log, s)"
| run_create: "pcs me = Some pc \<Longrightarrow> ids_left K me s \<Longrightarrow> create_step K junk me pc s = Some (pc', s') \<Longrightarrow>
    nstep K (pcs, log, s) (pcs(me \<mapsto> pc'), log, s')"
| leave_create: "pcs me = Some (N_return r) \<Longrightarrow> tasks s me = Some cur \<Longrightarrow>
    nstep K (pcs, log, s) (pcs(me := None), log @ [(task_tgid cur, r)], s)"

subsection \<open>What a step does\<close>

text \<open>The process and the fiber a call works on, and the number it has taken.\<close>

fun of_process :: "create_pc \<Rightarrow> ptr" where
  "of_process (N_alloc ep x) = Some ep"
| "of_process (N_number ep f x) = Some ep"
| "of_process (N_head ep f x) = Some ep"
| "of_process (N_publish ep f x first) = Some ep"
| "of_process _ = NULL"

fun held :: "create_pc \<Rightarrow> ptr" where
  "held (N_number ep f x) = Some f"
| "held (N_head ep f x) = Some f"
| "held (N_publish ep f x first) = Some f"
| "held (N_fill f x) = Some f"
| "held (N_ip f x) = Some f"
| "held (N_di f x) = Some f"
| "held (N_start f x) = Some f"
| "held (N_id f) = Some f"
| "held _ = NULL"

fun numbering :: "create_pc \<Rightarrow> bool" where
  "numbering (N_number ep f x) = True"
| "numbering _ = False"

definition number_of :: "kstate \<Rightarrow> create_pc \<Rightarrow> pid_t option" where
  "number_of s pc = (case pc of N_return r \<Rightarrow> if r = -1 then None else Some r
     | _ \<Rightarrow> if numbering pc then None else held pc \<bind> (\<lambda>f. map_option fiber_id (live_fiber s f)))"

lemma fiber_not_process: "live_process s a = Some p \<Longrightarrow> live_fiber s f = Some fb \<Longrightarrow> f \<noteq> a"
  by (auto simp: live_fiber_def live_process_def split: option.splits cell.splits kobj.splits)

lemma step_fields:
  assumes "create_step K junk me pc s = Some (pc', s')"
  shows "tasks s' = tasks s" "processes s' = processes s"
  using assms by (cases pc; auto simp: bind_eq_Some_conv kmalloc_eq upd_process_def upd_fiber_def split: option.splits)+

lemma step_process:
  assumes K: "kapi_ok K" and step: "create_step K junk me pc s = Some (pc', s')" and p: "live_process s a = Some p"
  shows "\<exists>p'. live_process s' a = Some p' \<and> process_id p' = process_id p \<and>
    last_fiber_id p' = (if numbering pc \<and> of_process pc = Some a then last_fiber_id p + 1 else last_fiber_id p)"
proof -
  have fresh: "f \<noteq> a" if "kmalloc_at K (allocs s) (is_live s) = Some f" for f
    using kapi_ok_fresh [OF K that] live_is_live(1) [OF p] by blast
  show ?thesis
    using step p by (cases pc)
      (auto simp: bind_eq_Some_conv kmalloc_eq upd_process_def upd_fiber_def live_simps split: option.splits if_splits dest: fresh fiber_not_process)
qed

lemma step_fibers:
  assumes K: "kapi_ok K" and step: "create_step K junk me pc s = Some (pc', s')" and f: "live_fiber s f = Some fb" "held pc \<noteq> Some f"
  shows "live_fiber s' f = Some fb"
proof -
  have fresh: "x \<noteq> f" if "kmalloc_at K (allocs s) (is_live s) = Some x" for x
    using kapi_ok_fresh [OF K that] live_is_live(3) [OF f(1)] by blast
  have alloc: "live_fiber (alloc_step s) = live_fiber s" by (simp add: alloc_step_def)
  show ?thesis
    using step f by (cases pc)
      (auto simp: bind_eq_Some_conv kmalloc_eq upd_process_def upd_fiber_def live_simps alloc split: option.splits if_splits dest: fresh fiber_not_process)
qed

lemma step_held:
  assumes K: "kapi_ok K" and step: "create_step K junk me pc s = Some (pc', s')" and f: "held pc' = Some f"
    and h: "held pc = Some f \<Longrightarrow> live_fiber s f \<noteq> None"
  shows "live_fiber s' f \<noteq> None" "held pc = Some f \<or> \<not> is_live s f"
proof -
  show "held pc = Some f \<or> \<not> is_live s f"
    using step f by (cases pc) (auto simp: bind_eq_Some_conv kmalloc_eq split: option.splits dest: kapi_ok_fresh [OF K])
  show "live_fiber s' f \<noteq> None"
    using step f h by (cases pc)
      (auto simp: bind_eq_Some_conv kmalloc_eq upd_process_def upd_fiber_def live_simps split: option.splits if_splits dest: fiber_not_process)
qed

lemma step_number:
  assumes step: "create_step K junk me pc s = Some (pc', s')" and h: "\<And>f. held pc = Some f \<Longrightarrow> live_fiber s f \<noteq> None"
    and n: "number_of s pc \<noteq> Some (-1)"
  shows "if numbering pc then \<exists>ep p. of_process pc = Some ep \<and> live_process s ep = Some p \<and> number_of s' pc' = Some (next_fid p)
    else number_of s' pc' = number_of s pc"
proof -
  show ?thesis
    using step h n get_live(1) [of s _ _ K] get_live(3) [of s _ _ K] by (cases pc)
      (auto simp: number_of_def bind_eq_Some_conv kmalloc_eq upd_process_def upd_fiber_def live_simps next_fid_def
        split: option.splits if_splits dest: fiber_not_process)
qed

lemma step_home:
  assumes "create_step K junk me pc s = Some (pc', s')" "of_process pc' = Some a"
  shows "of_process pc = Some a \<or> (\<exists>cur. tasks s me = Some cur \<and> find_process_by_tgid K (task_tgid cur) s = Some (Some a))"
  using assms by (cases pc) (auto simp: bind_eq_Some_conv kmalloc_eq split: option.splits)

subsection \<open>The numbers are distinct\<close>

text \<open>The process structures are those of the start, up to their counters and fibers.\<close>

definition same_processes :: "kstate \<Rightarrow> kstate \<Rightarrow> bool" where
  "same_processes s0 s \<longleftrightarrow> tasks s = tasks s0 \<and> processes s = processes s0 \<and>
     (\<forall>a \<in> nodes (processes s0). pkey s a = pkey s0 a)"

lemma same_processes_find:
  assumes inv: "kinv K s0" and same: "same_processes s0 s"
  shows "proc_of K s = proc_of K s0" "find_process_by_tgid K g s = Some (proc_of K s0 g)"
proof -
  have keys: "pkey s a = pkey s0 a" if "a \<in> set (processes s0 b)" for a b
    using that same by (auto simp: same_processes_def bucket_in_nodes)
  have live: "\<exists>p. live_process s a = Some p" if "a \<in> set (processes s0 b)" for a b
  proof (rule inv_process [OF inv])
    show "a \<in> nodes (processes s0)" using that by (rule bucket_in_nodes)
  qed (use keys [OF that] in \<open>auto simp: pkey_def\<close>)
  show 1: "proc_of K s = proc_of K s0"
    using same by (auto simp: fun_eq_iff proc_of_def table_find_def same_processes_def keys intro!: find_cong)
  have "find_process_by_tgid K g s = Some (proc_of K s g)"
    unfolding find_process_by_tgid_def proc_of_def table_find_def
  proof (rule hash_for_each_possible_find)
    fix a assume "a \<in> set (processes s (hash_min K g))"
    then have "a \<in> set (processes s0 (hash_min K g))" using same by (simp add: same_processes_def)
    then obtain p where "live_process s a = Some p" using live by blast
    then show "(do { ep \<leftarrow> get_process K s a; Some (process_id ep = g) }) = Some (pkey s a = Some g)"
      by (simp add: get_live pkey_def)
  qed
  then show "find_process_by_tgid K g s = Some (proc_of K s0 g)" using 1 by simp
qed

text \<open>The numbers that have been handed out: to the calls that still run, and to those
  that have returned.\<close>

definition given :: "kstate \<Rightarrow> nstate \<Rightarrow> pid_t + nat \<Rightarrow> (pid_t \<times> pid_t) option" where
  "given s0 = (\<lambda>(pcs, log, s) i. case i of
       Inl me \<Rightarrow> do { cur \<leftarrow> tasks s0 me; pc \<leftarrow> pcs me; n \<leftarrow> number_of s pc; Some (task_tgid cur, n) }
     | Inr k \<Rightarrow> if k < length log \<and> snd (log ! k) \<noteq> -1 then Some (log ! k) else None)"

definition counted :: "kapi \<Rightarrow> kstate \<Rightarrow> kstate \<Rightarrow> pid_t \<times> pid_t \<Rightarrow> bool" where
  "counted K s0 s = (\<lambda>(g, n). \<exists>a p. proc_of K s0 g = Some a \<and> live_process s a = Some p \<and>
     0 < unat n \<and> unat n \<le> unat (last_fiber_id p) \<and> unat (last_fiber_id p) < 2 ^ 31)"

definition ninv :: "kapi \<Rightarrow> kstate \<Rightarrow> nstate \<Rightarrow> bool" where
  "ninv K s0 X \<longleftrightarrow> (case X of (pcs, log, s) \<Rightarrow> same_processes s0 s \<and>
     (\<forall>me pc. pcs me = Some pc \<longrightarrow> (\<exists>cur. tasks s0 me = Some cur \<and>
        (\<forall>a. of_process pc = Some a \<longrightarrow> proc_of K s0 (task_tgid cur) = Some a))) \<and>
     (\<forall>me pc f. pcs me = Some pc \<longrightarrow> held pc = Some f \<longrightarrow> live_fiber s f \<noteq> None) \<and>
     (\<forall>me pc you pc' f. pcs me = Some pc \<longrightarrow> pcs you = Some pc' \<longrightarrow> held pc = Some f \<longrightarrow> held pc' = Some f \<longrightarrow> you = me) \<and>
     (\<forall>i x. given s0 X i = Some x \<longrightarrow> counted K s0 s x) \<and>
     (\<forall>i j x. given s0 X i = Some x \<longrightarrow> given s0 X j = Some x \<longrightarrow> i = j))"

lemma ninvD:
  assumes "ninv K s0 (pcs, log, s)"
  shows "same_processes s0 s"
    "pcs me = Some pc \<Longrightarrow> \<exists>cur. tasks s0 me = Some cur \<and> (\<forall>a. of_process pc = Some a \<longrightarrow> proc_of K s0 (task_tgid cur) = Some a)"
    "pcs me = Some pc \<Longrightarrow> held pc = Some f \<Longrightarrow> live_fiber s f \<noteq> None"
    "pcs me = Some pc \<Longrightarrow> pcs you = Some pc' \<Longrightarrow> held pc = Some f \<Longrightarrow> held pc' = Some f \<Longrightarrow> you = me"
    "given s0 (pcs, log, s) i = Some x \<Longrightarrow> counted K s0 s x"
    "given s0 (pcs, log, s) i = Some x \<Longrightarrow> given s0 (pcs, log, s) j = Some x \<Longrightarrow> i = j"
  using assms unfolding ninv_def prod.case by blast+

lemma counted_number: "counted K s0 s (g, n) \<Longrightarrow> n \<noteq> -1"
proof
  assume "counted K s0 s (g, n)" "n = -1"
  then have "unat (-1 :: pid_t) < 2 ^ 31" by (auto simp: counted_def)
  moreover have "unat (-1 :: pid_t) = 2 ^ 32 - 1" by (simp add: unsigned_minus_1_eq_mask mask_eq_exp_minus_1)
  ultimately show False by simp
qed

lemma given_move:
  assumes "\<And>you. you \<noteq> me \<Longrightarrow> given s0 X' (Inl you) = given s0 X (Inl you)" "\<And>k. given s0 X' (Inr k) = given s0 X (Inr k)"
  shows "given s0 X' = (given s0 X)(Inl me := given s0 X' (Inl me))"
  using assms by (auto simp: fun_eq_iff split: sum.split) (metis sum.exhaust)

lemma next_fid_above:
  assumes "unat (last_fiber_id p) + 1 < 2 ^ 31"
  shows "unat (next_fid p) = unat (last_fiber_id p) + 1" "unat (last_fiber_id p + 1) = unat (last_fiber_id p) + 1"
proof -
  show 1: "unat (last_fiber_id p + 1) = unat (last_fiber_id p) + 1" using assms by (intro unat_Suc_word) simp
  show "unat (next_fid p) = unat (last_fiber_id p) + 1"
    using assms 1 unat_ucast_small [of "last_fiber_id p + 1", where 'b = 32] by (simp add: next_fid_def)
qed

text \<open>A number that was counted is counted after any step, and a number that a step takes
  is larger than all of them.\<close>

lemma counted_step:
  assumes K: "kapi_ok K" and step: "create_step K junk me pc s = Some (pc', s')" and x: "counted K s0 s x"
    and bound: "\<And>a p. numbering pc \<Longrightarrow> of_process pc = Some a \<Longrightarrow> live_process s a = Some p \<Longrightarrow> unat (last_fiber_id p) + 1 < 2 ^ 31"
  shows "counted K s0 s' x"
proof -
  obtain g n where [simp]: "x = (g, n)" by (cases x)
  obtain a p where a: "proc_of K s0 g = Some a" "live_process s a = Some p" "0 < unat n" "unat n \<le> unat (last_fiber_id p)"
      "unat (last_fiber_id p) < 2 ^ 31"
    using x by (auto simp: counted_def)
  show ?thesis
  proof (cases "numbering pc \<and> of_process pc = Some a")
    case True
    then show ?thesis using step_process [OF K step a(2)] next_fid_above(2) [of p] bound [of a p] a by (auto simp: counted_def)
  next
    case False
    then show ?thesis using step_process [OF K step a(2)] a by (auto simp: counted_def)
  qed
qed

lemma same_processes_step:
  assumes K: "kapi_ok K" and inv: "kinv K s0" and same: "same_processes s0 s" and step: "create_step K junk me pc s = Some (pc', s')"
  shows "same_processes s0 s'"
proof -
  have "pkey s' a = pkey s0 a" if a: "a \<in> nodes (processes s0)" for a
  proof -
    have 1: "pkey s a = pkey s0 a" using a same by (simp add: same_processes_def)
    obtain p where p: "live_process s a = Some p" by (rule inv_process [OF inv a]) (use 1 that in \<open>auto simp: pkey_def\<close>)
    then show ?thesis using step_process [OF K step p] 1 by (auto simp: pkey_def)
  qed
  then show ?thesis using same step_fields [OF step] by (simp add: same_processes_def)
qed

lemma given_fresh:
  assumes old: "\<forall>i x. G i = Some x \<longrightarrow> counted K s0 s x" "\<forall>i j x. G i = Some x \<longrightarrow> G j = Some x \<longrightarrow> i = j"
    and new: "\<not> counted K s0 s x"
  shows "\<forall>i j y. (G(k \<mapsto> x)) i = Some y \<longrightarrow> (G(k \<mapsto> x)) j = Some y \<longrightarrow> i = j"
  using assms by (metis fun_upd_apply option.inject)

lemma counted_new:
  assumes p: "proc_of K s0 g = Some a" "live_process s a = Some p" and b: "unat (last_fiber_id p) + 1 < 2 ^ 31"
  shows "\<not> counted K s0 s (g, next_fid p)"
  using p next_fid_above(1) [OF b] by (auto simp: counted_def)

lemma ninv_given:
  assumes K: "kapi_ok K" and s0: "kinv K s0" and inv: "ninv K s0 (pcs, log, s)" and pc: "pcs me = Some pc" and ids: "ids_left K me s"
    and step: "create_step K junk me pc s = Some (pc', s')"
  shows "given s0 (pcs(me \<mapsto> pc'), log, s') i = Some x \<Longrightarrow> counted K s0 s' x"
    "given s0 (pcs(me \<mapsto> pc'), log, s') i = Some x \<Longrightarrow> given s0 (pcs(me \<mapsto> pc'), log, s') j = Some x \<Longrightarrow> i = j"
proof -
  let ?X = "(pcs, log, s)" and ?Y = "(pcs(me \<mapsto> pc'), log, s')"
  note D = ninvD [OF inv]
  obtain cur where cur: "tasks s0 me = Some cur" "\<And>a. of_process pc = Some a \<Longrightarrow> proc_of K s0 (task_tgid cur) = Some a"
    using D(2) [OF pc] by auto
  have t: "tasks s = tasks s0" and home: "proc_of K s = proc_of K s0"
    using D(1) same_processes_find [OF s0 D(1)] by (simp_all add: same_processes_def)
  have bound: "unat (last_fiber_id p) + 1 < 2 ^ 31" if "of_process pc = Some a" "live_process s a = Some p" for a p
    using ids cur(1) cur(2) [OF that(1)] that(2) by (simp add: ids_left_def t home)
  have n: "number_of s pc \<noteq> Some (-1)"
    using D(5) [of "Inl me"] counted_number cur(1) pc by (fastforce simp: given_def)
  note num = step_number [OF step D(3) [OF pc] n]
  have others: "given s0 ?Y (Inl you) = given s0 ?X (Inl you)" if "you \<noteq> me" for you
  proof -
    have "live_fiber s' f = live_fiber s f" if "pcs you = Some q" "held q = Some f" for q f
    proof -
      have "held pc \<noteq> Some f" using D(4) [OF pc that(1) _ that(2)] \<open>you \<noteq> me\<close> by blast
      then show ?thesis using D(3) [OF that] step_fibers [OF K step] by force
    qed
    then show ?thesis using that by (auto simp: given_def number_of_def split: bind_splits create_pc.splits)
  qed
  have G: "given s0 ?Y = (given s0 ?X)(Inl me := given s0 ?Y (Inl me))"
    by (rule given_move [OF others]) (simp_all add: given_def)
  have kept: "counted K s0 s' x" if "given s0 ?X i = Some x" for i x
    by (rule counted_step [OF K step D(5) [OF that]]) (use bound in blast)
  have "(\<forall>i x. given s0 ?Y i = Some x \<longrightarrow> counted K s0 s' x) \<and>
      (\<forall>i j x. given s0 ?Y i = Some x \<longrightarrow> given s0 ?Y j = Some x \<longrightarrow> i = j)"
  proof (cases "numbering pc")
    case True
    then obtain a p where a: "of_process pc = Some a" "live_process s a = Some p" "number_of s' pc' = Some (next_fid p)"
      using num by auto
    note b = bound [OF a(1,2)]
    have "given s0 ?Y (Inl me) = Some (task_tgid cur, next_fid p)" using cur(1) a(3) by (simp add: given_def)
    then have new: "given s0 ?Y = (given s0 ?X)(Inl me \<mapsto> (task_tgid cur, next_fid p))" using G by metis
    have "counted K s0 s' (task_tgid cur, next_fid p)"
      using step_process [OF K step a(2)] True a(1) cur(2) next_fid_above [OF b] b by (auto simp: counted_def)
    then have "\<forall>i x. given s0 ?Y i = Some x \<longrightarrow> counted K s0 s' x" using kept unfolding new by (auto split: if_splits)
    moreover have "\<forall>i j x. given s0 ?Y i = Some x \<longrightarrow> given s0 ?Y j = Some x \<longrightarrow> i = j"
      unfolding new by (rule given_fresh [OF _ _ counted_new [OF cur(2) [OF a(1)] a(2) b]]) (use D(5,6) in blast)+
    ultimately show ?thesis by blast
  next
    case False
    then have "given s0 ?Y (Inl me) = given s0 ?X (Inl me)" using num cur(1) pc by (simp add: given_def)
    then have "given s0 ?Y = given s0 ?X" using G by (metis fun_upd_triv)
    then show ?thesis using kept D(6) by metis
  qed
  then show "given s0 ?Y i = Some x \<Longrightarrow> counted K s0 s' x" "given s0 ?Y i = Some x \<Longrightarrow> given s0 ?Y j = Some x \<Longrightarrow> i = j"
    by blast+
qed

lemma ninv_run:
  assumes K: "kapi_ok K" and s0: "kinv K s0" and inv: "ninv K s0 (pcs, log, s)" and pc: "pcs me = Some pc" and ids: "ids_left K me s"
    and step: "create_step K junk me pc s = Some (pc', s')"
  shows "ninv K s0 (pcs(me \<mapsto> pc'), log, s')"
proof -
  let ?Y = "(pcs(me \<mapsto> pc'), log, s')"
  note D = ninvD [OF inv]
  have t: "tasks s = tasks s0" using D(1) by (simp add: same_processes_def)
  obtain cur where cur: "tasks s0 me = Some cur" "\<And>a. of_process pc = Some a \<Longrightarrow> proc_of K s0 (task_tgid cur) = Some a"
    using D(2) [OF pc] by auto
  have same: "same_processes s0 s'" by (rule same_processes_step [OF K s0 D(1) step])
  have home: "proc_of K s0 (task_tgid cur) = Some a" if "of_process pc' = Some a" for a
    using step_home [OF step that] cur t same_processes_find(2) [OF s0 D(1)] by auto
  have mine: "held pc = Some f \<or> \<not> is_live s f" "live_fiber s' f \<noteq> None" if "held pc' = Some f" for f
    using step_held [OF K step that D(3) [OF pc]] by blast+
  have theirs: "held pc \<noteq> Some f" "live_fiber s' f \<noteq> None" "held pc' \<noteq> Some f" if you: "you \<noteq> me" "pcs you = Some q" "held q = Some f" for you q f
  proof -
    show 1: "held pc \<noteq> Some f" using D(4) [OF pc you(2) _ you(3)] you(1) by blast
    obtain fb where fb: "live_fiber s f = Some fb" using D(3) [OF you(2,3)] by blast
    show "live_fiber s' f \<noteq> None" using step_fibers [OF K step fb 1] by simp
    show "held pc' \<noteq> Some f" using mine(1) [of f] 1 live_is_live(3) [OF fb] by blast
  qed
  have "\<exists>c. tasks s0 you = Some c \<and> (\<forall>a. of_process q = Some a \<longrightarrow> proc_of K s0 (task_tgid c) = Some a)"
    if "(pcs(me \<mapsto> pc')) you = Some q" for you q
    using that D(2) [of you q] cur(1) home by (cases "you = me") auto
  moreover have "live_fiber s' f \<noteq> None" if "(pcs(me \<mapsto> pc')) you = Some q" "held q = Some f" for you q f
    using that mine(2) theirs(2) by (cases "you = me") auto
  moreover have "i = j" if "(pcs(me \<mapsto> pc')) i = Some q" "(pcs(me \<mapsto> pc')) j = Some r" "held q = Some f" "held r = Some f" for i j q r f
    using that theirs(3) [of i q f] theirs(3) [of j r f] D(4) [of i q j r f] by (auto split: if_splits)
  ultimately show ?thesis
    using same ninv_given [OF K s0 inv pc ids step] unfolding ninv_def prod.case by blast
qed

lemma ninv_leave:
  assumes inv: "ninv K s0 (pcs, log, s)" and pc: "pcs me = Some (N_return r)" and cur: "tasks s me = Some cur"
  shows "ninv K s0 (pcs(me := None), log @ [(task_tgid cur, r)], s)"
proof -
  let ?X = "(pcs, log, s)" and ?Y = "(pcs(me := None), log @ [(task_tgid cur, r)], s)"
  note D = ninvD [OF inv]
  have c: "tasks s0 me = Some cur" using D(1) cur by (simp add: same_processes_def)
  have mine: "given s0 ?X (Inl me) = (if r = -1 then None else Some (task_tgid cur, r))" using c pc by (simp add: given_def number_of_def)
  have G: "given s0 ?Y i = (if i = Inl me then None else if i = Inr (length log) then given s0 ?X (Inl me) else given s0 ?X i)" for i
    unfolding mine by (cases i) (auto simp: given_def nth_append split: bind_splits)
  have none: "given s0 ?X (Inr (length log)) = None" by (simp add: given_def)
  have "counted K s0 s x" if "given s0 ?Y i = Some x" for i x
    using that D(5) unfolding G by (metis option.distinct(1))
  moreover have "i = j" if "given s0 ?Y i = Some x" "given s0 ?Y j = Some x" for i j x
    using that D(6) [of _ x] unfolding G by (metis option.distinct(1))
  ultimately show ?thesis
    using D(1-4) unfolding ninv_def prod.case by (intro conjI) (auto split: if_splits)
qed

lemma ninv_init:
  "ninv K s (Map.empty, [], s)"
  by (auto simp: ninv_def same_processes_def given_def split: sum.splits)

lemma ninv_step:
  assumes K: "kapi_ok K" "kinv K s0" and inv: "ninv K s0 X" and step: "nstep K X Y"
  shows "ninv K s0 Y"
  using step inv
proof cases
  case (enter_create pcs me s cur log x)
  note D = ninvD [OF inv [unfolded enter_create(1)]]
  have "given s0 (pcs(me \<mapsto> N_find x (task_pid cur)), log, s) = given s0 (pcs, log, s)"
    using enter_create(3) by (auto simp: given_def number_of_def fun_eq_iff split: sum.split)
  moreover have "tasks s0 me = Some cur" using D(1) enter_create(4) by (simp add: same_processes_def)
  ultimately show ?thesis
    unfolding enter_create(2) ninv_def prod.case using D by (intro conjI) (auto split: if_splits)
next
  case (run_create pcs me pc s junk pc' s' log)
  then show ?thesis using ninv_run [OF K] inv by simp
next
  case (leave_create pcs me r s cur log)
  then show ?thesis using ninv_leave inv by simp
qed

interpretation creations: invariant_system "\<lambda>X. kapi_ok K \<and> kinv K s0 \<and> X = (Map.empty, [], s0)" "nstep K"
  "\<lambda>X. kapi_ok K \<and> kinv K s0 \<and> ninv K s0 X" for K :: kapi and s0 :: kstate
  by unfold_locales (auto intro: ninv_init ninv_step)

section \<open>A lost update\<close>

text \<open>Two creations that have both read the head of the same bucket: the second to write
  unlinks the fiber of the first.\<close>

lemma second_publish_unlinks:
  assumes p: "live_process s a = Some p" and f1: "live_fiber s f1 = Some fb1" "f1 \<notin> nodes (fibers p)"
    and f2: "live_fiber s f2 = Some fb2" "f2 \<noteq> f1" and same: "hash_min K (fiber_id fb1) = hash_min K (fiber_id fb2)"
  shows "\<exists>b s1 s2 p'. create_step K j1 t1 (N_head a f1 x1) s = Some (N_publish a f1 x1 b, s) \<and>
    create_step K j2 t2 (N_head a f2 x2) s = Some (N_publish a f2 x2 b, s) \<and>
    create_step K j1 t1 (N_publish a f1 x1 b) s = Some (N_fill f1 x1, s1) \<and>
    create_step K j2 t2 (N_publish a f2 x2 b) s1 = Some (N_fill f2 x2, s2) \<and>
    live_process s2 a = Some p' \<and> f2 \<in> nodes (fibers p') \<and> f1 \<notin> nodes (fibers p')"
proof -
  let ?h = "hash_min K (fiber_id fb2)"
  let ?p1 = "p\<lparr>fibers := (fibers p)(?h := f1 # fibers p ?h)\<rparr>" and ?p2 = "p\<lparr>fibers := (fibers p)(?h := f2 # fibers p ?h)\<rparr>"
  have typed: "f1 \<noteq> a" "f2 \<noteq> a" using fiber_not_process [OF p] f1(1) f2(1) by blast+
  let ?s1 = "store s a (OProcess ?p1)"
  have "get_process K s a = Some p" "get_fiber K s f1 = Some fb1" "get_fiber K s f2 = Some fb2" "get_fiber K ?s1 f2 = Some fb2"
    using p f1 f2 typed by (simp_all add: get_live live_simps)
  moreover have "f2 \<in> nodes ((fibers p)(?h := f2 # fibers p ?h))" "f1 \<notin> nodes ((fibers p)(?h := f2 # fibers p ?h))"
    using f1(2) f2(2) by (auto simp: nodes_def split: if_splits)
  ultimately show ?thesis
    using p same by (intro exI [of _ "fibers p ?h"] exI [of _ ?s1] exI [of _ "store s a (OProcess ?p2)"] exI [of _ ?p2])
      (simp add: upd_process_def live_simps)
qed

section \<open>Schedules\<close>

text \<open>An executable reading of the relation.\<close>

datatype nmove = Call_create pid_t create_args | Run_create pid_t | Leave_create pid_t

fun do_nmove :: "kapi \<Rightarrow> fiber \<Rightarrow> nmove \<Rightarrow> nstate \<Rightarrow> nstate option" where
  "do_nmove K junk (Call_create me x) (pcs, log, s) = (case (pcs me, tasks s me) of
     (None, Some cur) \<Rightarrow> Some (pcs(me \<mapsto> N_find x (task_pid cur)), log, s) | _ \<Rightarrow> None)"
| "do_nmove K junk (Run_create me) (pcs, log, s) = (if ids_left K me s then do {
     pc \<leftarrow> pcs me; (pc, s) \<leftarrow> create_step K junk me pc s; Some (pcs(me \<mapsto> pc), log, s) } else None)"
| "do_nmove K junk (Leave_create me) (pcs, log, s) = (case (pcs me, tasks s me) of
     (Some (N_return r), Some cur) \<Rightarrow> Some (pcs(me := None), log @ [(task_tgid cur, r)], s) | _ \<Rightarrow> None)"

fun nschedule :: "kapi \<Rightarrow> fiber \<Rightarrow> nmove list \<Rightarrow> nstate \<Rightarrow> nstate option" where
  "nschedule K junk [] X = Some X"
| "nschedule K junk (m # ms) X = do { X \<leftarrow> do_nmove K junk m X; nschedule K junk ms X }"

lemma do_nmove_step: "do_nmove K junk m X = Some Y \<Longrightarrow> nstep K X Y"
  by (cases "(K, junk, m, X)" rule: do_nmove.cases)
    (auto simp: bind_eq_Some_conv split: option.splits create_pc.splits if_splits intro: nstep.intros simp del: create_step.simps)

lemma nschedule_steps: "nschedule K junk ms X = Some Y \<Longrightarrow> (nstep K)\<^sup>*\<^sup>* X Y"
  by (induction ms arbitrary: X) (auto simp: bind_eq_Some_conv intro: converse_rtranclp_into_rtranclp do_nmove_step)

end
