(* ===== verification/Creation_Props.thy ===== *)
theory Creation_Props
  imports Fiber_Creation Fiber_Examples
begin

text \<open>
  Properties of creations that interleave with each other and with switches.
\<close>

section \<open>A platform on which numbers collide\<close>

text \<open>All keys hash to one bucket. The hash function of the kernel separates the first numbers of
  a process; the constant one stands for two creations whose numbers collide (the nearest
  such numbers are some hundreds apart, with that many creations in progress between
  them). The threads 1 and 2 of a process have been converted.\<close>

definition K1 :: kapi where
  "K1 = K0\<lparr>hash_min := (\<lambda>_. 0)\<rparr>"

definition y1 :: kstate where
  "y1 = snd (the (do_ConvertThreadToFiber K1 1 1 ex0))"

definition y2 :: kstate where
  "y2 = snd (the (do_ConvertThreadToFiber K1 2 2 y1))"

definition junk0 :: fiber where
  "junk0 = \<lparr>fiber_lock = True, fiber_id = 99, name = [], attached_thread = Some 7, parent_process = NULL,
     registers = \<lparr>sp = 0, bp = 0, ip = 0, di = 0, si = 0, other_regs = []\<rparr>, fpu = [], fiber_stack = 0, fiber_stack_size = 0,
     fls = (\<lambda>_. 5), fls_bitmap = (\<lambda>_. True), start_address = 0, creator_thread = 0, activation_counter = 0,
     failed_activation_counter = 0, total_time = 0\<rparr>"

definition args0 :: create_args where
  "args0 = \<lparr>ca_stack = 65536, ca_size = 4096, ca_function = 555, ca_parameters = 77\<rparr>"

lemma K1_ok: "kapi_ok K1"
  using K0_ok(1) by (auto simp: kapi_ok_def K1_def HASH_SIZE_def)

lemma y_inv: "kinv K1 y1" "kinv K1 y2"
proof -
  have 0: "kinv K1 ex0" by (rule initial_inv [OF ex0_initial])
  have "map_option fst (do_ConvertThreadToFiber K1 1 1 ex0) = Some 1" "map_option fst (do_ConvertThreadToFiber K1 2 2 y1) = Some 2"
    by code_simp+
  then have r: "do_ConvertThreadToFiber K1 1 1 ex0 = Some (1, y1)" "do_ConvertThreadToFiber K1 2 2 y1 = Some (2, y2)"
    by (auto simp: y1_def y2_def)
  have ids: "ids_left K1 1 ex0" "ids_left K1 2 y1" by code_simp+
  show 1: "kinv K1 y1" by (rule convert_inv [OF 0 K1_ok ids(1) r(1)])
  show "kinv K1 y2" by (rule convert_inv [OF 1 K1_ok ids(2) r(2)])
qed

section \<open>Numbers\<close>

definition two_creates :: "nmove list" where
  "two_creates = [Call_create 1 args0, Call_create 2 args0] @ replicate 4 (Run_create 1) @ replicate 4 (Run_create 2) @
     replicate 6 (Run_create 1) @ replicate 6 (Run_create 2) @ [Leave_create 1, Leave_create 2]"

lemma two_creates_run:
  "map_option (\<lambda>(pcs, log, s). (pcs 1, pcs 2, log, find_fiber_by_id K1 3 1 s, map_option fst (do_SwitchToFiber K1 1 3 1 s)))
     (nschedule K1 junk0 two_creates (Map.empty, [], y2)) = Some (None, None, [(1, 3), (1, 4)], Some None, Some (-1))"
  by code_simp

text \<open>\<^bold>\<open>C11\<close> (numbers). However the steps of concurrent creations interleave, on any number of threads and
  for any number of calls, no process is ever given the same number twice, and every
  number that is not the error -1 is positive.\<close>

theorem numbers_given_once:
  assumes "kapi_ok K" "kinv K s0" "(nstep K)\<^sup>*\<^sup>* (Map.empty, [], s0) (pcs, log, s)"
  shows "(\<forall>i j. i < length log \<longrightarrow> j < length log \<longrightarrow> log ! i = log ! j \<longrightarrow> snd (log ! i) \<noteq> -1 \<longrightarrow> i = j) \<and>
    (\<forall>(g, n) \<in> set log. n = -1 \<or> 0 < sint n)"
proof -
  have "ninv K s0 (pcs, log, s)" using creations.reach_inv [of K s0 "(Map.empty, [], s0)" "(pcs, log, s)"] assms by simp
  note D = ninvD(5,6) [OF this]
  have given: "given s0 (pcs, log, s) (Inr i) = Some (log ! i)" if "i < length log" "snd (log ! i) \<noteq> -1" for i
    using that by (simp add: given_def)
  have "i = j" if "i < length log" "j < length log" "log ! i = log ! j" "snd (log ! i) \<noteq> -1" for i j
    using D(2) [of "Inr i" "log ! i" "Inr j"] given [of i] given [of j] that by simp
  moreover have "0 < sint n" if n: "(g, n) \<in> set log" "n \<noteq> -1" for g n
  proof -
    obtain i where i: "i < length log" "log ! i = (g, n)" using n(1) by (auto simp: in_set_conv_nth)
    then have "counted K s0 s (g, n)" using D(1) [OF given [of i]] n(2) by simp
    then have "0 < unat n" "unat n < 2 ^ 31" by (auto simp: counted_def)
    then have "sint n = int (unat n)" using sint_of_nat_small [of "unat n", where 'a = 32] by simp
    then show ?thesis using \<open>0 < unat n\<close> by (simp only: of_nat_0_less_iff)
  qed
  ultimately show ?thesis by blast
qed

theorem numbers_given_once_witness:
  "\<exists>pcs s. nschedule K1 junk0 two_creates (Map.empty, [], y2) = Some (pcs, [(1, 3), (1, 4)], s) \<and> (1, 3) \<noteq> (1 :: pid_t, 4 :: pid_t) \<and>
    0 < sint (3 :: pid_t)"
proof -
  obtain pcs s where r: "nschedule K1 junk0 two_creates (Map.empty, [], y2) = Some (pcs, [(1, 3), (1, 4)], s)"
    using two_creates_run by auto
  have "0 < sint (3 :: pid_t)"
    using numbers_given_once [OF K1_ok y_inv(2) nschedule_steps [OF r]] by simp
  then show ?thesis using r by simp
qed

text \<open>\<^bold>\<open>C34\<close> (lost fiber). The table is not protected while fibers are created: two creations in
  one process can both return a number of their own and yet leave only one of the two
  fibers in the table. A switch to the other number then fails for ever.\<close>

theorem concurrent_creates_lose_fiber:
  "\<exists>K s0 pcs log s a g n m. kapi_ok K \<and> kinv K s0 \<and> (nstep K)\<^sup>*\<^sup>* (Map.empty, [], s0) (pcs, log, s) \<and> pcs 1 = None \<and> pcs 2 = None \<and>
     log = [(g, n), (g, m)] \<and> n \<noteq> -1 \<and> n \<noteq> m \<and> find_process_by_tgid K g s = Some (Some a) \<and>
     find_fiber_by_id K n a s = Some NULL \<and> map_option fst (do_SwitchToFiber K 1 n 1 s) = Some (-1)"
proof -
  obtain pcs s where r: "nschedule K1 junk0 two_creates (Map.empty, [], y2) = Some (pcs, [(1, 3), (1, 4)], s)"
      "pcs 1 = None" "pcs 2 = None" "find_fiber_by_id K1 3 1 s = Some None" "map_option fst (do_SwitchToFiber K1 1 3 1 s) = Some (-1)"
    using two_creates_run by auto
  have "ninv K1 y2 (pcs, [(1, 3), (1, 4)], s)"
    using creations.reach_inv [of K1 y2 "(Map.empty, [], y2)"] nschedule_steps [OF r(1)] K1_ok y_inv(2) by simp
  moreover have "proc_of K1 y2 1 = Some 1" by code_simp
  ultimately have "find_process_by_tgid K1 1 s = Some (Some 1)"
    using same_processes_find(2) [OF y_inv(2) ninvD(1)] by metis
  moreover have "(3 :: pid_t) \<noteq> -1" "(3 :: pid_t) \<noteq> 4" by simp_all
  ultimately show ?thesis using r nschedule_steps [OF r(1)] K1_ok y_inv(2) by blast
qed

section \<open>Half-made fibers\<close>

definition half_made :: "nmove list" where
  "half_made = Call_create 1 args0 # replicate 6 (Run_create 1)"

lemma half_made_run:
  "map_option (\<lambda>(pcs, log, s). map_option (\<lambda>(r, s'). (r, map_option (ip \<circ> user_regs) (tasks s' 2))) (do_SwitchToFiber K1 2 3 2 s))
     (nschedule K1 junk0 half_made (Map.empty, [], y2)) = Some (Some (0, Some 100))"
  by code_simp

text \<open>A fiber is in the table before its registers are complete: a thread that
  guesses the number, which is the next one, and switches to it while it is being
  created runs not the function of the fiber but the code of the thread that
  creates it, from its system call on.\<close>

lemma half_made_fiber_runs:
  "\<exists>K s0 pcs f x s s' cur cur'. kapi_ok K \<and> kinv K s0 \<and> (nstep K)\<^sup>*\<^sup>* (Map.empty, [], s0) (pcs, [], s) \<and> pcs 1 = Some (N_ip f x) \<and>
     do_SwitchToFiber K 2 3 2 s = Some (0, s') \<and> tasks s' 2 = Some cur \<and> tasks s 1 = Some cur' \<and>
     ip (user_regs cur) = ip (user_regs cur') \<and> ip (user_regs cur) \<noteq> ca_function x"
proof -
  have "map_option (\<lambda>(pcs, log, s). (pcs 1, log, map_option (ip \<circ> user_regs) (tasks s 1)))
      (nschedule K1 junk0 half_made (Map.empty, [], y2)) = Some (Some (N_ip 6 args0), [], Some 100)"
    by code_simp
  then obtain pcs s cur' where r: "nschedule K1 junk0 half_made (Map.empty, [], y2) = Some (pcs, [], s)" "pcs 1 = Some (N_ip 6 args0)"
      "tasks s 1 = Some cur'" "ip (user_regs cur') = 100"
    by auto
  moreover obtain s' cur where "do_SwitchToFiber K1 2 3 2 s = Some (0, s')" "tasks s' 2 = Some cur" "ip (user_regs cur) = 100"
    using half_made_run r(1) by auto
  moreover have "ca_function args0 \<noteq> 100" by (simp add: args0_def)
  ultimately show ?thesis using nschedule_steps [OF r(1)] K1_ok y_inv(2) by metis
qed

end
