(* ===== verification/Fiber_Coroutines.thy ===== *)
theory Fiber_Coroutines
  imports Fiber_Spec
begin

text \<open>
  What the module and the library give a program: coroutines. A process has
  contexts, one per fiber, and each converted thread executes one of them. The
  context of a fiber is what it computes with: the registers, the FPU registers and
  the local storage. While a thread runs the fiber the registers are those of the
  task, otherwise the ones saved in the fiber; seen this way a switch changes no
  context at all, only which one the thread executes.
\<close>

section \<open>Contexts\<close>

record fctx =
  c_regs :: pt_regs
  c_fx :: fxregs
  c_used :: "nat \<Rightarrow> bool"
  c_vals :: "nat \<Rightarrow> longlong"

definition fiber_ctx :: "kstate \<Rightarrow> fiber \<Rightarrow> fctx option" where
  "fiber_ctx s fb = do {
     (r, x) \<leftarrow> (case attached_thread fb of
         None \<Rightarrow> Some (registers fb, fpu fb)
       | Some t \<Rightarrow> do {
           th \<leftarrow> live_thread s t;
           cur \<leftarrow> tasks s (thread_id th);
           Some (user_regs cur, fx cur) });
     Some \<lparr>c_regs = r, c_fx = x, c_used = fls_bitmap fb, c_vals = fls fb\<rparr> }"

definition ctx :: "kapi \<Rightarrow> pid_t \<Rightarrow> kstate \<Rightarrow> pid_t \<rightharpoonup> fctx" where
  "ctx K g s fid = do {
     a \<leftarrow> proc_of K s g;
     p \<leftarrow> live_process s a;
     f \<leftarrow> fiber_of K s p fid;
     fb \<leftarrow> live_fiber s f;
     fiber_ctx s fb }"

definition runs :: "kapi \<Rightarrow> pid_t \<Rightarrow> kstate \<Rightarrow> pid_t \<rightharpoonup> pid_t" where
  "runs K g s tid = do { P \<leftarrow> abs_state K s g; a_running P tid }"

text \<open>The states of the process \<open>g\<close> between two calls: the invariant holds, and the
  converted threads of the process are among its tasks.\<close>

definition coro_ok :: "kapi \<Rightarrow> pid_t \<Rightarrow> kstate \<Rightarrow> bool" where
  "coro_ok K g s \<longleftrightarrow> kinv K s \<and> pids_ok s \<and>
     (\<forall>tid \<in> dom (runs K g s). \<exists>cur. tasks s tid = Some cur \<and> task_tgid cur = g)"

lemma coro_okD:
  assumes "coro_ok K g s"
  shows "kinv K s" "pids_ok s" "runs K g s tid = Some fid \<Longrightarrow> \<exists>cur. tasks s tid = Some cur \<and> task_tgid cur = g"
    "runs K g s tid = Some fid \<Longrightarrow> tasks s tid \<noteq> None"
  using assms by (auto simp: coro_ok_def)

lemma fiber_ctx_task:
  assumes "attached_thread fb = Some t" "live_thread s t = Some th" "tasks s (thread_id th) = Some cur"
  shows "fiber_ctx s fb = Some \<lparr>c_regs = user_regs cur, c_fx = fx cur, c_used = fls_bitmap fb, c_vals = fls fb\<rparr>"
  using assms by (simp add: fiber_ctx_def)

lemma fiber_ctx_saved:
  assumes "attached_thread fb = NULL"
  shows "fiber_ctx s fb = Some \<lparr>c_regs = registers fb, c_fx = fpu fb, c_used = fls_bitmap fb, c_vals = fls fb\<rparr>"
  using assms by (simp add: fiber_ctx_def)

lemma fiber_ctx_cong:
  assumes "\<And>t. attached_thread fb = Some t \<Longrightarrow> live_thread s' t = live_thread s t \<and>
    (\<forall>th. live_thread s t = Some th \<longrightarrow> tasks s' (thread_id th) = tasks s (thread_id th))"
  shows "fiber_ctx s' fb = fiber_ctx s fb"
proof (cases "attached_thread fb")
  case (Some t)
  then show ?thesis using assms [OF Some] by (cases "live_thread s t") (auto simp: fiber_ctx_def)
qed (simp add: fiber_ctx_def)

section \<open>A registered process\<close>

lemma ctx_unregistered: "proc_of K s g = None \<Longrightarrow> ctx K g s = Map.empty"
  by (simp add: ctx_def fun_eq_iff)

lemma runs_unregistered: "proc_of K s g = None \<Longrightarrow> runs K g s = Map.empty"
  by (simp add: runs_def abs_state_def fun_eq_iff)

lemma ctx_registered:
  assumes "proc_of K s g = Some a" "live_process s a = Some p"
  shows "ctx K g s fid = fiber_of K s p fid \<bind> (\<lambda>f. live_fiber s f \<bind> fiber_ctx s)"
  using assms by (simp add: ctx_def)

lemma runs_registered:
  assumes "proc_of K s g = Some a" "live_process s a = Some p"
  shows "runs K g s = a_running (abs_process K s p)"
  using assms by (simp add: runs_def abs_state_def fun_eq_iff)

text \<open>Every fiber has a context.\<close>

lemma fiber_ctx_total:
  assumes ok: "coro_ok K g s" and p: "proc_of K s g = Some a" "live_process s a = Some p"
    and f: "f \<in> nodes (fibers p)" "live_fiber s f = Some fb"
  obtains c where "fiber_ctx s fb = Some c" "c_used c = fls_bitmap fb" "c_vals c = fls fb"
proof (cases "attached_thread fb")
  case None
  then show ?thesis using that by (simp add: fiber_ctx_saved)
next
  case (Some t)
  have pok: "threads_ok K s a p" "fibers_ok K s a p"
    using p coro_okD(1) [OF ok] by (auto simp: proc_of_Some elim: inv_process)
  obtain th where th: "t \<in> nodes (threads p)" "live_thread s t = Some th" "selected_fiber th = Some f"
    using fiber_links(3) [OF pok(2) f] Some by auto
  then have "runs K g s (thread_id th) = Some (fiber_id fb)"
    using f(2) by (auto simp: runs_registered [OF p] abs_running [OF pok(1)] fkey_def)
  then obtain cur where "tasks s (thread_id th) = Some cur" using coro_okD(3) [OF ok] by blast
  then show ?thesis using that by (simp add: fiber_ctx_task [OF Some th(2)])
qed

lemma ctx_dom:
  assumes ok: "coro_ok K g s" and p: "proc_of K s g = Some a" "live_process s a = Some p"
  shows "dom (ctx K g s) = a_fibers (abs_process K s p)"
proof -
  have pok: "fibers_ok K s a p" using p coro_okD(1) [OF ok] by (auto simp: proc_of_Some elim: inv_process)
  have "ctx K g s fid \<noteq> None" if f: "fiber_of K s p fid = Some f" for fid f
  proof -
    obtain fb where fb: "f \<in> nodes (fibers p)" "live_fiber s f = Some fb"
      using f by (auto simp: fiber_of_Some [OF pok])
    obtain c where "fiber_ctx s fb = Some c" using fiber_ctx_total [OF ok p fb] by metis
    then show ?thesis using f fb(2) by (simp add: ctx_registered [OF p])
  qed
  then show ?thesis
    by (auto simp: abs_process_def ctx_registered [OF p] split: bind_splits)
qed

lemma ctx_count:
  assumes ok: "coro_ok K g s" and p: "proc_of K s g = Some a" "live_process s a = Some p"
  shows "card (dom (ctx K g s)) = unat (last_fiber_id p)"
proof -
  have pok: "fibers_ok K s a p" using p coro_okD(1) [OF ok] by (auto simp: proc_of_Some elim: inv_process)
  have "inj_on (\<lambda>f. the (fkey s f)) (nodes (fibers p))"
  proof (rule inj_onI)
    fix x y
    assume xy: "x \<in> nodes (fibers p)" "y \<in> nodes (fibers p)" "the (fkey s x) = the (fkey s y)"
    moreover obtain k j where "fkey s x = Some k" "fkey s y = Some j"
      using fibers_okD [OF pok xy(1)] fibers_okD [OF pok xy(2)] unfolding fkey_def by (metis option.map(2))
    ultimately show "x = y" using pok by (auto simp: fibers_ok_def dest: table_ok_inj)
  qed
  moreover have "dom (ctx K g s) = (\<lambda>f. the (fkey s f)) ` nodes (fibers p)"
    unfolding ctx_dom [OF ok p]
  proof (intro set_eqI iffI)
    show "x \<in> (\<lambda>f. the (fkey s f)) ` nodes (fibers p)" if "x \<in> a_fibers (abs_process K s p)" for x
      using that by (force simp: abs_fibers [OF pok])
    show "x \<in> a_fibers (abs_process K s p)" if x: "x \<in> (\<lambda>f. the (fkey s f)) ` nodes (fibers p)" for x
    proof -
      obtain f where f: "f \<in> nodes (fibers p)" "x = the (fkey s f)" using x by blast
      moreover obtain fb where "live_fiber s f = Some fb" using fibers_okD [OF pok f(1)] by metis
      ultimately show ?thesis by (auto simp: abs_fibers [OF pok] fkey_def)
    qed
  qed
  ultimately show ?thesis using pok by (simp add: card_image fibers_ok_def)
qed

text \<open>The process of a running thread.\<close>

lemma runs_process:
  assumes ok: "coro_ok K g s" and r: "runs K g s tid = Some fid"
  obtains a p where "proc_of K s g = Some a" "live_process s a = Some p" "threads_ok K s a p" "fibers_ok K s a p"
proof -
  obtain a p where p: "proc_of K s g = Some a" "live_process s a = Some p"
    using r by (auto simp: runs_def abs_state_def bind_eq_Some_conv)
  then show ?thesis using that coro_okD(1) [OF ok] by (auto simp: proc_of_Some elim: inv_process)
qed

text \<open>Whether a fiber is attached, and to whom, seen from the abstraction.\<close>

lemma attached_runs:
  assumes p: "proc_of K s g = Some a" "live_process s a = Some p" "threads_ok K s a p" "fibers_ok K s a p"
    and f: "f \<in> nodes (fibers p)" "live_fiber s f = Some fb"
  shows "runs K g s tid = Some (fiber_id fb) \<longleftrightarrow>
    (\<exists>t th. attached_thread fb = Some t \<and> live_thread s t = Some th \<and> thread_id th = tid)"
proof
  assume "runs K g s tid = Some (fiber_id fb)"
  then obtain t th f' where t: "t \<in> nodes (threads p)" "live_thread s t = Some th" "thread_id th = tid"
      "selected_fiber th = Some f'" "fkey s f' = Some (fiber_id fb)"
    by (auto simp: runs_registered [OF p(1,2)] abs_running [OF p(3)])
  obtain fb' where fb': "f' \<in> nodes (fibers p)" "live_fiber s f' = Some fb'" "attached_thread fb' = Some t"
    using thread_links(3) [OF p(3) t(1,2)] t(4) by auto
  moreover have "fkey s f = Some (fiber_id fb)" using f(2) by (simp add: fkey_def)
  ultimately have "f' = f" using f(1) t(5) p(4) by (auto simp: fibers_ok_def dest: table_ok_inj)
  then show "\<exists>t th. attached_thread fb = Some t \<and> live_thread s t = Some th \<and> thread_id th = tid"
    using fb' f(2) t(2,3) by auto
next
  assume "\<exists>t th. attached_thread fb = Some t \<and> live_thread s t = Some th \<and> thread_id th = tid"
  then obtain t th where t: "attached_thread fb = Some t" "live_thread s t = Some th" "thread_id th = tid" by blast
  then have "t \<in> nodes (threads p)" "selected_fiber th = Some f"
    using fiber_links(3) [OF p(4) f] by auto
  then show "runs K g s tid = Some (fiber_id fb)"
    using t f by (auto simp: runs_registered [OF p(1,2)] abs_running [OF p(3)] fkey_def)
qed

lemma runs_inj:
  assumes ok: "coro_ok K g s" and r: "runs K g s tid = Some fid" "runs K g s tid' = Some fid"
  shows "tid = tid'"
proof -
  obtain a p where p: "proc_of K s g = Some a" "live_process s a = Some p" "threads_ok K s a p" "fibers_ok K s a p"
    using runs_process [OF ok r(1)] by metis
  obtain f fb where f: "f \<in> nodes (fibers p)" "live_fiber s f = Some fb" "fiber_id fb = fid"
    using r(1) thread_links(3) [OF p(3)]
    by (fastforce simp: runs_registered [OF p(1,2)] abs_running [OF p(3)] fkey_def)
  show ?thesis using attached_runs [OF p f(1,2)] r f(3) by auto
qed

text \<open>A context is found in the task that runs the fiber, or else in the fiber.\<close>

definition coro_proc :: "kapi \<Rightarrow> pid_t \<Rightarrow> kstate \<Rightarrow> addr \<Rightarrow> process \<Rightarrow> bool" where
  "coro_proc K g s a p \<longleftrightarrow> proc_of K s g = Some a \<and> live_process s a = Some p \<and> threads_ok K s a p \<and> fibers_ok K s a p"

lemma coro_procI:
  assumes "kinv K s" "proc_of K s g = Some a" "live_process s a = Some p"
  shows "coro_proc K g s a p"
  using assms by (auto simp: coro_proc_def proc_of_Some elim: inv_process)

lemma ctx_of_fiber:
  assumes p: "coro_proc K g s a p" and f: "f \<in> nodes (fibers p)" "live_fiber s f = Some fb"
  shows "ctx K g s (fiber_id fb) = fiber_ctx s fb"
proof -
  have pp: "proc_of K s g = Some a" "live_process s a = Some p" "fibers_ok K s a p" using p by (simp_all add: coro_proc_def)
  have "fiber_of K s p (fiber_id fb) = Some f" using f by (simp add: fiber_of_Some [OF pp(3)])
  then show ?thesis using f(2) by (simp add: ctx_registered [OF pp(1,2)])
qed

lemma ctx_None:
  assumes p: "coro_proc K g s a p" and x: "\<And>f fb. f \<in> nodes (fibers p) \<Longrightarrow> live_fiber s f = Some fb \<Longrightarrow> fiber_id fb \<noteq> x"
  shows "ctx K g s x = None"
proof -
  have pp: "proc_of K s g = Some a" "live_process s a = Some p" "fibers_ok K s a p" using p by (simp_all add: coro_proc_def)
  show ?thesis
    using x by (cases "fiber_of K s p x") (auto simp: ctx_registered [OF pp(1,2)] fiber_of_Some [OF pp(3)])
qed

lemma ctx_task:
  assumes p: "coro_proc K g s a p" and f: "f \<in> nodes (fibers p)" "live_fiber s f = Some fb"
    and r: "runs K g s tid = Some (fiber_id fb)" "tasks s tid = Some cur"
  shows "ctx K g s (fiber_id fb) = Some \<lparr>c_regs = user_regs cur, c_fx = fx cur, c_used = fls_bitmap fb, c_vals = fls fb\<rparr>"
proof -
  obtain t th where "attached_thread fb = Some t" "live_thread s t = Some th" "thread_id th = tid"
    using p attached_runs [of K s g a p f fb tid] f r(1) by (auto simp: coro_proc_def)
  then show ?thesis using fiber_ctx_task r(2) by (simp add: ctx_of_fiber [OF p f])
qed

lemma ctx_saved:
  assumes p: "coro_proc K g s a p" and f: "f \<in> nodes (fibers p)" "live_fiber s f = Some fb"
    and r: "fiber_id fb \<notin> ran (runs K g s)"
  shows "ctx K g s (fiber_id fb) = Some \<lparr>c_regs = registers fb, c_fx = fpu fb, c_used = fls_bitmap fb, c_vals = fls fb\<rparr>"
proof -
  have "attached_thread fb = NULL"
  proof (rule ccontr)
    assume "attached_thread fb \<noteq> NULL"
    then obtain t th where "attached_thread fb = Some t" "live_thread s t = Some th"
      using p fiber_links(3) [of K s a p f fb] f by (auto simp: coro_proc_def)
    then have "runs K g s (thread_id th) = Some (fiber_id fb)"
      using p attached_runs [of K s g a p f fb "thread_id th"] f by (auto simp: coro_proc_def)
    then show False using r by (auto simp: ran_def)
  qed
  then show ?thesis by (simp add: ctx_of_fiber [OF p f] fiber_ctx_saved)
qed

text \<open>A fiber that an operation does not touch keeps its context.\<close>

lemma ctx_same:
  assumes p: "coro_proc K g s a p" "coro_proc K g s' a' p'"
    and f: "f \<in> nodes (fibers p)" "live_fiber s f = Some fb" "f \<in> nodes (fibers p')" "live_fiber s' f = Some fb"
    and r: "\<And>tid. runs K g s' tid = Some (fiber_id fb) \<longleftrightarrow> runs K g s tid = Some (fiber_id fb)"
    and ts: "\<And>tid. runs K g s tid = Some (fiber_id fb) \<Longrightarrow> tasks s' tid = tasks s tid \<and> tasks s tid \<noteq> None"
  shows "ctx K g s' (fiber_id fb) = ctx K g s (fiber_id fb)"
proof (cases "fiber_id fb \<in> ran (runs K g s)")
  case True
  then obtain tid where tid: "runs K g s tid = Some (fiber_id fb)" by (auto simp: ran_def)
  then obtain cur where "tasks s tid = Some cur" using ts by blast
  then show ?thesis
    using ctx_task [OF p(1) f(1,2) tid] ctx_task [OF p(2) f(3,4), of tid cur] tid r ts [OF tid] by simp
next
  case False
  then have "fiber_id fb \<notin> ran (runs K g s')" using r by (auto simp: ran_def)
  then show ?thesis using False ctx_saved [OF p(1) f(1,2)] ctx_saved [OF p(2) f(3,4)] by simp
qed

lemma ctx_eqI:
  assumes p: "coro_proc K g s a p"
    and M: "\<And>f fb. f \<in> nodes (fibers p) \<Longrightarrow> live_fiber s f = Some fb \<Longrightarrow> ctx K g s (fiber_id fb) = M (fiber_id fb)"
    and N: "\<And>x. M x \<noteq> None \<Longrightarrow> \<exists>f \<in> nodes (fibers p). fkey s f = Some x"
  shows "ctx K g s = M"
proof
  show "ctx K g s x = M x" for x
    using M N [of x] ctx_None [OF p, of x]
    by (cases "\<exists>f \<in> nodes (fibers p). \<exists>fb. live_fiber s f = Some fb \<and> fiber_id fb = x") (force simp: fkey_def)+
qed

lemma ctx_Some_fiber:
  assumes p: "coro_proc K g s a p" and c: "ctx K g s x \<noteq> None"
  shows "\<exists>f \<in> nodes (fibers p). fkey s f = Some x"
  using ctx_None [OF p, of x] c by (auto simp: fkey_def)

lemma runs_coro_proc:
  assumes ok: "coro_ok K g s" and r: "runs K g s tid = Some fid"
  obtains a p f fb where "coro_proc K g s a p" "f \<in> nodes (fibers p)" "live_fiber s f = Some fb" "fiber_id fb = fid"
proof -
  obtain a p where p: "proc_of K s g = Some a" "live_process s a = Some p" "threads_ok K s a p" "fibers_ok K s a p"
    using runs_process [OF ok r] by metis
  obtain f fb where f: "f \<in> nodes (fibers p)" "live_fiber s f = Some fb" "fiber_id fb = fid"
    using r thread_links(3) [OF p(3)]
    by (fastforce simp: runs_registered [OF p(1,2)] abs_running [OF p(3)] fkey_def)
  then show ?thesis using that p by (simp add: coro_proc_def)
qed

section \<open>User code\<close>

text \<open>The registers of a thread are those of the fiber it runs.\<close>

lemma runs_ctx:
  assumes ok: "coro_ok K g s" and r: "runs K g s tid = Some fid" and cur: "tasks s tid = Some cur"
  obtains c where "ctx K g s fid = Some c" "c_regs c = user_regs cur" "c_fx c = fx cur"
proof -
  obtain a p f fb where p: "coro_proc K g s a p" and f: "f \<in> nodes (fibers p)" "live_fiber s f = Some fb" "fiber_id fb = fid"
    using runs_coro_proc [OF ok r] by metis
  show ?thesis using that ctx_task [OF p f(1,2) _ cur] r f(3) by simp
qed

lemma runs_tasks [simp]: "runs K g (s\<lparr>tasks := ts\<rparr>) = runs K g s"
  by (simp add: runs_def fun_eq_iff)

lemma runs_set_task [simp]: "runs K g (set_task s me cur) = runs K g s"
  by (simp add: set_task_def)

lemma coro_proc_tasks [simp]: "coro_proc K g (set_task s me cur) a p = coro_proc K g s a p"
proof -
  have "coro_proc K g (set_task s me cur) a p \<longleftrightarrow> coro_proc K g s a p"
    by (simp add: coro_proc_def set_task_def proc_of_def pkey_def [abs_def] threads_ok_def fibers_ok_def thread_ok_def
        fiber_ok_def tkey_def [abs_def] fkey_def [abs_def])
  then show ?thesis .
qed

text \<open>Running changes the registers in the context of the fiber the thread runs.\<close>

lemma ctx_run:
  assumes ok: "coro_ok K g s" and cur: "tasks s me = Some cur" and r: "runs K g s me = Some fid"
    and cur': "task_pid cur' = me" "task_tgid cur' = g" and c: "ctx K g s fid = Some c"
  shows "coro_ok K g (set_task s me cur')"
    "ctx K g (set_task s me cur') = (ctx K g s)(fid \<mapsto> c\<lparr>c_regs := user_regs cur', c_fx := fx cur'\<rparr>)"
proof -
  let ?s = "set_task s me cur'"
  show "coro_ok K g ?s" using ok cur' by (auto simp: coro_ok_def set_task_def pids_ok_def)
  obtain a p f fb where p: "coro_proc K g s a p" and f: "f \<in> nodes (fibers p)" "live_fiber s f = Some fb" "fiber_id fb = fid"
    using runs_coro_proc [OF ok r] by metis
  have p': "coro_proc K g ?s a p" and lf: "live_fiber ?s = live_fiber s" and tk: "tasks ?s = (tasks s)(me \<mapsto> cur')"
    using p by (simp_all) (simp_all add: set_task_def)
  show "ctx K g ?s = (ctx K g s)(fid \<mapsto> c\<lparr>c_regs := user_regs cur', c_fx := fx cur'\<rparr>)"
  proof (rule ctx_eqI [OF p'])
    show "ctx K g ?s (fiber_id yb) = ((ctx K g s)(fid \<mapsto> c\<lparr>c_regs := user_regs cur', c_fx := fx cur'\<rparr>)) (fiber_id yb)"
      if y: "y \<in> nodes (fibers p)" "live_fiber ?s y = Some yb" for y yb
    proof (cases "fiber_id yb = fid")
      case True
      then show ?thesis
        using ctx_task [OF p y(1) _ _ cur] ctx_task [OF p' y, of me cur'] r c y(2) by (simp add: lf tk)
    next
      case False
      have "tid \<noteq> me" "tasks s tid \<noteq> None" if "runs K g s tid = Some (fiber_id yb)" for tid
        using that False r coro_okD(4) [OF ok that] by auto
      then have "ctx K g ?s (fiber_id yb) = ctx K g s (fiber_id yb)"
        using y by (intro ctx_same [OF p p']) (auto simp: lf tk)
      then show ?thesis using False by simp
    qed
    show "\<exists>f \<in> nodes (fibers p). fkey ?s f = Some x"
      if "((ctx K g s)(fid \<mapsto> c\<lparr>c_regs := user_regs cur', c_fx := fx cur'\<rparr>)) x \<noteq> None" for x
      using that ctx_Some_fiber [OF p, of x] c by (auto simp: fkey_def lf split: if_splits)
  qed
qed

text \<open>A task that is not a converted thread of the process has no part in it.\<close>

lemma ctx_idle:
  assumes ok: "coro_ok K g s" and r: "runs K g s me = None" and cur': "task_pid cur' = me"
  shows "coro_ok K g (set_task s me cur')" "ctx K g (set_task s me cur') = ctx K g s"
proof -
  let ?s = "set_task s me cur'"
  show "coro_ok K g ?s" using ok r cur' by (auto simp: coro_ok_def set_task_def pids_ok_def)
  show "ctx K g ?s = ctx K g s"
  proof (cases "proc_of K s g")
    case None
    then have "proc_of K ?s g = None" by (simp add: set_task_def proc_of_def pkey_def [abs_def])
    then show ?thesis using None by (simp add: ctx_unregistered)
  next
    case (Some a)
    then obtain p where "live_process s a = Some p" using coro_okD(1) [OF ok] by (auto simp: proc_of_Some)
    then have p: "coro_proc K g s a p" "coro_proc K g ?s a p" using coro_procI [OF coro_okD(1) [OF ok] Some] by simp_all
    have lf: "live_fiber ?s = live_fiber s" by (simp add: set_task_def)
    show ?thesis
    proof (rule ctx_eqI [OF p(2)])
      show "ctx K g ?s (fiber_id yb) = ctx K g s (fiber_id yb)"
        if y: "y \<in> nodes (fibers p)" "live_fiber ?s y = Some yb" for y yb
      proof -
        have "tid \<noteq> me" "tasks s tid \<noteq> None" if "runs K g s tid = Some (fiber_id yb)" for tid
          using that r coro_okD(4) [OF ok that] by auto
        then show ?thesis using y by (intro ctx_same [OF p]) (auto simp: lf, simp add: set_task_def)
      qed
    qed (use ctx_Some_fiber [OF p(1)] lf in \<open>simp add: fkey_def\<close>)
  qed
qed

section \<open>Switching\<close>

lemma runs_caller:
  assumes inv: "kinv K s" and cur: "tasks s me = Some cur"
  shows "caller K s me tid = None \<longleftrightarrow> runs K (task_tgid cur) s tid = None"
  using abs_caller [OF inv cur, of tid] by (cases "abs_state K s (task_tgid cur)") (auto simp: runs_def)

lemma caller_coro_proc:
  assumes inv: "kinv K s" and c: "caller K s me tid = Some (a, p, t)" and cur: "tasks s me = Some cur"
  shows "coro_proc K (task_tgid cur) s a p"
  using callerD [OF inv c] cur by (auto simp: coro_proc_def)

lemma runs_upd:
  assumes "abs_state K s' = (abs_state K s)(g \<mapsto> P)"
  shows "runs K g s' = a_running P"
  using assms by (simp add: runs_def fun_eq_iff)

lemma fiber_id_inj:
  assumes "fibers_ok K s a p" "x \<in> nodes (fibers p)" "live_fiber s x = Some xb"
    and "y \<in> nodes (fibers p)" "live_fiber s y = Some yb" "fiber_id xb = fiber_id yb"
  shows "x = y"
  using assms by (auto simp: fibers_ok_def fkey_def intro: table_ok_inj)

lemma switched_runs:
  assumes ok: "coro_ok K g s" and cur: "tasks s me = Some cur" "task_tgid cur = g"
    and c: "caller K s me me = Some (a, p, t)" and f: "fiber_of K s p fid = Some f" "live_fiber s f = Some fb"
    "attached_thread fb = NULL" "f \<in> nodes (fibers p)"
    and th: "live_thread s t = Some th" "selected_fiber th = Some h" "live_fiber s h = Some hb"
  defines "s' \<equiv> switched_state me cur t th h hb f fb s"
  shows "coro_ok K g s'" "runs K g s' = (runs K g s)(me \<mapsto> fid)" "coro_proc K g s a p" "coro_proc K g s' a p"
    "runs K g s me = Some (fiber_id hb)" "fid \<notin> ran (runs K g s)" "fiber_id fb = fid" "f \<noteq> h" "h \<in> nodes (fibers p)"
proof -
  have inv: "kinv K s" using coro_okD(1) [OF ok] .
  note cd = callerD [OF inv c]
  have pid: "process_id p = g" using cd(7) cur by auto
  show p: "coro_proc K g s a p" using caller_coro_proc [OF inv c cur(1)] cur(2) by simp
  then have r0: "runs K g s = a_running (abs_process K s p)" by (simp add: coro_proc_def runs_registered)
  show r: "runs K g s' = (runs K g s)(me \<mapsto> fid)"
    using runs_upd [OF abs_switched [OF inv c f(1,2,3) th, of cur, unfolded pid]] r0 by (simp add: s'_def)
  have inv': "kinv K s'" unfolding s'_def by (rule switched_state_inv [OF inv c f(4,2,3) th])
  have me: "runs K g s me \<noteq> None" using runs_caller [OF inv cur(1), of me] c cur(2) by simp
  moreover have tk: "tasks s' = (tasks s)(me \<mapsto> cur\<lparr>user_regs := registers fb, fx := fpu fb\<rparr>)"
    by (simp add: s'_def switched_state_def)
  ultimately show "coro_ok K g s'"
    using ok cur inv' by (auto simp: coro_ok_def r pids_ok_def)
  show "h \<in> nodes (fibers p)" and fh: "f \<noteq> h" using thread_links(3) [OF cd(3,5) th(1)] th f(2,3) by auto
  note v = switched_views [OF th(1) f(2) th(3) fh, of me cur, folded s'_def]
  have "proc_of K s' g = Some a"
    using p v(1,8) by (simp add: coro_proc_def proc_of_def pkey_def [abs_def])
  then show "coro_proc K g s' a p" using coro_procI [OF inv'] v(1) cd(2) by simp
  show "fiber_id fb = fid" using f by (auto simp: fiber_of_Some [OF cd(4)])
  show "runs K g s me = Some (fiber_id hb)" using abs_thread [OF inv c th] r0 by simp
  show "fid \<notin> ran (runs K g s)" using abs_attached [OF cd(3,4) f(1,2)] f(3) r0 by simp
qed

lemma switched_ctx:
  assumes ok: "coro_ok K g s" and cur: "tasks s me = Some cur" "task_tgid cur = g"
    and c: "caller K s me me = Some (a, p, t)" and f: "fiber_of K s p fid = Some f" "live_fiber s f = Some fb"
    "attached_thread fb = NULL" "f \<in> nodes (fibers p)"
    and th: "live_thread s t = Some th" "selected_fiber th = Some h" "live_fiber s h = Some hb"
  shows "ctx K g (switched_state me cur t th h hb f fb s) = ctx K g s"
proof -
  let ?s = "switched_state me cur t th h hb f fb s"
  note sr = switched_runs [OF assms] and p = switched_runs(3,4) [OF assms]
  note v = switched_views [OF th(1) f(2) th(3) sr(8), of me cur]
  have fok: "fibers_ok K s a p" using p(1) by (simp add: coro_proc_def)
  have id: "fiber_id (resumed_fiber t fb) = fid" "fiber_id (suspended_fiber cur hb) = fiber_id hb"
    using sr(7) by (simp_all add: resumed_fiber_def suspended_fiber_def)
  have "runs K g ?s me = Some (fiber_id (resumed_fiber t fb))" unfolding id sr(2) by simp
  then have "ctx K g ?s fid = ctx K g s fid"
    using ctx_saved [OF p(1) f(4,2)] ctx_task [OF p(2) f(4) v(5), of me "cur\<lparr>user_regs := registers fb, fx := fpu fb\<rparr>"]
      sr(6,7) by (simp add: v(7)) (simp add: resumed_fiber_def)
  moreover have "fiber_id hb \<notin> ran (runs K g ?s)"
  proof
    assume "fiber_id hb \<in> ran (runs K g ?s)"
    then obtain tid where "((runs K g s)(me \<mapsto> fid)) tid = Some (fiber_id hb)" unfolding sr(2) ran_def by blast
    then consider "tid = me" "fid = fiber_id hb" | "tid \<noteq> me" "runs K g s tid = Some (fiber_id hb)" by (auto split: if_splits)
    then show False
    proof cases
      case 1
      then show ?thesis using sr(5,6) by (metis ranI)
    next
      case 2
      then show ?thesis using runs_inj [OF ok sr(5)] by blast
    qed
  qed
  then have "ctx K g ?s (fiber_id hb) = ctx K g s (fiber_id hb)"
    using ctx_task [OF p(1) sr(9) th(3) sr(5) cur(1)] ctx_saved [OF p(2) sr(9) v(6)] by (simp add: suspended_fiber_def)
  ultimately have moved: "ctx K g ?s (fiber_id yb) = ctx K g s (fiber_id yb)" if "live_fiber ?s y = Some yb" "y = f \<or> y = h" for y yb
    using that v(5,6) id by (metis option.inject)
  show ?thesis
  proof (rule ctx_eqI [OF p(2)])
    show "ctx K g ?s (fiber_id yb) = ctx K g s (fiber_id yb)"
      if y: "y \<in> nodes (fibers p)" "live_fiber ?s y = Some yb" for y yb
    proof (cases "y = f \<or> y = h")
      case False
      then have yb: "live_fiber s y = Some yb"
        using y(2) th(1) by (auto simp: switched_state_def live_fiber_def heap_live split: if_splits)
      have ne: "fiber_id yb \<noteq> fid" "fiber_id yb \<noteq> fiber_id hb"
        using False fiber_id_inj [OF fok y(1) yb f(4,2)] fiber_id_inj [OF fok y(1) yb sr(9) th(3)] sr(7) by auto
      have "tid \<noteq> me" "tasks s tid \<noteq> None" if "runs K g s tid = Some (fiber_id yb)" for tid
        using that ne sr(5) coro_okD(4) [OF ok that] by auto
      then show ?thesis
        using ne by (intro ctx_same [OF p y(1) yb y]) (auto simp: sr(2) v(7))
    qed (use moved y(2) in blast)
  qed (use ctx_Some_fiber [OF p(1)] v(3) in simp)
qed

text \<open>An update of a fiber that keeps its identity, its links and its registers changes
  at most the local storage of its context.\<close>

lemma stored_ctx:
  assumes ok: "coro_ok K g s" and p: "coro_proc K g s a p" and f: "f \<in> nodes (fibers p)" "live_fiber s f = Some fb"
    and u: "fiber_frame u" "registers (u fb) = registers fb" "fpu (u fb) = fpu fb" and c: "ctx K g s (fiber_id fb) = Some c"
  defines "s' \<equiv> store s f (OFiber (u fb))"
  shows "coro_ok K g s'" "runs K g s' = runs K g s"
    "ctx K g s' = (ctx K g s)(fiber_id fb \<mapsto> c\<lparr>c_used := fls_bitmap (u fb), c_vals := fls (u fb)\<rparr>)"
proof -
  have inv: "kinv K s" "kinv K s'"
    using coro_okD(1) [OF ok] inv_fiber_frame [OF _ f(2) u(1)] by (simp_all add: s'_def)
  show r: "runs K g s' = runs K g s"
    using abs_fiber_frame [OF f(2) u(1), of K] by (simp add: s'_def runs_def fun_eq_iff)
  show "coro_ok K g s'" using ok inv(2) by (simp add: coro_ok_def r pids_ok_def) (simp add: s'_def)
  have fok: "fibers_ok K s a p" using p by (simp add: coro_proc_def)
  have lp: "live_process s' = live_process s" using live_store_fiber [OF f(2)] by (simp add: s'_def)
  then have "proc_of K s' g = Some a"
    using p by (simp add: coro_proc_def proc_of_def pkey_def [abs_def] s'_def)
  then have p': "coro_proc K g s' a p" using coro_procI [OF inv(2)] lp p by (simp add: coro_proc_def)
  have id: "fiber_id (u fb) = fiber_id fb" using u(1) by (simp add: fiber_frame_def)
  have lf: "live_fiber s' = (live_fiber s)(f \<mapsto> u fb)" by (simp add: s'_def live_simps fun_eq_iff)
  have tk: "tasks s' = tasks s" by (simp add: s'_def)
  have own: "ctx K g s' (fiber_id fb) = Some (c\<lparr>c_used := fls_bitmap (u fb), c_vals := fls (u fb)\<rparr>)"
  proof (cases "fiber_id fb \<in> ran (runs K g s)")
    case True
    then obtain tid cur where "runs K g s tid = Some (fiber_id fb)" "tasks s tid = Some cur"
      using coro_okD(3) [OF ok] by (auto simp: ran_def) metis
    then show ?thesis
      using ctx_task [OF p f, of tid cur] ctx_task [OF p' f(1), of "u fb" tid cur] id c by (auto simp: lf r tk)
  next
    case False
    then show ?thesis
      using ctx_saved [OF p f] ctx_saved [OF p' f(1), of "u fb"] id c u(2,3) by (auto simp: lf r)
  qed
  show "ctx K g s' = (ctx K g s)(fiber_id fb \<mapsto> c\<lparr>c_used := fls_bitmap (u fb), c_vals := fls (u fb)\<rparr>)"
  proof (rule ctx_eqI [OF p'])
    show "ctx K g s' (fiber_id yb) = ((ctx K g s)(fiber_id fb \<mapsto> c\<lparr>c_used := fls_bitmap (u fb), c_vals := fls (u fb)\<rparr>)) (fiber_id yb)"
      if y: "y \<in> nodes (fibers p)" "live_fiber s' y = Some yb" for y yb
    proof (cases "y = f")
      case True
      then show ?thesis using y(2) own id by (auto simp: lf)
    next
      case False
      then have yb: "live_fiber s y = Some yb" "fiber_id yb \<noteq> fiber_id fb"
        using y fiber_id_inj [OF fok y(1) _ f] by (auto simp: lf)
      have "ctx K g s' (fiber_id yb) = ctx K g s (fiber_id yb)"
        using coro_okD(4) [OF ok, of _ "fiber_id yb"] by (intro ctx_same [OF p p' y(1) yb(1) y]) (auto simp: r tk)
      then show ?thesis using yb(2) by simp
    qed
    show "\<exists>y \<in> nodes (fibers p). fkey s' y = Some x"
      if "((ctx K g s)(fiber_id fb \<mapsto> c\<lparr>c_used := fls_bitmap (u fb), c_vals := fls (u fb)\<rparr>)) x \<noteq> None" for x
    proof -
      have "fkey s' = fkey s" using f(2) id by (auto simp: fkey_def lf fun_eq_iff)
      then show ?thesis using that ctx_Some_fiber [OF p, of x] c by (auto split: if_splits)
    qed
  qed
qed

text \<open>The switch: it succeeds when the caller runs a fiber and the target exists and is
  run by nobody. It changes no context.\<close>

definition can_switch :: "kapi \<Rightarrow> pid_t \<Rightarrow> pid_t \<Rightarrow> pid_t \<Rightarrow> kstate \<Rightarrow> bool" where
  "can_switch K g me fid s \<longleftrightarrow> runs K g s me \<noteq> None \<and> ctx K g s fid \<noteq> None \<and> fid \<notin> ran (runs K g s)"

lemma switch_coro:
  assumes ok: "coro_ok K g s" and cur: "tasks s me = Some cur" "task_tgid cur = g"
  obtains (moved) s' c where "do_SwitchToFiber K me fid me s = Some (0, s')" "can_switch K g me fid s" "coro_ok K g s'"
      "runs K g s' = (runs K g s)(me \<mapsto> fid)" "ctx K g s' = ctx K g s" "ctx K g s fid = Some c"
      "tasks s' = (tasks s)(me \<mapsto> cur\<lparr>user_regs := c_regs c, fx := c_fx c\<rparr>)"
  | (refused) s' where "do_SwitchToFiber K me fid me s = Some (-1, s')" "\<not> can_switch K g me fid s" "coro_ok K g s'"
      "runs K g s' = runs K g s" "ctx K g s' = ctx K g s" "tasks s' = tasks s"
  using coro_okD(1) [OF ok] cur(1)
proof (cases rule: switch_cases [where tid = me and fid = fid])
  case no_caller
  then have "\<not> can_switch K g me fid s"
    using runs_caller [OF coro_okD(1) [OF ok] cur(1), of me] cur(2) by (simp add: can_switch_def)
  then show ?thesis
    using refused [of s] switch_no_caller [OF coro_okD(1) [OF ok] cur(1) no_caller] ok by simp
next
  case (no_fiber a p t)
  have "proc_of K s g = Some a" "live_process s a = Some p"
    using caller_coro_proc [OF coro_okD(1) [OF ok] no_fiber(1) cur(1)] cur(2) by (simp_all add: coro_proc_def)
  then have "\<not> can_switch K g me fid s" using no_fiber(2) by (simp add: can_switch_def ctx_registered)
  then show ?thesis
    using refused [of s] switch_no_fiber [OF coro_okD(1) [OF ok] no_fiber] ok by simp
next
  case (busy a p t f fb)
  note inv = coro_okD(1) [OF ok]
  have p: "coro_proc K g s a p" using caller_coro_proc [OF inv busy(1) cur(1)] cur(2) by simp
  have fid: "fiber_id fb = fid" using busy(2,3) callerD(4) [OF inv busy(1)] by (auto simp: fiber_of_Some)
  obtain c where c: "ctx K g s fid = Some c" "c_used c = fls_bitmap fb" "c_vals c = fls fb"
    using fiber_ctx_total [OF ok _ _ busy(5,3)] p ctx_of_fiber [OF p busy(5,3)] fid by (auto simp: coro_proc_def)
  have "registers (refused_fiber fb) = registers fb" "fpu (refused_fiber fb) = fpu fb"
    "fls_bitmap (refused_fiber fb) = fls_bitmap fb" "fls (refused_fiber fb) = fls fb"
    by (simp_all add: refused_fiber_def)
  note st = stored_ctx [OF ok p busy(5,3) fiber_frame_refused this(1,2) c(1) [folded fid], unfolded this(3,4)]
  have "c\<lparr>c_used := fls_bitmap fb, c_vals := fls fb\<rparr> = c" using c(2,3) by simp
  then have "ctx K g (store s f (OFiber (refused_fiber fb))) = ctx K g s" using st(3) c(1) fid by (simp add: map_upd_triv)
  moreover have "runs K g s = a_running (abs_process K s p)" using p by (simp add: coro_proc_def runs_registered)
  then have "\<not> can_switch K g me fid s"
    using abs_attached [OF callerD(3,4) [OF inv busy(1)] busy(2,3)] busy(4) by (simp add: can_switch_def)
  ultimately show ?thesis using refused [OF switch_busy [OF inv busy(1-4)]] st(1,2) by simp
next
  case (free a p t f fb th h hb)
  note inv = coro_okD(1) [OF ok]
  note sr = switched_runs [OF ok cur free(1-5,6-8)]
  have c: "ctx K g s fid = Some \<lparr>c_regs = registers fb, c_fx = fpu fb, c_used = fls_bitmap fb, c_vals = fls fb\<rparr>"
    using ctx_saved [OF sr(3) free(5,3)] sr(6,7) by simp
  have "can_switch K g me fid s" using c sr(5,6) by (simp add: can_switch_def)
  then show ?thesis
    using moved [OF switch_free [OF inv free(1-4) cur(1) free(6-8)] _ sr(1,2) switched_ctx [OF ok cur free(1-5,6-8)] c]
    by (simp add: switched_state_def)
qed

section \<open>Creating and converting\<close>

definition start_ctx :: "task \<Rightarrow> ulong \<Rightarrow> ulong \<Rightarrow> ulong \<Rightarrow> ulong \<Rightarrow> fctx" where
  "start_ctx cur stk sz func par = \<lparr>c_regs = (user_regs cur)\<lparr>sp := stk + sz - 8, bp := stk + sz - 8, ip := func, di := par\<rparr>,
     c_fx = fx cur, c_used = (\<lambda>_. False), c_vals = (\<lambda>_. 0)\<rparr>"

text \<open>The numbers are handed out in order.\<close>

lemma next_fid_count:
  assumes ok: "coro_ok K g s" and p: "coro_proc K g s a p" and bound: "unat (last_fiber_id p) + 1 < 2 ^ 31"
  shows "next_fid p = of_nat (Suc (card (dom (ctx K g s))))" "ctx K g s (next_fid p) = None"
proof -
  have pp: "proc_of K s g = Some a" "live_process s a = Some p" "fibers_ok K s a p" using p by (simp_all add: coro_proc_def)
  have "unat (next_fid p) = unat (last_fiber_id p) + 1"
    using bound unat_Suc_word [of "last_fiber_id p"] unat_ucast_small [of "last_fiber_id p + 1", where 'b = 32]
    by (simp add: next_fid_def)
  then show "next_fid p = of_nat (Suc (card (dom (ctx K g s))))"
    unfolding ctx_count [OF ok pp(1,2)] by (metis Suc_eq_plus1 of_nat_unat ucast_id)
  show "ctx K g s (next_fid p) = None"
    using next_fid_new [OF pp(3) bound] ctx_dom [OF ok pp(1,2)] by (auto simp: domIff)
qed

lemma created_ctx:
  assumes ok: "coro_ok K g s" "coro_ok K g s'" and p: "coro_proc K g s a p" "coro_proc K g s' a p'"
    and r: "runs K g s' = runs K g s" and tk: "tasks s' = tasks s" and ids: "ctx K g s fid = None"
    and f: "nodes (fibers p') = insert f (nodes (fibers p))" "f \<notin> nodes (fibers p)" "live_fiber s' f = Some fb" "fiber_id fb = fid"
    and same: "\<And>x. x \<in> nodes (fibers p) \<Longrightarrow> live_fiber s' x = live_fiber s x"
  shows "ctx K g s' = (ctx K g s)(fid \<mapsto> \<lparr>c_regs = registers fb, c_fx = fpu fb, c_used = fls_bitmap fb, c_vals = fls fb\<rparr>)"
proof (rule ctx_eqI [OF p(2)])
  let ?M = "(ctx K g s)(fid \<mapsto> \<lparr>c_regs = registers fb, c_fx = fpu fb, c_used = fls_bitmap fb, c_vals = fls fb\<rparr>)"
  have un: "fid \<notin> ran (runs K g s)"
  proof
    assume "fid \<in> ran (runs K g s)"
    then obtain tid where tid: "runs K g s tid = Some fid" by (auto simp: ran_def)
    obtain cur where "tasks s tid = Some cur" using coro_okD(4) [OF ok(1) tid] by blast
    then show False using runs_ctx [OF ok(1) tid] ids by auto
  qed
  have f': "f \<in> nodes (fibers p')" using f(1) by simp
  show "ctx K g s' (fiber_id yb) = ?M (fiber_id yb)" if y: "y \<in> nodes (fibers p')" "live_fiber s' y = Some yb" for y yb
  proof (cases "y = f")
    case True
    then show ?thesis using ctx_saved [OF p(2) y] un y(2) f(3,4) by (simp add: r)
  next
    case False
    then have yb: "y \<in> nodes (fibers p)" "live_fiber s y = Some yb" using y f(1) same by auto
    have "ctx K g s' (fiber_id yb) = ctx K g s (fiber_id yb)"
      using coro_okD(4) [OF ok(1), of _ "fiber_id yb"] by (intro ctx_same [OF p yb y]) (auto simp: r tk)
    moreover have "fibers_ok K s' a p'" using p(2) by (simp add: coro_proc_def)
    then have "fiber_id yb \<noteq> fid" using fiber_id_inj [OF _ y f' f(3)] False f(4) by auto
    ultimately show ?thesis by simp
  qed
  show "\<exists>y \<in> nodes (fibers p'). fkey s' y = Some x" if "?M x \<noteq> None" for x
    using that f same ctx_Some_fiber [OF p(1), of x] by (cases "x = fid") (auto simp: fkey_def)
qed

lemma create_idle:
  assumes ok: "coro_ok K g s" and cur: "tasks s me = Some cur" "task_tgid cur = g" and run: "runs K g s me = None"
  shows "do_CreateFiber K me stk sz func par me s = Some (-1, s)"
proof -
  note inv = coro_okD(1) [OF ok]
  have "caller K s me me = None" using run runs_caller [OF inv cur(1), of me] cur(2) by simp
  from caller_None [OF inv cur(1) this] show ?thesis
    using create_unregistered [OF inv cur(1)] create_not_converted [OF inv cur(1)] by blast
qed

lemma create_coro:
  assumes ok: "coro_ok K g s" and K: "kapi_ok K" and ids: "ids_left K me s" and cur: "tasks s me = Some cur" "task_tgid cur = g"
    and run: "runs K g s me \<noteq> None" and res: "do_CreateFiber K me stk sz func par me s = Some (r, s')"
  shows "coro_ok K g s'" "runs K g s' = runs K g s" "tasks s' = tasks s"
    "r = of_nat (Suc (card (dom (ctx K g s))))" "ctx K g s r = None"
    "ctx K g s' = (ctx K g s)(r \<mapsto> start_ctx cur stk sz func par)"
proof -
  note inv = coro_okD(1) [OF ok]
  obtain a p t where c: "caller K s me me = Some (a, p, t)" using run runs_caller [OF inv cur(1), of me] cur(2) by auto
  note cd = callerD [OF inv c]
  have a: "proc_of K s (task_tgid cur) = Some a" and pid: "process_id p = g" using cd(7) cur by auto
  obtain f where f: "kmalloc_at K (allocs s) (is_live s) = Some f" and r: "r = next_fid p"
    and s': "s' = store (store (alloc_step s) a (OProcess (add_fiber K p f))) f (OFiber (created_fiber cur a stk sz func par r))"
    using res create_converted [OF inv K cur(1) a cd(2,6)] by (auto split: option.splits)
  have inv': "kinv K s'" by (rule create_inv [OF inv K ids res])
  have new: "\<not> is_live s f" using kapi_ok_fresh [OF K f] .
  note apart = nodes_apart [OF cd(2,3,4)]
  have p: "coro_proc K g s a p" using caller_coro_proc [OF inv c cur(1)] cur(2) by simp
  have "abs_state K s' = (abs_state K s)(process_id p \<mapsto>
      (abs_process K s p)\<lparr>a_fibers := insert (next_fid p) (a_fibers (abs_process K s p))\<rparr>)"
    by (rule abs_created [OF inv inv' cd(1,2) new _ s']) (simp add: r)
  from runs_upd [OF this [unfolded pid]] show rr: "runs K g s' = runs K g s"
    using p by (simp add: coro_proc_def runs_registered)
  show tk: "tasks s' = tasks s" by (simp add: s')
  show ok': "coro_ok K g s'" using ok inv' by (simp add: coro_ok_def rr tk pids_ok_def)
  have p'l: "live_process s' a = Some (add_fiber K p f)" using apart(4) [OF new] by (simp add: s' live_simps)
  have "proc_of K s' g = Some a" using p'l cd(1) pid by (simp add: proc_of_Some [OF inv']) (simp add: s' add_fiber_def)
  then have p': "coro_proc K g s' a (add_fiber K p f)" using coro_procI [OF inv' _ p'l] by simp
  have bound: "unat (last_fiber_id p) + 1 < 2 ^ 31" using ids cur a cd(2) by (simp add: ids_left_def)
  show nf: "r = of_nat (Suc (card (dom (ctx K g s))))" "ctx K g s r = None"
    using next_fid_count [OF ok p bound] r by simp_all
  let ?fb = "created_fiber cur a stk sz func par r"
  have "ctx K g s' = (ctx K g s)(r \<mapsto> \<lparr>c_regs = registers ?fb, c_fx = fpu ?fb, c_used = fls_bitmap ?fb, c_vals = fls ?fb\<rparr>)"
    using apart(2) apart(4) [OF new]
    by (intro created_ctx [OF ok ok' p p' rr tk nf(2), of f]) (auto simp: add_fiber_def s' live_simps)
  then show "ctx K g s' = (ctx K g s)(r \<mapsto> start_ctx cur stk sz func par)"
    by (simp add: created_fiber_def new_fiber_def Let_def start_ctx_def bitmap_zero_def)
qed

definition thread_ctx :: "task \<Rightarrow> fctx" where
  "thread_ctx cur = \<lparr>c_regs = user_regs cur, c_fx = fx cur, c_used = (\<lambda>_. False), c_vals = (\<lambda>_. 0)\<rparr>"

lemma converted_runs:
  assumes ok: "coro_ok K g s" and K: "kapi_ok K" and cur: "tasks s me = Some cur" "task_tgid cur = g"
    and p: "coro_proc K g s a p" and bound: "unat (last_fiber_id p) + 1 < 2 ^ 31" and t: "thread_of K s p me = None"
    and new: "\<not> is_live s t" "\<not> is_live s f" "t \<noteq> f"
  defines "s' \<equiv> converted_state K cur a p t f me s" and "p' \<equiv> add_fiber K (add_thread K p t me) f"
  shows "coro_ok K g s'" "runs K g s' = (runs K g s)(me \<mapsto> next_fid p)" "coro_proc K g s' a p'"
    "live_fiber s' f = Some (converted_fiber cur a (next_fid p) t)" "tasks s' = tasks s"
    "x \<in> nodes (fibers p) \<Longrightarrow> live_fiber s' x = live_fiber s x" "f \<notin> nodes (fibers p)"
proof -
  note inv = coro_okD(1) [OF ok]
  have a: "a \<in> nodes (processes s)" "live_process s a = Some p" "process_id p = g" "threads_ok K s a p" "fibers_ok K s a p"
    using p by (auto simp: coro_proc_def proc_of_Some [OF inv])
  have inv': "kinv K s'" unfolding s'_def by (rule converted_state_inv [OF inv K a(1,2) bound t new])
  show r: "runs K g s' = (runs K g s)(me \<mapsto> next_fid p)"
    using runs_upd [OF abs_converted [OF inv K a(1,2) bound t new, of cur, unfolded a(3)]] p
    by (simp add: s'_def coro_proc_def runs_registered)
  show tk: "tasks s' = tasks s" by (simp add: s'_def converted_state_def)
  show "coro_ok K g s'" using ok inv' cur by (auto simp: coro_ok_def r tk pids_ok_def)
  note apart = nodes_apart [OF a(2,4,5)]
  have h: "heap s' = (heap s)(a \<mapsto> Live (OProcess p'),
      t \<mapsto> Live (OThread \<lparr>thread_id = me, parent = Some a, selected_fiber = Some f\<rparr>),
      f \<mapsto> Live (OFiber (converted_fiber cur a (next_fid p) t)))"
    by (simp add: s'_def p'_def converted_state_def)
  have ne: "a \<noteq> t" "a \<noteq> f" using new live_is_live(1) [OF a(2)] by auto
  then have lp: "live_process s' a = Some p'" by (simp add: heap_live h)
  have "proc_of K s' g = Some a"
    using lp a(1,3) by (simp add: proc_of_Some [OF inv']) (simp add: s'_def p'_def converted_state_def add_fiber_def add_thread_def)
  then show "coro_proc K g s' a p'" using coro_procI [OF inv' _ lp] by simp
  show "live_fiber s' f = Some (converted_fiber cur a (next_fid p) t)" by (simp add: heap_live h)
  show "live_fiber s' x = live_fiber s x" if "x \<in> nodes (fibers p)"
    using that apart(2) apart(4) [OF new(1)] apart(4) [OF new(2)] by (auto simp: live_fiber_def h)
  show "f \<notin> nodes (fibers p)" using apart(4) [OF new(2)] by simp
qed

lemma converted_ctx:
  assumes ok: "coro_ok K g s" and K: "kapi_ok K" and cur: "tasks s me = Some cur" "task_tgid cur = g"
    and p: "coro_proc K g s a p" and bound: "unat (last_fiber_id p) + 1 < 2 ^ 31" and t: "thread_of K s p me = None"
    and new: "\<not> is_live s t" "\<not> is_live s f" "t \<noteq> f"
  shows "ctx K g (converted_state K cur a p t f me s) = (ctx K g s)(next_fid p \<mapsto> thread_ctx cur)" (is "ctx K g ?s = ?M")
proof -
  note cr = converted_runs [OF assms] and nf = next_fid_count [OF ok p bound]
  let ?p = "add_fiber K (add_thread K p t me) f"
  have nodes': "nodes (fibers ?p) = insert f (nodes (fibers p))" by (simp add: add_fiber_def add_thread_def)
  have idle: "runs K g s me = None"
    using p t by (simp add: coro_proc_def runs_registered abs_process_def)
  show ?thesis
  proof (rule ctx_eqI [OF cr(3)])
    show "ctx K g ?s (fiber_id yb) = ?M (fiber_id yb)" if y: "y \<in> nodes (fibers ?p)" "live_fiber ?s y = Some yb" for y yb
    proof (cases "y = f")
      case True
      then show ?thesis
        using ctx_task [OF cr(3) y, of me cur] cr(2,4,5) cur(1) y(2)
        by (auto simp: thread_ctx_def) (auto simp: converted_fiber_def new_fiber_def Let_def bitmap_zero_def)
    next
      case False
      then have yb: "y \<in> nodes (fibers p)" "live_fiber s y = Some yb" using y cr(6) nodes' by auto
      obtain c where "fiber_ctx s yb = Some c"
        using p fiber_ctx_total [OF ok _ _ yb] unfolding coro_proc_def by metis
      then have ne: "fiber_id yb \<noteq> next_fid p" using nf(2) ctx_of_fiber [OF p yb] by auto
      have "tid \<noteq> me" "tasks s tid \<noteq> None" if "runs K g s tid = Some (fiber_id yb)" for tid
        using that idle coro_okD(4) [OF ok that] by auto
      then have "ctx K g ?s (fiber_id yb) = ctx K g s (fiber_id yb)"
        using ne by (intro ctx_same [OF p cr(3) yb y]) (auto simp: cr(2,5))
      then show ?thesis using ne by simp
    qed
    show "\<exists>y \<in> nodes (fibers ?p). fkey ?s y = Some x" if "?M x \<noteq> None" for x
      using that cr(4,6) nodes' ctx_Some_fiber [OF p, of x] by (cases "x = next_fid p") (auto simp: fkey_def)
  qed
qed

lemma registered_coro:
  assumes ok: "coro_ok K g s" and K: "kapi_ok K" and cur: "task_tgid cur = g" and np: "proc_of K s g = None" and new: "\<not> is_live s a"
  defines "s' \<equiv> registered_state K cur a s"
  shows "coro_ok K g s'" "runs K g s' = runs K g s" "ctx K g s' = ctx K g s" "coro_proc K g s' a (new_process cur)"
    "tasks s' = tasks s"
proof -
  note inv = coro_okD(1) [OF ok]
  note reg = registered_state_inv [OF inv K np [folded cur] new, folded s'_def]
  have "runs K g s' = Map.empty"
    using runs_upd [OF abs_registered [OF inv K np [folded cur] new, unfolded cur]] by (simp add: s'_def)
  then show r: "runs K g s' = runs K g s" using np by (simp add: runs_unregistered)
  show tk: "tasks s' = tasks s" by (simp add: s'_def registered_state_def)
  show "coro_ok K g s'" using ok reg(1) by (simp add: coro_ok_def r tk pids_ok_def)
  have pr: "proc_of K s' g = Some a" using reg(2,3) cur by (simp add: proc_of_Some [OF reg(1)] new_process_def)
  then show "coro_proc K g s' a (new_process cur)" using coro_procI [OF reg(1) _ reg(3)] by simp
  have "fiber_of K s' (new_process cur) x = None" for x
    by (simp add: fiber_of_def new_process_def table_find_def hash_init_def)
  then show "ctx K g s' = ctx K g s"
    using ctx_registered [OF pr reg(3)] np by (simp add: ctx_unregistered fun_eq_iff)
qed

text \<open>The conversion: a thread that runs no fiber becomes the next one, with the context
  it has; a thread that runs one is refused.\<close>

lemma convert_coro:
  assumes ok: "coro_ok K g s" and K: "kapi_ok K" and ids: "ids_left K me s" and cur: "tasks s me = Some cur" "task_tgid cur = g"
    and run: "runs K g s me = None" and res: "do_ConvertThreadToFiber K me me s = Some (r, s')"
  shows "coro_ok K g s'" "runs K g s' = (runs K g s)(me \<mapsto> r)" "tasks s' = tasks s"
    "r = of_nat (Suc (card (dom (ctx K g s))))" "ctx K g s r = None" "ctx K g s' = (ctx K g s)(r \<mapsto> thread_ctx cur)"
proof -
  note inv = coro_okD(1) [OF ok]
  have finish: "coro_ok K g s' \<and> runs K g s' = (runs K g s1)(me \<mapsto> r) \<and> tasks s' = tasks s1 \<and>
      r = of_nat (Suc (card (dom (ctx K g s1)))) \<and> ctx K g s1 r = None \<and> ctx K g s' = (ctx K g s1)(r \<mapsto> thread_ctx cur)"
    if s1: "coro_ok K g s1" "coro_proc K g s1 a p" "unat (last_fiber_id p) + 1 < 2 ^ 31" "thread_of K s1 p me = None" "tasks s1 me = Some cur"
    and c: "convert_thread K me a me s1 = Some (r, s')" for s1 a p
  proof -
    have "threads_ok K s1 a p" "live_process s1 a = Some p" using s1(2) by (simp_all add: coro_proc_def)
    then obtain t f where tf: "two_blocks K s1 = Some (t, f)" "r = next_fid p" "s' = converted_state K cur a p t f me s1"
      using c convert_thread_new [OF K _ _ s1(5,4)] by (auto split: option.splits)
    note new = two_blocks_fresh [OF K tf(1)]
    show ?thesis
      unfolding tf(2,3)
      using converted_runs(1,2,5) [OF s1(1) K s1(5) cur(2) s1(2-4) new] converted_ctx [OF s1(1) K s1(5) cur(2) s1(2-4) new]
        next_fid_count [OF s1(1-3)] by blast
  qed
  have "coro_ok K g s' \<and> runs K g s' = (runs K g s)(me \<mapsto> r) \<and> tasks s' = tasks s \<and>
      r = of_nat (Suc (card (dom (ctx K g s)))) \<and> ctx K g s r = None \<and> ctx K g s' = (ctx K g s)(r \<mapsto> thread_ctx cur)"
  proof (cases "proc_of K s g")
    case None
    then obtain a where a: "kmalloc_at K (allocs s) (is_live s) = Some a"
      and c: "convert_thread K me a me (registered_state K cur a s) = Some (r, s')"
      using res convert_unregistered [OF inv cur(1)] cur(2) by (auto split: option.splits)
    note reg = registered_coro [OF ok K cur(2) None kapi_ok_fresh [OF K a]]
    have "unat (last_fiber_id (new_process cur)) + 1 < 2 ^ 31" by (simp add: new_process_def)
    moreover have "tasks (registered_state K cur a s) me = Some cur" using reg(5) cur(1) by simp
    ultimately show ?thesis using finish [OF reg(1,4) _ thread_of_new_process _ c] unfolding reg(2,3,5) by blast
  next
    case (Some a)
    then obtain p where p: "live_process s a = Some p" "coro_proc K g s a p"
      using coro_procI [OF inv Some] by (auto simp: proc_of_Some [OF inv])
    have "thread_of K s p me = None"
      using run runs_caller [OF inv cur(1), of me] cur Some p(1) by (auto simp: caller_def split: bind_splits)
    moreover have "unat (last_fiber_id p) + 1 < 2 ^ 31" using ids cur Some p(1) by (simp add: ids_left_def)
    moreover have "convert_thread K me a me s = Some (r, s')"
      using res convert_registered [OF inv cur(1), of a me] Some cur(2) by simp
    ultimately show ?thesis using finish [OF ok p(2) _ _ cur(1)] by blast
  qed
  then show "coro_ok K g s'" "runs K g s' = (runs K g s)(me \<mapsto> r)" "tasks s' = tasks s"
    "r = of_nat (Suc (card (dom (ctx K g s))))" "ctx K g s r = None" "ctx K g s' = (ctx K g s)(r \<mapsto> thread_ctx cur)"
    by blast+
qed

lemma convert_again:
  assumes ok: "coro_ok K g s" and cur: "tasks s me = Some cur" "task_tgid cur = g" and run: "runs K g s me \<noteq> None"
  shows "do_ConvertThreadToFiber K me me s = Some (-1, s)"
proof -
  note inv = coro_okD(1) [OF ok]
  obtain a p t where c: "caller K s me me = Some (a, p, t)" using run runs_caller [OF inv cur(1), of me] cur(2) by auto
  note cd = callerD [OF inv c]
  have "proc_of K s (task_tgid cur) = Some a" using cd(7) cur(1) by auto
  then show ?thesis
    using convert_registered [OF inv cur(1)] convert_thread_again [OF cd(3,2) cur(1) cd(6)] by simp
qed

section \<open>Local storage\<close>

lemma runs_running:
  assumes ok: "coro_ok K g s" and cur: "tasks s me = Some cur" "task_tgid cur = g" and run: "runs K g s me = Some fid"
    and c: "ctx K g s fid = Some c"
  obtains a p f fb where "coro_proc K g s a p" "f \<in> nodes (fibers p)" "running K me me s = Some (f, fb)" "live_fiber s f = Some fb"
    "fiber_id fb = fid" "c_used c = fls_bitmap fb" "c_vals c = fls fb"
proof -
  note inv = coro_okD(1) [OF ok]
  obtain a p t where cl: "caller K s me me = Some (a, p, t)" using run runs_caller [OF inv cur(1), of me] cur(2) by auto
  then obtain f fb where r: "running K me me s = Some (f, fb)" using running_None [OF inv, of me me] by auto
  obtain t' th where th: "caller K s me me = Some (a, p, t')" "live_thread s t' = Some th" "selected_fiber th = Some f"
      "live_fiber s f = Some fb" "f \<in> nodes (fibers p)"
    using runningD [OF inv r] cl by (metis option.inject prod.inject)
  have p: "coro_proc K g s a p" using caller_coro_proc [OF inv cl cur(1)] cur(2) by simp
  have fid: "fiber_id fb = fid" using abs_thread [OF inv th(1-4)] run p by (simp add: coro_proc_def runs_registered)
  have "ctx K g s fid = Some \<lparr>c_regs = user_regs cur, c_fx = fx cur, c_used = fls_bitmap fb, c_vals = fls fb\<rparr>"
    using ctx_task [OF p th(5,4) _ cur(1)] run fid by simp
  then show ?thesis using that [OF p th(5) r th(4) fid] c by simp
qed

lemma flip_ctx:
  assumes ok: "coro_ok K g s" and p: "coro_proc K g s a p" and f: "f \<in> nodes (fibers p)" "live_fiber s f = Some fb"
    and c: "ctx K g s (fiber_id fb) = Some c" "c_used c = fls_bitmap fb" "c_vals c = fls fb"
  shows "coro_ok K g (store s f (OFiber (fls_flip i fb)))" "runs K g (store s f (OFiber (fls_flip i fb))) = runs K g s"
    "ctx K g (store s f (OFiber (fls_flip i fb))) = (ctx K g s)(fiber_id fb \<mapsto> c\<lparr>c_used := (c_used c)(i := \<not> c_used c i)\<rparr>)"
    "coro_ok K g (store s f (OFiber (fls_store_at i v fb)))" "runs K g (store s f (OFiber (fls_store_at i v fb))) = runs K g s"
    "ctx K g (store s f (OFiber (fls_store_at i v fb))) = (ctx K g s)(fiber_id fb \<mapsto> c\<lparr>c_vals := (c_vals c)(i := v)\<rparr>)"
proof -
  note flip = stored_ctx [OF ok p f fiber_frame_fls(1) [of i] _ _ c(1)]
    and put = stored_ctx [OF ok p f fiber_frame_fls(2) [of i v] _ _ c(1)]
  show "coro_ok K g (store s f (OFiber (fls_flip i fb)))" "runs K g (store s f (OFiber (fls_flip i fb))) = runs K g s"
    by (rule flip; simp add: fls_flip_def)+
  show "coro_ok K g (store s f (OFiber (fls_store_at i v fb)))" "runs K g (store s f (OFiber (fls_store_at i v fb))) = runs K g s"
    by (rule put; simp add: fls_store_at_def)+
  show "ctx K g (store s f (OFiber (fls_flip i fb))) = (ctx K g s)(fiber_id fb \<mapsto> c\<lparr>c_used := (c_used c)(i := \<not> c_used c i)\<rparr>)"
    using flip(3) c(2,3) by (cases c) (simp add: fls_flip_def change_bit_def)
  show "ctx K g (store s f (OFiber (fls_store_at i v fb))) = (ctx K g s)(fiber_id fb \<mapsto> c\<lparr>c_vals := (c_vals c)(i := v)\<rparr>)"
    using put(3) c(2,3) by (cases c) (simp add: fls_store_at_def)
qed

lemma fls_coro:
  assumes ok: "coro_ok K g s" and cur: "tasks s me = Some cur" "task_tgid cur = g" and run: "runs K g s me = Some fid"
    and c: "ctx K g s fid = Some c"
  defines "upd \<equiv> \<lambda>s' c'. coro_ok K g s' \<and> runs K g s' = runs K g s \<and> tasks s' = tasks s \<and> ctx K g s' = (ctx K g s)(fid \<mapsto> c')"
    and "good \<equiv> \<lambda>index. \<not> bad_index index \<and> c_used c (unat index)"
  shows "\<lbrakk>i < MAX_FLS_POINTERS; \<not> c_used c i; \<forall>j < i. c_used c j\<rbrakk> \<Longrightarrow>
      \<exists>s'. do_FlsAlloc K me me s = Some (of_nat i, s') \<and> upd s' (c\<lparr>c_used := (c_used c)(i := True)\<rparr>)"
    and "\<forall>i < MAX_FLS_POINTERS. c_used c i \<Longrightarrow> do_FlsAlloc K me me s = Some (-1, s)"
    and "good index \<Longrightarrow> \<exists>s'. do_FlsFree K me index me s = Some (True, s') \<and> upd s' (c\<lparr>c_used := (c_used c)(unat index := False)\<rparr>)"
    and "good index \<Longrightarrow> do_FlsGetValue K me index me s = Some (c_vals c (unat index))"
    and "good index \<Longrightarrow> \<exists>s'. do_FlsSetValue K me index v me s = Some s' \<and> upd s' (c\<lparr>c_vals := (c_vals c)(unat index := v)\<rparr>)"
proof -
  note inv = coro_okD(1) [OF ok]
  obtain a p f fb where p: "coro_proc K g s a p" and f: "f \<in> nodes (fibers p)" "running K me me s = Some (f, fb)"
      "live_fiber s f = Some fb" "fiber_id fb = fid" and cb: "c_used c = fls_bitmap fb" "c_vals c = fls fb"
    using runs_running [OF ok cur run c] by metis
  note fc = flip_ctx [OF ok p f(1,3) c [folded f(4)] cb, unfolded f(4)]
  show "\<exists>s'. do_FlsAlloc K me me s = Some (of_nat i, s') \<and> upd s' (c\<lparr>c_used := (c_used c)(i := True)\<rparr>)"
    if i: "i < MAX_FLS_POINTERS" "\<not> c_used c i" "\<forall>j < i. c_used c j"
  proof -
    have "find_first_zero_bit (fls_bitmap fb) MAX_FLS_POINTERS = i"
      using i cb(1) find_first_zero_bit_free [of "fls_bitmap fb" MAX_FLS_POINTERS]
        find_first_zero_bit_least [of _ "fls_bitmap fb" MAX_FLS_POINTERS] find_first_zero_bit_le [of "fls_bitmap fb" MAX_FLS_POINTERS]
      by (metis le_neq_implies_less linorder_neqE_nat)
    then show ?thesis using i fls_alloc_eq [OF inv f(2)] fc(1-3) [of i] by (simp add: upd_def Let_def)
  qed
  show "do_FlsAlloc K me me s = Some (-1, s)" if "\<forall>i < MAX_FLS_POINTERS. c_used c i"
    using that fls_alloc_eq [OF inv f(2)] find_first_zero_bit_full [of "fls_bitmap fb" MAX_FLS_POINTERS] cb(1)
    by (simp add: Let_def)
  show "\<exists>s'. do_FlsFree K me index me s = Some (True, s') \<and> upd s' (c\<lparr>c_used := (c_used c)(unat index := False)\<rparr>)" if "good index"
    using that fls_free_eq [OF inv f(2), of index] fc(1-3) [of "unat index"] cb by (simp add: upd_def good_def)
  show "do_FlsGetValue K me index me s = Some (c_vals c (unat index))" if "good index"
    using that fls_get_eq [OF inv f(2), of index] cb by (simp add: good_def)
  show "\<exists>s'. do_FlsSetValue K me index v me s = Some s' \<and> upd s' (c\<lparr>c_vals := (c_vals c)(unat index := v)\<rparr>)" if "good index"
    using that fls_set_eq [OF inv f(2), of index v] fc(4-6) [of "unat index" v] cb by (simp add: upd_def good_def)
qed

end
