(* ===== verification/Coroutine_Library.thy ===== *)
theory Coroutine_Library
  imports Fiber_Coroutines
begin

text \<open>
  The coroutine contract as a program sees it through the library: the locale
  \<open>coroutines\<close> states what a client may rely on, its lemmas are proved from the
  contract alone, and the interpretation discharges the contract for the library
  functions of \<open>Fiberlib\<close> running on the module.
\<close>

section \<open>The contract\<close>

text \<open>\<open>regs\<close> gives the registers of the threads of the process, \<open>runs\<close> the fiber each
  converted thread executes, \<open>ctx\<close> the contexts of all fibers. \<open>exec\<close> is user code that
  changes the registers of its thread.\<close>

locale coroutines =
  fixes ok :: "'s \<Rightarrow> bool"
    and regs :: "'s \<Rightarrow> pid_t \<rightharpoonup> pt_regs"
    and runs :: "'s \<Rightarrow> pid_t \<rightharpoonup> pid_t"
    and ctx :: "'s \<Rightarrow> pid_t \<rightharpoonup> fctx"
    and exec :: "pid_t \<Rightarrow> (pt_regs \<Rightarrow> pt_regs) \<Rightarrow> 's \<Rightarrow> 's"
    and switch :: "pid_t \<Rightarrow> pid_t \<Rightarrow> 's \<Rightarrow> (long \<times> 's) option"
  assumes runs_regs: "ok s \<Longrightarrow> runs s me = Some fid \<Longrightarrow> \<exists>c. ctx s fid = Some c \<and> regs s me = Some (c_regs c)"
    and runs_once: "ok s \<Longrightarrow> runs s me = Some fid \<Longrightarrow> runs s other = Some fid \<Longrightarrow> other = me"
    and exec_run: "ok s \<Longrightarrow> runs s me = Some fid \<Longrightarrow> ctx s fid = Some c \<Longrightarrow>
      ok (exec me u s) \<and> runs (exec me u s) = runs s \<and> ctx (exec me u s) = (ctx s)(fid \<mapsto> c\<lparr>c_regs := u (c_regs c)\<rparr>) \<and>
      regs (exec me u s) = (regs s)(me \<mapsto> u (c_regs c))"
    and exec_idle: "ok s \<Longrightarrow> regs s me = Some r \<Longrightarrow> runs s me = None \<Longrightarrow>
      ok (exec me u s) \<and> runs (exec me u s) = runs s \<and> ctx (exec me u s) = ctx s \<and> regs (exec me u s) = (regs s)(me \<mapsto> u r)"
    and switch_free: "ok s \<Longrightarrow> runs s me \<noteq> None \<Longrightarrow> ctx s fid = Some c \<Longrightarrow> fid \<notin> ran (runs s) \<Longrightarrow>
      \<exists>s'. switch me fid s = Some (0, s') \<and> ok s' \<and> runs s' = (runs s)(me \<mapsto> fid) \<and> ctx s' = ctx s \<and>
        regs s' = (regs s)(me \<mapsto> c_regs c)"
    and switch_busy: "ok s \<Longrightarrow> regs s me \<noteq> None \<Longrightarrow> runs s me = None \<or> ctx s fid = None \<or> fid \<in> ran (runs s) \<Longrightarrow>
      \<exists>s'. switch me fid s = Some (-1, s') \<and> ok s' \<and> runs s' = runs s \<and> ctx s' = ctx s \<and> regs s' = regs s"
begin

lemma left_free:
  assumes "ok s" "runs s me = Some g" "fid \<noteq> g"
  shows "g \<notin> ran ((runs s)(me \<mapsto> fid))"
proof
  assume "g \<in> ran ((runs s)(me \<mapsto> fid))"
  then obtain x where "((runs s)(me \<mapsto> fid)) x = Some g" by (auto simp: ran_def)
  then show False using runs_once [OF assms(1,2), of x] assms(3) by (cases "x = me") auto
qed

text \<open>A thread that leaves a fiber, runs another one and comes back finds the registers
  it left with.\<close>

lemma there_and_back:
  assumes s: "ok s" "runs s me = Some g" "regs s me = Some r" and f: "ctx s fid = Some c" "fid \<notin> ran (runs s)"
  shows "\<exists>s1 s2. switch me fid s = Some (0, s1) \<and> switch me g (exec me u s1) = Some (0, s2) \<and> regs s2 me = Some r \<and>
    runs s2 = runs s \<and> ctx s2 = (ctx s)(fid \<mapsto> c\<lparr>c_regs := u (c_regs c)\<rparr>) \<and> ok s2"
proof -
  have ne: "fid \<noteq> g" using s(2) f(2) by (auto simp: ran_def)
  obtain s1 where s1: "switch me fid s = Some (0, s1)" "ok s1" "runs s1 = (runs s)(me \<mapsto> fid)" "ctx s1 = ctx s"
    using switch_free [OF s(1) _ f] s(2) by auto
  let ?s = "exec me u s1"
  have e: "ok ?s" "runs ?s = (runs s)(me \<mapsto> fid)" "ctx ?s = (ctx s)(fid \<mapsto> c\<lparr>c_regs := u (c_regs c)\<rparr>)"
    using exec_run [OF s1(2), of me fid c u] s1(3,4) f(1) by simp_all
  obtain d where d: "ctx s g = Some d" "c_regs d = r" using runs_regs [OF s(1,2)] s(3) by auto
  have "g \<notin> ran (runs ?s)" using left_free [OF s(1,2) ne] e(2) by simp
  then obtain s2 where "switch me g ?s = Some (0, s2)" "ok s2" "runs s2 = (runs ?s)(me \<mapsto> g)" "ctx s2 = ctx ?s"
      "regs s2 = (regs ?s)(me \<mapsto> c_regs d)"
    using switch_free [OF e(1), of me g d] e(2,3) d(1) ne by auto
  then show ?thesis using s1(1) e(2,3) d(2) s(2) by (auto simp: fun_upd_idem)
qed

text \<open>A fiber that one thread leaves can be continued by another thread, which gets the
  registers the first one had.\<close>

lemma continued_by_another:
  assumes s: "ok s" "runs s me = Some g" "regs s me = Some r" and f: "ctx s fid \<noteq> None" "fid \<notin> ran (runs s)"
    and other: "runs s you = Some h" "you \<noteq> me"
  shows "\<exists>s1 s2. switch me fid s = Some (0, s1) \<and> switch you g s1 = Some (0, s2) \<and> regs s2 you = Some r \<and>
    runs s2 = (runs s)(me \<mapsto> fid, you \<mapsto> g) \<and> ctx s2 = ctx s \<and> ok s2"
proof -
  have ne: "fid \<noteq> g" using s(2) f(2) by (auto simp: ran_def)
  obtain c where c: "ctx s fid = Some c" using f(1) by blast
  obtain s1 where s1: "switch me fid s = Some (0, s1)" "ok s1" "runs s1 = (runs s)(me \<mapsto> fid)" "ctx s1 = ctx s"
    using switch_free [OF s(1) _ c f(2)] s(2) by auto
  obtain d where d: "ctx s g = Some d" "c_regs d = r" using runs_regs [OF s(1,2)] s(3) by auto
  have "g \<notin> ran (runs s1)" using left_free [OF s(1,2) ne] s1(3) by simp
  then show ?thesis
    using switch_free [OF s1(2), of you g d] s1 d other by auto
qed

end

section \<open>The library\<close>

text \<open>The process a program runs in: the platform, the numbers the library has read, and
  where the local variables of the library functions sit in a stack frame.\<close>

record cenv =
  e_api :: kapi
  e_major :: long
  e_lib :: fiberlib
  e_tgid :: pid_t
  e_args :: "ulong \<Rightarrow> ulong"
  e_cell :: "ulong \<Rightarrow> ulong"

type_synonym pstate = "uspace \<times> kstate"

definition task_of :: "cenv \<Rightarrow> pstate \<Rightarrow> pid_t \<Rightarrow> task option" where
  "task_of E S me = do { cur \<leftarrow> tasks (snd S) me; if task_tgid cur = e_tgid E then Some cur else None }"

definition p_regs :: "cenv \<Rightarrow> pstate \<Rightarrow> pid_t \<rightharpoonup> pt_regs" where
  "p_regs E S me = map_option user_regs (task_of E S me)"

definition p_runs :: "cenv \<Rightarrow> pstate \<Rightarrow> pid_t \<rightharpoonup> pid_t" where
  "p_runs E S = runs (e_api E) (e_tgid E) (snd S)"

definition p_ctx :: "cenv \<Rightarrow> pstate \<Rightarrow> pid_t \<rightharpoonup> fctx" where
  "p_ctx E S = ctx (e_api E) (e_tgid E) (snd S)"

definition p_exec :: "pid_t \<Rightarrow> (pt_regs \<Rightarrow> pt_regs) \<Rightarrow> pstate \<Rightarrow> pstate" where
  "p_exec me u S = (case tasks (snd S) me of None \<Rightarrow> S
     | Some cur \<Rightarrow> (fst S, set_task (snd S) me (cur\<lparr>user_regs := u (user_regs cur)\<rparr>)))"

definition user_ok :: "cenv \<Rightarrow> uspace \<Rightarrow> bool" where
  "user_ok E u \<longleftrightarrow> (\<forall>b. access_ok u (e_args E b) sizeof_fiber_arguments \<and> writable u (e_cell E b))"

definition p_ok :: "cenv \<Rightarrow> pstate \<Rightarrow> bool" where
  "p_ok E S \<longleftrightarrow> kapi_ok (e_api E) \<and> lib_ready (e_major E) (e_lib E) \<and> user_ok E (fst S) \<and>
     coro_ok (e_api E) (e_tgid E) (snd S)"

text \<open>The calls, made from the frame the thread is in.\<close>

definition frame_of :: "pstate \<Rightarrow> pid_t \<Rightarrow> ulong" where
  "frame_of S me = (case tasks (snd S) me of None \<Rightarrow> 0 | Some cur \<Rightarrow> bp (user_regs cur))"

definition p_convert :: "cenv \<Rightarrow> pid_t \<Rightarrow> pstate \<Rightarrow> (pid_t \<times> pstate) option" where
  "p_convert E me S = ConvertThreadToFiber (e_api E) (e_major E) (e_lib E) me (fst S) (snd S)"

definition p_create :: "cenv \<Rightarrow> ulong option \<Rightarrow> pid_t \<Rightarrow> ulong \<Rightarrow> ulong \<Rightarrow> ulong \<Rightarrow> pstate \<Rightarrow> (pid_t \<times> pstate) option" where
  "p_create E stk me func sz par S = CreateFiber (e_api E) (e_major E) (e_lib E) (\<lambda>_ _. stk) me
     (e_args E (frame_of S me)) func sz par (fst S) (snd S)"

definition p_switch :: "cenv \<Rightarrow> pid_t \<Rightarrow> pid_t \<Rightarrow> pstate \<Rightarrow> (long \<times> pstate) option" where
  "p_switch E me fid S = SwitchToFiber (e_api E) (e_major E) (e_lib E) me (e_args E (frame_of S me)) fid (fst S) (snd S)"

definition p_alloc :: "cenv \<Rightarrow> pid_t \<Rightarrow> pstate \<Rightarrow> (long \<times> pstate) option" where
  "p_alloc E me S = FlsAlloc (e_api E) (e_major E) (e_lib E) me (fst S) (snd S)"

definition p_free :: "cenv \<Rightarrow> pid_t \<Rightarrow> long \<Rightarrow> pstate \<Rightarrow> (bool \<times> pstate) option" where
  "p_free E me index S = FlsFree (e_api E) (e_major E) (e_lib E) me (e_args E (frame_of S me)) index (fst S) (snd S)"

definition p_set :: "cenv \<Rightarrow> pid_t \<Rightarrow> longlong \<Rightarrow> long \<Rightarrow> pstate \<Rightarrow> pstate option" where
  "p_set E me v index S = FlsSetValue (e_api E) (e_major E) (e_lib E) me (e_args E (frame_of S me)) v index (fst S) (snd S)"

definition p_get :: "cenv \<Rightarrow> pid_t \<Rightarrow> long \<Rightarrow> pstate \<Rightarrow> (longlong \<times> pstate) option" where
  "p_get E me index S = FlsGetValue (e_api E) (e_major E) (e_lib E) me (e_args E (frame_of S me)) (e_cell E (frame_of S me))
     index (fst S) (snd S)"

section \<open>The contract holds\<close>

lemma p_okD:
  assumes "p_ok E S"
  shows "kapi_ok (e_api E)" "lib_ready (e_major E) (e_lib E)" "user_ok E (fst S)" "coro_ok (e_api E) (e_tgid E) (snd S)"
  using assms by (simp_all add: p_ok_def)

lemma user_ok_put [simp]:
  "user_ok E (put_args x fa u) = user_ok E u" "user_ok E (u\<lparr>cells := m\<rparr>) = user_ok E u"
  by (simp_all add: user_ok_def put_args_def)

lemma p_regs_task: "p_regs E S me = Some r \<longleftrightarrow> (\<exists>cur. tasks (snd S) me = Some cur \<and> task_tgid cur = e_tgid E \<and> user_regs cur = r)"
  by (auto simp: p_regs_def task_of_def bind_eq_Some_conv split: if_splits)

lemma p_running:
  assumes ok: "p_ok E S" and r: "p_runs E S me = Some fid"
  obtains cur c where "tasks (snd S) me = Some cur" "task_tgid cur = e_tgid E" "p_ctx E S fid = Some c"
    "c_regs c = user_regs cur" "c_fx c = fx cur"
proof -
  obtain cur where cur: "tasks (snd S) me = Some cur" "task_tgid cur = e_tgid E"
    using coro_okD(3) [OF p_okD(4) [OF ok]] r by (auto simp: p_runs_def)
  then show ?thesis
    using that [OF cur] runs_ctx [OF p_okD(4) [OF ok] r [unfolded p_runs_def] cur(1)] by (auto simp: p_ctx_def)
qed

lemma p_pid: "p_ok E S \<Longrightarrow> tasks (snd S) me = Some cur \<Longrightarrow> task_pid cur = me"
  using coro_okD(2) [OF p_okD(4)] by (auto simp: pids_ok_def)

lemma lib_switch:
  assumes ok: "p_ok E S" and cur: "tasks (snd S) me = Some cur"
  shows "p_switch E me fid S = do_SwitchToFiber (e_api E) me fid me (snd S) \<bind>
    (\<lambda>(r, s'). Some (scast (libc_result r), put_args (e_args E (frame_of S me)) (no_args\<lparr>fa_fiber_id := fid\<rparr>) (fst S), s'))"
proof -
  have "get_arguments (e_args E (frame_of S me)) (put_args (e_args E (frame_of S me)) (no_args\<lparr>fa_fiber_id := fid\<rparr>) (fst S)) =
      Some (no_args\<lparr>fa_fiber_id := fid\<rparr>)"
    using p_okD(3) [OF ok] by (simp add: get_put_args user_ok_def)
  then show ?thesis
    using lib_ioctl(4) [OF p_okD(2) [OF ok] cur] p_pid [OF ok cur]
    by (simp add: p_switch_def SwitchToFiber_def split_def)
qed

lemma p_exec_task:
  assumes "p_ok E S" "p_regs E S me = Some r"
  obtains cur where "tasks (snd S) me = Some cur" "task_tgid cur = e_tgid E" "user_regs cur = r" "task_pid cur = me"
    "p_exec me u S = (fst S, set_task (snd S) me (cur\<lparr>user_regs := u r\<rparr>))"
  using assms p_pid [OF assms(1)] by (auto simp: p_regs_task p_exec_def)

lemma p_regs_set:
  "tasks (snd S') = (tasks (snd S))(me \<mapsto> cur) \<Longrightarrow> task_tgid cur = e_tgid E \<Longrightarrow> p_regs E S' = (p_regs E S)(me \<mapsto> user_regs cur)"
  by (simp add: p_regs_def task_of_def fun_eq_iff)

lemma p_regs_cong: "tasks (snd S') = tasks (snd S) \<Longrightarrow> p_regs E S' = p_regs E S"
  by (simp add: p_regs_def task_of_def fun_eq_iff)

lemma libc_simps [simp]: "scast (libc_result 0) = (0 :: long)" "scast (libc_result (-1)) = (-1 :: long)"
  by simp_all

interpretation lib: coroutines "p_ok E" "p_regs E" "p_runs E" "p_ctx E" p_exec "p_switch E" for E :: cenv
proof (unfold_locales, goal_cases)
  case (1 S me fid)
  then show ?case using p_running [OF 1] by (metis p_regs_task)
next
  case (2 S me fid other)
  then show ?case using runs_inj [OF p_okD(4) [OF 2(1)]] by (simp add: p_runs_def)
next
  case (3 S me fid c u)
  have r: "p_regs E S me = Some (c_regs c)" using p_running [OF 3(1,2)] 3(3) by (metis p_regs_task option.inject)
  obtain cur where cur: "tasks (snd S) me = Some cur" "task_tgid cur = e_tgid E" "user_regs cur = c_regs c" "task_pid cur = me"
      "p_exec me u S = (fst S, set_task (snd S) me (cur\<lparr>user_regs := u (c_regs c)\<rparr>))"
    by (rule p_exec_task [OF 3(1) r])
  have fx: "c_fx c = fx cur" using p_running [OF 3(1,2)] 3(3) cur(1) by (metis option.inject)
  have "c\<lparr>c_regs := u (c_regs c), c_fx := fx cur\<rparr> = c\<lparr>c_regs := u (c_regs c)\<rparr>" using fx by (cases c) simp
  moreover note ctx_run [OF p_okD(4) [OF 3(1)] cur(1) 3(2) [unfolded p_runs_def] _ _ 3(3) [unfolded p_ctx_def],
      of "cur\<lparr>user_regs := u (c_regs c)\<rparr>"]
  ultimately show ?case
    using p_okD [OF 3(1)] cur p_regs_set [of "p_exec me u S" S me "cur\<lparr>user_regs := u (c_regs c)\<rparr>" E]
    by (simp add: p_ok_def p_runs_def p_ctx_def) (simp add: set_task_def)
next
  case (4 S me r u)
  obtain cur where cur: "tasks (snd S) me = Some cur" "task_tgid cur = e_tgid E" "user_regs cur = r" "task_pid cur = me"
      "p_exec me u S = (fst S, set_task (snd S) me (cur\<lparr>user_regs := u r\<rparr>))"
    by (rule p_exec_task [OF 4(1,2)])
  show ?case
    using ctx_idle [OF p_okD(4) [OF 4(1)] 4(3) [unfolded p_runs_def], of "cur\<lparr>user_regs := u r\<rparr>"] p_okD [OF 4(1)] cur
      p_regs_set [of "p_exec me u S" S me "cur\<lparr>user_regs := u r\<rparr>" E]
    by (simp add: p_ok_def p_runs_def p_ctx_def) (simp add: set_task_def)
next
  case (5 S me fid c)
  obtain g where "p_runs E S me = Some g" using 5(2) by blast
  then obtain cur where cur: "tasks (snd S) me = Some cur" "task_tgid cur = e_tgid E" using p_running [OF 5(1)] by metis
  have can: "can_switch (e_api E) (e_tgid E) me fid (snd S)" using 5 by (simp add: can_switch_def p_runs_def p_ctx_def)
  from p_okD(4) [OF 5(1)] cur show ?case
  proof (cases rule: switch_coro [where fid = fid])
    case (moved s' c')
    then show ?thesis
      using lib_switch [OF 5(1) cur(1), of fid] p_okD [OF 5(1)] cur(2) 5(3)
        p_regs_set [of "(u, s')" S me "cur\<lparr>user_regs := c_regs c, fx := c_fx c\<rparr>" E for u]
      by (simp add: p_ok_def p_runs_def p_ctx_def)
  qed (use can in blast)
next
  case (6 S me fid)
  obtain cur where cur: "tasks (snd S) me = Some cur" "task_tgid cur = e_tgid E" using 6(2) by (auto simp: p_regs_task)
  have can: "\<not> can_switch (e_api E) (e_tgid E) me fid (snd S)" using 6(3) by (auto simp: can_switch_def p_runs_def p_ctx_def)
  from p_okD(4) [OF 6(1)] cur show ?case
  proof (cases rule: switch_coro [where fid = fid])
    case (refused s')
    then show ?thesis
      using lib_switch [OF 6(1) cur(1), of fid] p_okD [OF 6(1)] p_regs_cong [of "(u, s')" S E for u]
      by (simp add: p_ok_def p_runs_def p_ctx_def)
  qed (use can in blast)
qed

section \<open>Creating fibers and using their storage\<close>

text \<open>The rest of the interface: new contexts and the storage inside a context. \<open>room\<close>
  says that the process has numbers left for fibers.\<close>

locale fiber_library = coroutines ok regs runs ctx exec switch
  for ok :: "'s \<Rightarrow> bool"
    and regs :: "'s \<Rightarrow> pid_t \<rightharpoonup> pt_regs"
    and runs :: "'s \<Rightarrow> pid_t \<rightharpoonup> pid_t"
    and ctx :: "'s \<Rightarrow> pid_t \<rightharpoonup> fctx"
    and exec :: "pid_t \<Rightarrow> (pt_regs \<Rightarrow> pt_regs) \<Rightarrow> 's \<Rightarrow> 's"
    and switch :: "pid_t \<Rightarrow> pid_t \<Rightarrow> 's \<Rightarrow> (long \<times> 's) option" +
  fixes room :: "pid_t \<Rightarrow> 's \<Rightarrow> bool"
    and convert :: "pid_t \<Rightarrow> 's \<Rightarrow> (pid_t \<times> 's) option"
    and create :: "ulong option \<Rightarrow> pid_t \<Rightarrow> ulong \<Rightarrow> ulong \<Rightarrow> ulong \<Rightarrow> 's \<Rightarrow> (pid_t \<times> 's) option"
    and alloc :: "pid_t \<Rightarrow> 's \<Rightarrow> (long \<times> 's) option"
    and free :: "pid_t \<Rightarrow> long \<Rightarrow> 's \<Rightarrow> (bool \<times> 's) option"
    and getv :: "pid_t \<Rightarrow> long \<Rightarrow> 's \<Rightarrow> (longlong \<times> 's) option"
    and setv :: "pid_t \<Rightarrow> longlong \<Rightarrow> long \<Rightarrow> 's \<Rightarrow> 's option"
  assumes convert_new: "\<lbrakk>ok s; regs s me = Some r; runs s me = None; room me s; convert me s = Some (fid, s')\<rbrakk> \<Longrightarrow>
      ok s' \<and> runs s' = (runs s)(me \<mapsto> fid) \<and> regs s' = regs s \<and> fid = of_nat (Suc (card (dom (ctx s)))) \<and> ctx s fid = None \<and>
      (\<exists>c. ctx s' = (ctx s)(fid \<mapsto> c) \<and> c_regs c = r \<and> c_used c = (\<lambda>_. False))"
    and convert_refused: "\<lbrakk>ok s; runs s me \<noteq> None\<rbrakk> \<Longrightarrow> convert me s = Some (-1, s)"
    and create_new: "\<lbrakk>ok s; regs s me = Some r; runs s me \<noteq> None; room me s; create (Some stk) me func sz par s = Some (fid, s')\<rbrakk> \<Longrightarrow>
      ok s' \<and> runs s' = runs s \<and> regs s' = regs s \<and> fid = of_nat (Suc (card (dom (ctx s)))) \<and> ctx s fid = None \<and>
      (\<exists>c. ctx s' = (ctx s)(fid \<mapsto> c) \<and> c_used c = (\<lambda>_. False) \<and>
        c_regs c = r\<lparr>sp := stk + sz - 8, bp := stk + sz - 8, ip := func, di := par\<rparr>)"
    and create_refused: "\<lbrakk>ok s; regs s me \<noteq> None; ostk = None \<or> runs s me = None\<rbrakk> \<Longrightarrow>
      \<exists>s'. create ostk me func sz par s = Some (-1, s') \<and> ok s' \<and> runs s' = runs s \<and> regs s' = regs s \<and> ctx s' = ctx s"
    and alloc_slot: "\<lbrakk>ok s; runs s me = Some fid; ctx s fid = Some c; i < MAX_FLS_POINTERS; \<not> c_used c i; \<forall>j < i. c_used c j\<rbrakk> \<Longrightarrow>
      \<exists>s'. alloc me s = Some (of_nat i, s') \<and> ok s' \<and> runs s' = runs s \<and> regs s' = regs s \<and>
        ctx s' = (ctx s)(fid \<mapsto> c\<lparr>c_used := (c_used c)(i := True)\<rparr>)"
    and free_slot: "\<lbrakk>ok s; runs s me = Some fid; ctx s fid = Some c; i < MAX_FLS_POINTERS; c_used c i\<rbrakk> \<Longrightarrow>
      \<exists>s'. free me (of_nat i) s = Some (True, s') \<and> ok s' \<and> runs s' = runs s \<and> regs s' = regs s \<and>
        ctx s' = (ctx s)(fid \<mapsto> c\<lparr>c_used := (c_used c)(i := False)\<rparr>)"
    and get_slot: "\<lbrakk>ok s; runs s me = Some fid; ctx s fid = Some c; i < MAX_FLS_POINTERS; c_used c i\<rbrakk> \<Longrightarrow>
      \<exists>s'. getv me (of_nat i) s = Some (c_vals c i, s') \<and> ok s' \<and> runs s' = runs s \<and> regs s' = regs s \<and> ctx s' = ctx s"
    and set_slot: "\<lbrakk>ok s; runs s me = Some fid; ctx s fid = Some c; i < MAX_FLS_POINTERS; c_used c i\<rbrakk> \<Longrightarrow>
      \<exists>s'. setv me v (of_nat i) s = Some s' \<and> ok s' \<and> runs s' = runs s \<and> regs s' = regs s \<and>
        ctx s' = (ctx s)(fid \<mapsto> c\<lparr>c_vals := (c_vals c)(i := v)\<rparr>)"

lemma scast_sint: "sint (scast (r :: 32 word) :: 64 word) = sint r"
  by transfer (simp add: signed_take_bit_signed_take_bit)

lemma libc_fid: "0 \<le> sint r \<Longrightarrow> libc_result (scast (r :: 32 word)) = r"
  by (simp add: libc_result_def scast_sint ucast_scast_int)

lemma libc_index:
  assumes "i < MAX_FLS_POINTERS"
  shows "scast (libc_result (of_nat i)) = (of_nat i :: long)"
proof -
  have "sint (of_nat i :: long) = int i" "sint (of_nat i :: 32 word) = int i"
    using assms by (auto intro!: sint_of_nat_small simp: MAX_FLS_POINTERS_def)
  moreover have "(ucast (of_nat i :: long) :: 32 word) = of_nat i"
    by transfer (simp add: take_bit_of_nat)
  ultimately show ?thesis by (simp add: libc_result_def scast_eq)
qed

lemma libc_bool [simp]: "libc_result (of_bool b) = 0 \<longleftrightarrow> \<not> b"
  by (cases b) simp_all

text \<open>The calls of the library in terms of the operations of the module.\<close>

lemma args_in_frame:
  "user_ok E u \<Longrightarrow> get_arguments (e_args E b) (put_args (e_args E b) fa u) = Some fa"
  by (simp add: get_put_args user_ok_def)

lemma lib_calls:
  assumes ok: "p_ok E S" and cur: "tasks (snd S) me = Some cur"
  shows "p_convert E me S = do_ConvertThreadToFiber (e_api E) me me (snd S) \<bind>
      (\<lambda>(r, s'). Some (libc_result (scast r), fst S, s'))"
    "p_alloc E me S = do_FlsAlloc (e_api E) me me (snd S) \<bind> (\<lambda>(r, s'). Some (scast (libc_result r), fst S, s'))"
    "\<exists>u. p_create E (Some stk) me func sz par S = do_CreateFiber (e_api E) me stk sz func par me (snd S) \<bind>
      (\<lambda>(r, s'). Some (libc_result (scast r), u, s')) \<and> user_ok E u"
    "\<exists>u. p_free E me index S = do_FlsFree (e_api E) me index me (snd S) \<bind> (\<lambda>(b, s'). Some (b, u, s')) \<and> user_ok E u"
    "\<exists>u. p_set E me v index S = do_FlsSetValue (e_api E) me index v me (snd S) \<bind> (\<lambda>s'. Some (u, s')) \<and> user_ok E u"
    "\<exists>u. p_get E me index S = do_FlsGetValue (e_api E) me index me (snd S) \<bind> (\<lambda>x. Some (x, u x, snd S)) \<and> (\<forall>x. user_ok E (u x))"
proof -
  note uo = p_okD(3) [OF ok] and pid = p_pid [OF ok cur]
  note call = lib_ioctl [OF p_okD(2) [OF ok] cur]
  let ?at = "e_args E (frame_of S me)"
  show "p_convert E me S = do_ConvertThreadToFiber (e_api E) me me (snd S) \<bind>
      (\<lambda>(r, s'). Some (libc_result (scast r), fst S, s'))"
    by (simp add: p_convert_def ConvertThreadToFiber_def call(1) pid)
  show "p_alloc E me S = do_FlsAlloc (e_api E) me me (snd S) \<bind> (\<lambda>(r, s'). Some (scast (libc_result r), fst S, s'))"
    by (simp add: p_alloc_def FlsAlloc_def call(2) pid split_def)
  show "\<exists>u. p_create E (Some stk) me func sz par S = do_CreateFiber (e_api E) me stk sz func par me (snd S) \<bind>
      (\<lambda>(r, s'). Some (libc_result (scast r), u, s')) \<and> user_ok E u"
    using uo call(3) [OF args_in_frame [OF uo]] by (auto simp: p_create_def CreateFiber_def pid)
  show "\<exists>u. p_free E me index S = do_FlsFree (e_api E) me index me (snd S) \<bind> (\<lambda>(b, s'). Some (b, u, s')) \<and> user_ok E u"
    using uo call(5) [OF args_in_frame [OF uo]] by (intro exI [of _ "put_args ?at (no_args\<lparr>fa_index := index\<rparr>) (fst S)"])
      (auto simp: p_free_def FlsFree_def pid split_def intro!: bind_option_cong')
  show "\<exists>u. p_set E me v index S = do_FlsSetValue (e_api E) me index v me (snd S) \<bind> (\<lambda>s'. Some (u, s')) \<and> user_ok E u"
    using uo call(7) [OF args_in_frame [OF uo]] by (auto simp: p_set_def FlsSetValue_def pid)
  have w: "user_ok E ((fst S)\<lparr>cells := m\<rparr>)" "writable (put_args x y ((fst S)\<lparr>cells := m\<rparr>)) (e_cell E b)" for m x y b
    using uo by (simp_all add: user_ok_def put_args_def)
  show "\<exists>u. p_get E me index S = do_FlsGetValue (e_api E) me index me (snd S) \<bind> (\<lambda>x. Some (x, u x, snd S)) \<and> (\<forall>x. user_ok E (u x))"
    using call(6) [OF args_in_frame [OF w(1)]] w by (auto simp: p_get_def FlsGetValue_def pid)
qed

definition p_room :: "cenv \<Rightarrow> pid_t \<Rightarrow> pstate \<Rightarrow> bool" where
  "p_room E me S \<longleftrightarrow> ids_left (e_api E) me (snd S)"

lemma p_okI:
  "p_ok E S \<Longrightarrow> user_ok E u \<Longrightarrow> coro_ok (e_api E) (e_tgid E) s' \<Longrightarrow> p_ok E (u, s')"
  by (simp add: p_ok_def)

text \<open>The number of a fiber survives the way through \<open>ioctl\<close>.\<close>

lemma count_nonneg:
  assumes ok: "coro_ok K g s" and ids: "ids_left K me s" and cur: "tasks s me = Some cur" "task_tgid cur = g"
  shows "0 \<le> sint (of_nat (Suc (card (dom (ctx K g s)))) :: 32 word)"
proof -
  have "Suc (card (dom (ctx K g s))) < 2 ^ 31"
  proof (cases "proc_of K s g")
    case None
    then show ?thesis by (simp add: ctx_unregistered)
  next
    case (Some a)
    then obtain p where "live_process s a = Some p" using coro_okD(1) [OF ok] by (auto simp: proc_of_Some)
    then show ?thesis using ids cur Some ctx_count [OF ok Some] by (simp add: ids_left_def)
  qed
  then have "sint (of_nat (Suc (card (dom (ctx K g s)))) :: 32 word) = int (Suc (card (dom (ctx K g s))))"
    by (intro sint_of_nat_small) simp
  then show ?thesis by simp
qed

lemma storage_call:
  assumes ok: "p_ok E S" and r: "p_runs E S me = Some fid" and c: "p_ctx E S fid = Some c"
  obtains cur where "tasks (snd S) me = Some cur" "task_tgid cur = e_tgid E"
    "runs (e_api E) (e_tgid E) (snd S) me = Some fid" "ctx (e_api E) (e_tgid E) (snd S) fid = Some c"
  using p_running [OF ok r] c r unfolding p_runs_def p_ctx_def by metis

lemma lib_convert:
  assumes ok: "p_ok E S" and reg: "p_regs E S me = Some r" and run: "p_runs E S me = None" and room: "p_room E me S"
    and res: "p_convert E me S = Some (fid, S')"
  shows "p_ok E S' \<and> p_runs E S' = (p_runs E S)(me \<mapsto> fid) \<and> p_regs E S' = p_regs E S \<and>
    fid = of_nat (Suc (card (dom (p_ctx E S)))) \<and> p_ctx E S fid = None \<and>
    (\<exists>c. p_ctx E S' = (p_ctx E S)(fid \<mapsto> c) \<and> c_regs c = r \<and> c_used c = (\<lambda>_. False))"
proof -
  obtain cur where cur: "tasks (snd S) me = Some cur" "task_tgid cur = e_tgid E" "user_regs cur = r"
    using reg by (auto simp: p_regs_task)
  obtain q s' where q: "do_ConvertThreadToFiber (e_api E) me me (snd S) = Some (q, s')" "fid = libc_result (scast q)" "S' = (fst S, s')"
    using res lib_calls(1) [OF ok cur(1)] by (auto simp: bind_eq_Some_conv)
  note co = convert_coro [OF p_okD(4,1) [OF ok] room [unfolded p_room_def] cur(1,2) run [unfolded p_runs_def] q(1)]
  have "fid = q" using libc_fid count_nonneg [OF p_okD(4) [OF ok] room [unfolded p_room_def] cur(1,2)] q(2) co(4) by simp
  moreover have "p_regs E S' = p_regs E S" using co(3) q(3) by (intro p_regs_cong) simp
  ultimately show ?thesis
    using co q(3) p_okI [OF ok p_okD(3) [OF ok] co(1)] cur(3) unfolding p_runs_def p_ctx_def thread_ctx_def by fastforce
qed

lemma lib_create:
  assumes ok: "p_ok E S" and reg: "p_regs E S me = Some r" and run: "p_runs E S me \<noteq> None" and room: "p_room E me S"
    and res: "p_create E (Some stk) me func sz par S = Some (fid, S')"
  shows "p_ok E S' \<and> p_runs E S' = p_runs E S \<and> p_regs E S' = p_regs E S \<and>
    fid = of_nat (Suc (card (dom (p_ctx E S)))) \<and> p_ctx E S fid = None \<and>
    (\<exists>c. p_ctx E S' = (p_ctx E S)(fid \<mapsto> c) \<and> c_used c = (\<lambda>_. False) \<and>
      c_regs c = r\<lparr>sp := stk + sz - 8, bp := stk + sz - 8, ip := func, di := par\<rparr>)"
proof -
  obtain cur where cur: "tasks (snd S) me = Some cur" "task_tgid cur = e_tgid E" "user_regs cur = r"
    using reg by (auto simp: p_regs_task)
  obtain u where u: "p_create E (Some stk) me func sz par S = do_CreateFiber (e_api E) me stk sz func par me (snd S) \<bind>
      (\<lambda>(r, s'). Some (libc_result (scast r), u, s'))" "user_ok E u"
    using lib_calls(3) [OF ok cur(1), of stk func sz par] by blast
  obtain q s' where q: "do_CreateFiber (e_api E) me stk sz func par me (snd S) = Some (q, s')"
      "fid = libc_result (scast q)" "S' = (u, s')"
    using res u(1) by (auto simp: bind_eq_Some_conv)
  note co = create_coro [OF p_okD(4,1) [OF ok] room [unfolded p_room_def] cur(1,2) run [unfolded p_runs_def] q(1)]
  have "fid = q" using libc_fid count_nonneg [OF p_okD(4) [OF ok] room [unfolded p_room_def] cur(1,2)] q(2) co(4) by simp
  moreover have "p_regs E S' = p_regs E S" using co(3) q(3) by (intro p_regs_cong) simp
  ultimately show ?thesis
    using co q(3) p_okI [OF ok u(2) co(1)] cur(3) unfolding p_runs_def p_ctx_def start_ctx_def by fastforce
qed

interpretation lib: fiber_library "p_ok E" "p_regs E" "p_runs E" "p_ctx E" p_exec "p_switch E"
  "p_room E" "p_convert E" "p_create E" "p_alloc E" "p_free E" "p_get E" "p_set E" for E :: cenv
proof (unfold_locales, goal_cases)
  case (1 S me r fid S')
  then show ?case by (rule lib_convert)
next
  case (2 S me)
  then obtain fid where r: "p_runs E S me = Some fid" by blast
  obtain cur where "tasks (snd S) me = Some cur" "task_tgid cur = e_tgid E" using p_running [OF 2(1) r] by metis
  then show ?case
    using lib_calls(1) [OF 2(1)] convert_again [OF p_okD(4) [OF 2(1)]] r by (simp add: p_runs_def)
next
  case (3 S me r stk func sz par fid S')
  then show ?case by (rule lib_create)
next
  case (4 S me ostk func sz par)
  obtain cur where cur: "tasks (snd S) me = Some cur" "task_tgid cur = e_tgid E" using 4(2) by (auto simp: p_regs_task)
  show ?case
  proof (cases ostk)
    case None
    then show ?thesis using 4(1) by (simp add: p_create_def CreateFiber_def)
  next
    case (Some stk)
    then have r: "runs (e_api E) (e_tgid E) (snd S) me = None" using 4(3) by (simp add: p_runs_def)
    obtain u where "p_create E (Some stk) me func sz par S = Some (-1, u, snd S)" "user_ok E u"
      using lib_calls(3) [OF 4(1) cur(1), of stk func sz par] create_idle [OF p_okD(4) [OF 4(1)] cur r] by auto
    then show ?thesis
      using Some p_okI [OF 4(1) _ p_okD(4) [OF 4(1)]] p_regs_cong [of "(u, snd S)" S E]
      by (simp add: p_runs_def p_ctx_def)
  qed
next
  case (5 S me fid c i)
  obtain cur where cur: "tasks (snd S) me = Some cur" "task_tgid cur = e_tgid E"
      "runs (e_api E) (e_tgid E) (snd S) me = Some fid" "ctx (e_api E) (e_tgid E) (snd S) fid = Some c"
    by (rule storage_call [OF 5(1-3)])
  show ?case
    using fls_coro(1) [OF p_okD(4) [OF 5(1)] cur 5(4-6)] lib_calls(2) [OF 5(1) cur(1)] libc_index [OF 5(4)]
      p_okI [OF 5(1) p_okD(3) [OF 5(1)]] p_regs_cong [of "(u, s')" S E for u s']
    by (auto simp: p_runs_def p_ctx_def)
next
  case (6 S me fid c i)
  obtain cur where cur: "tasks (snd S) me = Some cur" "task_tgid cur = e_tgid E"
      "runs (e_api E) (e_tgid E) (snd S) me = Some fid" "ctx (e_api E) (e_tgid E) (snd S) fid = Some c"
    by (rule storage_call [OF 6(1-3)])
  show ?case
    using fls_coro(3) [OF p_okD(4) [OF 6(1)] cur, of "of_nat i"] index_of_nat [OF 6(4)] 6(5)
      lib_calls(4) [OF 6(1) cur(1), of "of_nat i"] p_okI [OF 6(1)] p_regs_cong [of "(u, s')" S E for u s']
    by (fastforce simp: p_runs_def p_ctx_def)
next
  case (7 S me fid c i)
  obtain cur where cur: "tasks (snd S) me = Some cur" "task_tgid cur = e_tgid E"
      "runs (e_api E) (e_tgid E) (snd S) me = Some fid" "ctx (e_api E) (e_tgid E) (snd S) fid = Some c"
    by (rule storage_call [OF 7(1-3)])
  show ?case
    using fls_coro(4) [OF p_okD(4) [OF 7(1)] cur, of "of_nat i"] index_of_nat [OF 7(4)] 7(5)
      lib_calls(6) [OF 7(1) cur(1), of "of_nat i"] p_okI [OF 7(1) _ p_okD(4) [OF 7(1)]] p_regs_cong [of "(u, s')" S E for u s']
    by (fastforce simp: p_runs_def p_ctx_def)
next
  case (8 S me fid c i v)
  obtain cur where cur: "tasks (snd S) me = Some cur" "task_tgid cur = e_tgid E"
      "runs (e_api E) (e_tgid E) (snd S) me = Some fid" "ctx (e_api E) (e_tgid E) (snd S) fid = Some c"
    by (rule storage_call [OF 8(1-3)])
  show ?case
    using fls_coro(5) [OF p_okD(4) [OF 8(1)] cur, of "of_nat i" v] index_of_nat [OF 8(4)] 8(5)
      lib_calls(5) [OF 8(1) cur(1), of v "of_nat i"] p_okI [OF 8(1)] p_regs_cong [of "(u, s')" S E for u s']
    by (fastforce simp: p_runs_def p_ctx_def)
qed

section \<open>Numbers and memory left\<close>

lemma p_room_count:
  assumes ok: "p_ok E S" and n: "Suc (card (dom (p_ctx E S))) < 2 ^ 31" and r: "p_regs E S me \<noteq> None"
  shows "p_room E me S"
  using assms ctx_count [OF p_okD(4) [OF ok]] by (auto simp: p_room_def ids_left_def p_ctx_def p_regs_task)

lemma lib_returns:
  assumes ok: "p_ok E S" and mem: "memory_left (e_api E) (snd S)" and r: "p_regs E S me \<noteq> None"
  shows "\<exists>fid S'. p_convert E me S = Some (fid, S')"
    and "\<exists>fid S'. p_create E (Some stk) me func sz par S = Some (fid, S')"
proof -
  obtain cur where cur: "tasks (snd S) me = Some cur" using r by (auto simp: p_regs_task)
  note kinv = coro_okD(1) [OF p_okD(4) [OF ok]]
  show "\<exists>fid S'. p_convert E me S = Some (fid, S')"
    using convert_returns [OF kinv p_okD(1) [OF ok] mem cur, of me] lib_calls(1) [OF ok cur] by auto
  show "\<exists>fid S'. p_create E (Some stk) me func sz par S = Some (fid, S')"
    using create_returns [OF kinv p_okD(1) [OF ok] mem cur, of stk sz func par me] lib_calls(3) [OF ok cur, of stk func sz par] by auto
qed

end
