(* ===== verification/Demo_Multithread.thy ===== *)
theory Demo_Multithread
  imports Coroutine_Library
begin

text \<open>
  The demonstration program \<^verbatim>\<open>fiberlib/multithread.c\<close>: nine threads, each with a fiber
  that uses its local storage over and over, and a signal handler that tries to take
  over fiber 10 wherever it is delivered.

  A thread is at a program point, which is what its instruction pointer holds; the
  local variables of a function call are found by the base pointer. A step runs
  from one point to the next, with at most one call of the library at the end, made
  with the instruction pointer already at the return address; the result of a call is
  left in \<open>rax\<close> for the code behind it. The addresses of the points and of the structures
  in a frame are parameters. Every \<open>printf\<close> appends to the output, together with the frame
  it was made from.
\<close>

section \<open>Programs and states\<close>

datatype mt_point =
    MainEntry | MainConverted | MainLoop | MainJoin
  | ThreadEntry | ThreadConverted | ThreadCreated | ThreadAgain | ThreadBack
  | FooEntry | FooAgain | FooBack | FooAllocated | FooSet | FooGot | FooFreed
  | AlarmEntry | AlarmBack

definition mt_points :: "mt_point list" where
  "mt_points = [MainEntry, MainConverted, MainLoop, MainJoin, ThreadEntry, ThreadConverted, ThreadCreated, ThreadAgain,
     ThreadBack, FooEntry, FooAgain, FooBack, FooAllocated, FooSet, FooGot, FooFreed, AlarmEntry, AlarmBack]"

record thread_info =
  ti_data :: ulong
  ti_data2 :: ulong

text \<open>The local variables of a call, whichever function it is of, and the contexts
  (instruction pointer and result register) that signals have interrupted in it.\<close>

record mt_frame =
  v_t :: ulong
  v_counter :: long
  v_index :: long
  v_res :: longlong
  v_new_fiber :: pid_t
  v_i :: ulong
  v_saved :: "(ulong \<times> long) list"

definition blank :: mt_frame where
  "blank = \<lparr>v_t = 0, v_counter = 0, v_index = 0, v_res = 0, v_new_fiber = 0, v_i = 0, v_saved = []\<rparr>"

datatype mt_line =
    Main_starting | Main_converted int
  | Thread_starting int | Thread_converted int int | Thread_created int int | Thread_again int
  | Fiber_old_thread int int | Fiber_index int int | Fiber_freeing int int | Fiber_cannot_free int int
  | Fiber_returned int int
  | Alarm_trying | Alarm_cannot

record menv =
  m_env :: cenv
  code_at :: "mt_point \<Rightarrow> ulong"
  info_at :: "ulong \<Rightarrow> nat \<Rightarrow> ulong"

record mt =
  frames :: "ulong \<rightharpoonup> mt_frame"
  infos :: "ulong \<Rightarrow> thread_info"
  rax :: "pid_t \<Rightarrow> long"
  out :: "(ulong \<times> mt_line) list"
  armed :: bool
  exited :: bool
  proc :: pstate

text \<open>What the C library decides in a step: the stack \<open>posix_memalign\<close> returns, the number and
  the stack of a thread that \<open>pthread_create\<close> makes.\<close>

datatype mt_choice = NoChoice | Stack "ulong option" | Thread pid_t ulong

section \<open>Elementary actions\<close>

definition printf :: "ulong \<Rightarrow> mt_line \<Rightarrow> mt \<Rightarrow> mt" where
  "printf b l st = st\<lparr>out := out st @ [(b, l)]\<rparr>"

definition put_frame :: "ulong \<Rightarrow> mt_frame \<Rightarrow> mt \<Rightarrow> mt" where
  "put_frame b fr st = st\<lparr>frames := (frames st)(b \<mapsto> fr)\<rparr>"

definition put_info :: "ulong \<Rightarrow> thread_info \<Rightarrow> mt \<Rightarrow> mt" where
  "put_info a x st = st\<lparr>infos := (infos st)(a := x)\<rparr>"

definition jump :: "menv \<Rightarrow> pid_t \<Rightarrow> mt_point \<Rightarrow> mt \<Rightarrow> mt" where
  "jump M me p st = st\<lparr>proc := p_exec me (\<lambda>r. r\<lparr>ip := code_at M p\<rparr>) (proc st)\<rparr>"

definition returns :: "pid_t \<Rightarrow> long \<times> pstate \<Rightarrow> mt \<Rightarrow> mt" where
  "returns me = (\<lambda>(r, S) st. st\<lparr>rax := (rax st)(me := r), proc := S\<rparr>)"

definition int_of :: "ulong \<Rightarrow> int" where
  "int_of w = sint (ucast w :: 32 word)"

section \<open>The functions of the program\<close>

definition foo :: "menv \<Rightarrow> pid_t \<Rightarrow> ulong \<Rightarrow> ulong \<Rightarrow> mt_frame \<Rightarrow> mt_point \<Rightarrow> mt \<Rightarrow> mt option" where
  "foo M me param b fr pt st = (
     let E = m_env M; t = infos st (v_t fr); d = int_of (ti_data t); d2 = int_of (ti_data2 t) in
     case pt of
       FooEntry \<Rightarrow> Some (jump M me FooAgain (put_frame b (fr\<lparr>v_t := param, v_counter := 0\<rparr>) st))
     | FooAgain \<Rightarrow> do {
         let st = jump M me FooBack (printf b (Fiber_old_thread d2 d) st);
         r \<leftarrow> p_switch E me (ucast (ti_data t)) (proc st);
         Some (returns me r st) }
     | FooBack \<Rightarrow> do {
         let st = jump M me FooAllocated st;
         r \<leftarrow> p_alloc E me (proc st);
         Some (returns me r st) }
     | FooAllocated \<Rightarrow> do {
         let index = rax st me;
         let st = printf b (Fiber_index d2 (sint index)) st;
         if index = -1 then Some (st\<lparr>exited := True\<rparr>)
         else do {
           let st = jump M me FooSet (put_frame b (fr\<lparr>v_index := index, v_counter := v_counter fr + 1\<rparr>) st);
           S \<leftarrow> p_set E me (v_counter fr) index (proc st);
           Some (returns me (0, S) st) } }
     | FooSet \<Rightarrow> do {
         let st = jump M me FooGot st;
         r \<leftarrow> p_get E me (v_index fr) (proc st);
         Some (returns me r st) }
     | FooGot \<Rightarrow> do {
         let st = jump M me FooFreed (printf b (Fiber_freeing d2 (sint (v_index fr)))
           (put_frame b (fr\<lparr>v_res := rax st me\<rparr>) st));
         (r, S) \<leftarrow> p_free E me (v_index fr) (proc st);
         Some (returns me (of_bool r, S) st) }
     | FooFreed \<Rightarrow> do {
         let st = (if rax st me = 0 then printf b (Fiber_cannot_free d2 (sint (v_index fr))) st else st);
         Some (jump M me FooAgain (printf b (Fiber_returned d2 (sint (v_res fr))) st)) }
     | _ \<Rightarrow> None)"

definition thread_function :: "menv \<Rightarrow> mt_choice \<Rightarrow> pid_t \<Rightarrow> ulong \<Rightarrow> ulong \<Rightarrow> mt_frame \<Rightarrow> mt_point \<Rightarrow> mt \<Rightarrow> mt option" where
  "thread_function M ch me param b fr pt st = (
     let E = m_env M; d = sint (ti_data (infos st (v_t fr))); a = info_at M b 0 in
     case pt of
       ThreadEntry \<Rightarrow> do {
         let st = jump M me ThreadConverted (printf b (Thread_starting (sint (ti_data (infos st param))))
           (put_frame b (fr\<lparr>v_t := param\<rparr>) st));
         (r, S) \<leftarrow> p_convert E me (proc st);
         Some (returns me (scast r, S) st) }
     | ThreadConverted \<Rightarrow> (case ch of
         Stack stk \<Rightarrow>
           if (case stk of None \<Rightarrow> False | Some x \<Rightarrow> frames st (x + 8192 - 8) \<noteq> None) then None
           else do {
             let k = rax st me;
             let st = put_info a \<lparr>ti_data = k, ti_data2 = 0\<rparr> (printf b (Thread_converted d (int_of k)) st);
             let st = jump M me ThreadCreated st;
             let st = (case stk of None \<Rightarrow> st | Some x \<Rightarrow> put_frame (x + 8192 - 8) blank st);
             (r, S) \<leftarrow> p_create E stk me (code_at M FooEntry) 8192 a (proc st);
             Some (returns me (scast r, S) st) }
       | _ \<Rightarrow> None)
     | ThreadCreated \<Rightarrow> do {
         let n = rax st me;
         let st = put_frame b (fr\<lparr>v_new_fiber := ucast n\<rparr>) (put_info a ((infos st a)\<lparr>ti_data2 := n\<rparr>) st);
         Some (jump M me ThreadAgain (printf b (Thread_created d (int_of n)) st)) }
     | ThreadAgain \<Rightarrow> do {
         let st = jump M me ThreadBack st;
         r \<leftarrow> p_switch E me (v_new_fiber fr) (proc st);
         Some (returns me r st) }
     | ThreadBack \<Rightarrow> Some (jump M me ThreadAgain (printf b (Thread_again d) st))
     | _ \<Rightarrow> None)"

definition NUM_THREADS :: nat where
  "NUM_THREADS = 9"

text \<open>\<open>pthread_create\<close>: a new task of the process on a stack of its own.\<close>

definition pthread_create :: "menv \<Rightarrow> pid_t \<Rightarrow> ulong \<Rightarrow> pid_t \<Rightarrow> ulong \<Rightarrow> mt \<Rightarrow> mt option" where
  "pthread_create M me arg pid base st = do {
     cur \<leftarrow> tasks (snd (proc st)) me;
     if tasks (snd (proc st)) pid \<noteq> None \<or> frames st base \<noteq> None then None
     else do {
       let t = cur\<lparr>task_pid := pid, utime := 0, user_regs := (user_regs cur)
         \<lparr>sp := base, bp := base, ip := code_at M ThreadEntry, di := arg\<rparr>\<rparr>;
       Some (put_frame base blank (st\<lparr>proc := (fst (proc st), set_task (snd (proc st)) pid t)\<rparr>)) } }"

definition mt_main :: "menv \<Rightarrow> mt_choice \<Rightarrow> pid_t \<Rightarrow> ulong \<Rightarrow> mt_frame \<Rightarrow> mt_point \<Rightarrow> mt \<Rightarrow> mt option" where
  "mt_main M ch me b fr pt st = (case pt of
       MainEntry \<Rightarrow> do {
         let st = jump M me MainConverted (printf b Main_starting st);
         (r, S) \<leftarrow> p_convert (m_env M) me (proc st);
         Some (returns me (scast r, S) st) }
     | MainConverted \<Rightarrow>
         Some (jump M me MainLoop (put_frame b (fr\<lparr>v_i := 0\<rparr>) (printf b (Main_converted (int_of (rax st me))) st)))
     | MainLoop \<Rightarrow>
         if unat (v_i fr) < NUM_THREADS then (case ch of
             Thread pid base \<Rightarrow> do {
               let a = info_at M b (unat (v_i fr));
               let st = put_info a ((infos st a)\<lparr>ti_data := v_i fr\<rparr>) st;
               pthread_create M me a pid base (put_frame b (fr\<lparr>v_i := v_i fr + 1\<rparr>) st) }
           | _ \<Rightarrow> None)
         else Some (jump M me MainJoin (st\<lparr>armed := True\<rparr>))
     | _ \<Rightarrow> None)"

definition alarm_handler :: "menv \<Rightarrow> pid_t \<Rightarrow> ulong \<Rightarrow> mt_frame \<Rightarrow> mt_point \<Rightarrow> mt \<Rightarrow> mt option" where
  "alarm_handler M me b fr pt st = (case pt of
       AlarmEntry \<Rightarrow> do {
         let st = jump M me AlarmBack (printf b Alarm_trying (st\<lparr>armed := True\<rparr>));
         r \<leftarrow> p_switch (m_env M) me 10 (proc st);
         Some (returns me r st) }
     | AlarmBack \<Rightarrow> do {
         let st = (if rax st me = -1 then printf b Alarm_cannot st else st);
         (case v_saved fr of [] \<Rightarrow> None
          | (i, ra) # saved \<Rightarrow> Some ((put_frame b (fr\<lparr>v_saved := saved\<rparr>) st)
              \<lparr>rax := (rax st)(me := ra), proc := p_exec me (\<lambda>r. r\<lparr>ip := i\<rparr>) (proc st)\<rparr>)) }
     | _ \<Rightarrow> None)"

section \<open>Execution\<close>

definition point_at :: "menv \<Rightarrow> ulong \<Rightarrow> mt_point option" where
  "point_at M i = find (\<lambda>p. code_at M p = i) mt_points"

text \<open>A step of the thread \<open>me\<close>.\<close>

definition mt_step :: "menv \<Rightarrow> mt_choice \<Rightarrow> pid_t \<Rightarrow> mt \<Rightarrow> mt option" where
  "mt_step M ch me st = (if exited st then None else do {
     r \<leftarrow> p_regs (m_env M) (proc st) me;
     fr \<leftarrow> frames st (bp r);
     pt \<leftarrow> point_at M (ip r);
     if pt \<in> {MainEntry, MainConverted, MainLoop, MainJoin} then mt_main M ch me (bp r) fr pt st
     else if pt \<in> {ThreadEntry, ThreadConverted, ThreadCreated, ThreadAgain, ThreadBack}
       then thread_function M ch me (di r) (bp r) fr pt st
     else if pt \<in> {AlarmEntry, AlarmBack} then alarm_handler M me (bp r) fr pt st
     else foo M me (di r) (bp r) fr pt st })"

text \<open>The delivery of a pending \<open>SIGALRM\<close> to a thread: the handler runs on the same stack and
  the interrupted context is kept in the signal frame.\<close>

definition deliver :: "menv \<Rightarrow> pid_t \<Rightarrow> mt \<Rightarrow> mt option" where
  "deliver M me st = (if exited st \<or> \<not> armed st then None else do {
     r \<leftarrow> p_regs (m_env M) (proc st) me;
     fr \<leftarrow> frames st (bp r);
     Some (jump M me AlarmEntry (put_frame (bp r) (fr\<lparr>v_saved := (ip r, rax st me) # v_saved fr\<rparr>) (st\<lparr>armed := False\<rparr>))) })"

inductive mt_next :: "menv \<Rightarrow> mt \<Rightarrow> mt \<Rightarrow> bool" for M :: menv where
  run: "p_room (m_env M) me (proc st) \<Longrightarrow> mt_step M ch me st = Some st' \<Longrightarrow> mt_next M st st'"
| signal: "deliver M me st = Some st' \<Longrightarrow> mt_next M st st'"

text \<open>The start: one thread, at the entry of \<open>main\<close>.\<close>

definition mt_initial :: "menv \<Rightarrow> mt \<Rightarrow> bool" where
  "mt_initial M st \<longleftrightarrow> p_ok (m_env M) (proc st) \<and> inj (code_at M) \<and> \<not> exited st \<and> out st = [] \<and>
     p_runs (m_env M) (proc st) = Map.empty \<and> p_ctx (m_env M) (proc st) = Map.empty \<and>
     (\<exists>me r. p_regs (m_env M) (proc st) = [me \<mapsto> r] \<and> ip r = code_at M MainEntry \<and> frames st = [bp r \<mapsto> blank])"

end
