(* ===== verification/Demo_Safety.thy ===== *)
theory Demo_Safety
  imports Demo_Multithread
begin

text \<open>
  The invariant of \<open>Demo_Multithread\<close>. It is stated per context, whichever thread
  executes it: where the fiber is in its function determines what its local storage
  and its local variables hold. Threads that are not converted have a context of
  their own.
\<close>

section \<open>Contexts of the program\<close>

text \<open>Registers, storage and the values the result register may have: that of the thread
  that runs the context, anything when nobody runs it.\<close>

type_synonym mctx = "pt_regs \<times> (nat \<Rightarrow> bool) \<times> (nat \<Rightarrow> longlong) \<times> long set"

definition rax_of :: "cenv \<Rightarrow> pstate \<Rightarrow> (pid_t \<Rightarrow> long) \<Rightarrow> pid_t \<Rightarrow> long set" where
  "rax_of E S rx fid = {ra. \<forall>tid. p_runs E S tid = Some fid \<longrightarrow> ra = rx tid}"

definition cx :: "cenv \<Rightarrow> pstate \<Rightarrow> (pid_t \<Rightarrow> long) \<Rightarrow> pid_t + pid_t \<rightharpoonup> mctx" where
  "cx E S rx i = (case i of
       Inl tid \<Rightarrow> if p_runs E S tid = None then map_option (\<lambda>r. (r, \<lambda>_. False, \<lambda>_. 0, {rx tid})) (p_regs E S tid) else None
     | Inr fid \<Rightarrow> map_option (\<lambda>c. (c_regs c, c_used c, c_vals c, rax_of E S rx fid)) (p_ctx E S fid))"

definition my :: "cenv \<Rightarrow> pstate \<Rightarrow> pid_t \<Rightarrow> pid_t + pid_t" where
  "my E S me = (case p_runs E S me of None \<Rightarrow> Inl me | Some fid \<Rightarrow> Inr fid)"

lemma cx_simps:
  "cx E S rx (Inl tid) = (if p_runs E S tid = None then map_option (\<lambda>r. (r, \<lambda>_. False, \<lambda>_. 0, {rx tid})) (p_regs E S tid) else None)"
  "cx E S rx (Inr fid) = map_option (\<lambda>c. (c_regs c, c_used c, c_vals c, rax_of E S rx fid)) (p_ctx E S fid)"
  by (simp_all add: cx_def)

lemma rax_of_cong:
  assumes "\<And>tid. p_runs E S' tid = Some f \<longleftrightarrow> p_runs E S tid = Some f" "\<And>tid. p_runs E S tid = Some f \<Longrightarrow> rx' tid = rx tid"
  shows "rax_of E S' rx' f = rax_of E S rx f"
  unfolding rax_of_def using assms by metis

lemma rax_of_running: "p_ok E S \<Longrightarrow> p_runs E S me = Some fid \<Longrightarrow> rax_of E S rx fid = {rx me}"
  unfolding rax_of_def using lib.runs_once [of E S me fid] by blast

lemma my_ctx:
  assumes ok: "p_ok E S" and r: "p_regs E S me = Some r"
  obtains u v where "cx E S rx (my E S me) = Some (r, u, v, {rx me})" "isl (my E S me) \<Longrightarrow> u = (\<lambda>_. False)"
    "p_runs E S me = Some fid \<Longrightarrow> \<exists>c. p_ctx E S fid = Some c \<and> c_regs c = r \<and> c_used c = u \<and> c_vals c = v"
proof (cases "p_runs E S me")
  case None
  then show ?thesis using that r by (simp add: my_def cx_simps)
next
  case (Some f)
  then obtain c where "p_ctx E S f = Some c" "c_regs c = r" using lib.runs_regs [OF ok Some] r by auto
  then show ?thesis using that [of "c_used c" "c_vals c"] rax_of_running [OF ok Some] Some by (auto simp: my_def cx_simps)
qed

section \<open>What the calls do to the contexts\<close>

lemma map_ext_sum: "(\<And>x. f (Inl x) = g (Inl x)) \<Longrightarrow> (\<And>y. f (Inr y) = g (Inr y)) \<Longrightarrow> f = g"
  by (metis ext sumE)

lemma cx_exec:
  assumes ok: "p_ok E S" and r: "p_regs E S me = Some r" and x: "cx E S rx (my E S me) = Some (r, u, v, R)"
  shows "p_ok E (p_exec me f S)" "cx E (p_exec me f S) rx = (cx E S rx)(my E S me \<mapsto> (f r, u, v, R))"
    "p_runs E (p_exec me f S) = p_runs E S" "p_regs E (p_exec me f S) = (p_regs E S)(me \<mapsto> f r)"
proof -
  have "p_ok E (p_exec me f S) \<and> cx E (p_exec me f S) rx = (cx E S rx)(my E S me \<mapsto> (f r, u, v, R)) \<and>
      p_runs E (p_exec me f S) = p_runs E S \<and> p_regs E (p_exec me f S) = (p_regs E S)(me \<mapsto> f r)"
  proof (cases "p_runs E S me")
    case None
    note e = lib.exec_idle [OF ok r None, of f]
    have "cx E (p_exec me f S) rx = (cx E S rx)(my E S me \<mapsto> (f r, u, v, R))"
      using e None x r by (intro map_ext_sum) (auto simp: cx_simps my_def rax_of_def)
    then show ?thesis using e by blast
  next
    case (Some fid)
    then obtain c where c: "p_ctx E S fid = Some c" "c_regs c = r" using lib.runs_regs [OF ok Some] r by auto
    note e = lib.exec_run [OF ok Some c(1), of f]
    have "cx E (p_exec me f S) rx = (cx E S rx)(my E S me \<mapsto> (f r, u, v, R))"
      using e Some x c by (intro map_ext_sum) (auto simp: cx_simps my_def rax_of_def)
    then show ?thesis using e c(2) by simp
  qed
  then show "p_ok E (p_exec me f S)" "cx E (p_exec me f S) rx = (cx E S rx)(my E S me \<mapsto> (f r, u, v, R))"
    "p_runs E (p_exec me f S) = p_runs E S" "p_regs E (p_exec me f S) = (p_regs E S)(me \<mapsto> f r)"
    by blast+
qed

lemma cx_rax:
  assumes ok: "p_ok E S" and r: "p_regs E S me = Some r" and x: "cx E S rx (my E S me) = Some (r, u, v, R)"
  shows "cx E S (rx(me := a)) = (cx E S rx)(my E S me \<mapsto> (r, u, v, {a}))"
proof (rule map_ext_sum)
  show "cx E S (rx(me := a)) (Inl t) = ((cx E S rx)(my E S me \<mapsto> (r, u, v, {a}))) (Inl t)" for t
    using x r by (cases "p_runs E S me") (auto simp: cx_simps my_def)
  show "cx E S (rx(me := a)) (Inr f) = ((cx E S rx)(my E S me \<mapsto> (r, u, v, {a}))) (Inr f)" for f
  proof (cases "p_runs E S me = Some f")
    case True
    then show ?thesis using x rax_of_running [OF ok True] by (auto simp: cx_simps my_def)
  next
    case False
    then have "rax_of E S (rx(me := a)) f = rax_of E S rx f" by (auto simp: rax_of_def)
    then show ?thesis using False by (cases "p_runs E S me") (auto simp: cx_simps my_def)
  qed
qed

lemma cx_storage:
  assumes ok: "p_ok E S" and run: "p_runs E S me = Some fid" and c: "p_ctx E S fid = Some c" "c_regs c' = c_regs c"
    and S': "p_runs E S' = p_runs E S" "p_regs E S' = p_regs E S" "p_ctx E S' = (p_ctx E S)(fid \<mapsto> c')"
  shows "cx E S' (rx(me := a)) = (cx E S rx)(my E S me \<mapsto> (c_regs c, c_used c', c_vals c', {a}))"
proof (rule map_ext_sum)
  show "cx E S' (rx(me := a)) (Inl t) = ((cx E S rx)(my E S me \<mapsto> (c_regs c, c_used c', c_vals c', {a}))) (Inl t)" for t
    using run S' by (auto simp: cx_simps my_def)
  have "p_runs E S tid = Some fid \<longleftrightarrow> tid = me" for tid using run lib.runs_once [OF ok run] by blast
  then have "rax_of E S' (rx(me := a)) fid = {a}" by (simp add: rax_of_def S'(1))
  moreover have "rax_of E S' (rx(me := a)) f = rax_of E S rx f" if "f \<noteq> fid" for f
    using that run by (intro rax_of_cong) (auto simp: S'(1))
  ultimately have rx: "rax_of E S' (rx(me := a)) f = (if f = fid then {a} else rax_of E S rx f)" for f by simp
  show "cx E S' (rx(me := a)) (Inr f) = ((cx E S rx)(my E S me \<mapsto> (c_regs c, c_used c', c_vals c', {a}))) (Inr f)" for f
    using run c S'(3) by (simp add: cx_simps my_def rx)
qed

lemma cx_convert:
  assumes ok: "p_ok E S" and r: "p_regs E S me = Some r" and run: "p_runs E S me = None" and room: "p_room E me S"
    and res: "p_convert E me S = Some (fid, S')"
  shows "p_ok E S'" "\<exists>v. cx E S' (rx(me := a)) = (cx E S rx)(Inl me := None, Inr fid \<mapsto> (r, \<lambda>_. False, v, {a}))"
    "cx E S rx (Inr fid) = None"
proof -
  have co: "p_ok E S'" "p_runs E S' = (p_runs E S)(me \<mapsto> fid)" "p_regs E S' = p_regs E S" "p_ctx E S fid = None"
    using lib.convert_new [OF ok r run room res] by blast+
  obtain c where c: "p_ctx E S' = (p_ctx E S)(fid \<mapsto> c)" "c_regs c = r" "c_used c = (\<lambda>_. False)"
    using lib.convert_new [OF ok r run room res] by blast
  show "p_ok E S'" "cx E S rx (Inr fid) = None" using co by (simp_all add: cx_simps)
  have un: "p_runs E S t \<noteq> Some fid" for t using co lib.runs_regs [OF ok, of t fid] by auto
  have "cx E S' (rx(me := a)) = (cx E S rx)(Inl me := None, Inr fid \<mapsto> (r, \<lambda>_. False, c_vals c, {a}))"
  proof (rule map_ext_sum)
    show "cx E S' (rx(me := a)) (Inl t) = ((cx E S rx)(Inl me := None, Inr fid \<mapsto> (r, \<lambda>_. False, c_vals c, {a}))) (Inl t)" for t
      using co by (simp add: cx_simps)
    have "rax_of E S' (rx(me := a)) fid = {a}" using un by (auto simp: rax_of_def co(2))
    moreover have "rax_of E S' (rx(me := a)) f = rax_of E S rx f" if "f \<noteq> fid" for f
      using that run by (intro rax_of_cong) (auto simp: co(2))
    ultimately have "rax_of E S' (rx(me := a)) f = (if f = fid then {a} else rax_of E S rx f)" for f by simp
    then show "cx E S' (rx(me := a)) (Inr f) = ((cx E S rx)(Inl me := None, Inr fid \<mapsto> (r, \<lambda>_. False, c_vals c, {a}))) (Inr f)" for f
      using c by (simp add: cx_simps)
  qed
  then show "\<exists>v. cx E S' (rx(me := a)) = (cx E S rx)(Inl me := None, Inr fid \<mapsto> (r, \<lambda>_. False, v, {a}))" by blast
qed

lemma cx_create:
  assumes ok: "p_ok E S" and r: "p_regs E S me = Some r" and run: "p_runs E S me \<noteq> None" and room: "p_room E me S"
    and res: "p_create E (Some stk) me func sz par S = Some (fid, S')"
  shows "p_ok E S'" "p_regs E S' = p_regs E S" "my E S' me = my E S me" "cx E S rx (Inr fid) = None"
    "\<exists>v. cx E S' rx = (cx E S rx)(Inr fid \<mapsto> (r\<lparr>sp := stk + sz - 8, bp := stk + sz - 8, ip := func, di := par\<rparr>, \<lambda>_. False, v, UNIV))"
proof -
  have co: "p_ok E S'" "p_runs E S' = p_runs E S" "p_regs E S' = p_regs E S" "p_ctx E S fid = None"
    using lib.create_new [OF ok r run room res] by blast+
  obtain c where c: "p_ctx E S' = (p_ctx E S)(fid \<mapsto> c)" "c_used c = (\<lambda>_. False)"
      "c_regs c = r\<lparr>sp := stk + sz - 8, bp := stk + sz - 8, ip := func, di := par\<rparr>"
    using lib.create_new [OF ok r run room res] by blast
  show "p_ok E S'" "p_regs E S' = p_regs E S" "my E S' me = my E S me" "cx E S rx (Inr fid) = None"
    using co by (simp_all add: cx_simps my_def)
  have un: "p_runs E S t \<noteq> Some fid" for t using co lib.runs_regs [OF ok, of t fid] by auto
  have "rax_of E S' rx f = (if f = fid then UNIV else rax_of E S rx f)" for f using co un by (auto simp: rax_of_def)
  then have "cx E S' rx = (cx E S rx)(Inr fid \<mapsto> (c_regs c, \<lambda>_. False, c_vals c, UNIV))"
    using c co by (intro map_ext_sum) (simp_all add: cx_simps)
  then show "\<exists>v. cx E S' rx = (cx E S rx)(Inr fid \<mapsto> (r\<lparr>sp := stk + sz - 8, bp := stk + sz - 8, ip := func, di := par\<rparr>, \<lambda>_. False, v, UNIV))"
    using c(3) by metis
qed

text \<open>A switch at most forgets what the result register of the contexts holds.\<close>

definition weaker :: "('i \<rightharpoonup> mctx) \<Rightarrow> ('i \<rightharpoonup> mctx) \<Rightarrow> bool" where
  "weaker C' C \<longleftrightarrow> (\<forall>i r u v R'. C' i = Some (r, u, v, R') \<longrightarrow> (\<exists>R. C i = Some (r, u, v, R) \<and> R' \<subseteq> R))"

lemma cx_cong:
  assumes "p_runs E S' = p_runs E S" "p_regs E S' = p_regs E S" "p_ctx E S' = p_ctx E S"
  shows "cx E S' rx = cx E S rx"
  using assms by (intro map_ext_sum) (simp_all add: cx_simps rax_of_def)

lemma cx_switch:
  assumes ok: "p_ok E S" and r: "p_regs E S me = Some r" and x: "cx E S rx (my E S me) = Some (r, u, v, R)"
    and res: "p_switch E me fid S = Some (a, S')"
  shows "p_ok E S'" "weaker (cx E S' (rx(me := a))) ((cx E S rx)(my E S me \<mapsto> (r, u, v, UNIV)))"
proof -
  let ?C = "(cx E S rx)(my E S me \<mapsto> (r, u, v, UNIV))"
  have "p_ok E S' \<and> weaker (cx E S' (rx(me := a))) ?C"
  proof (cases "p_runs E S me \<noteq> None \<and> p_ctx E S fid \<noteq> None \<and> fid \<notin> ran (p_runs E S)")
    case True
    then obtain c g where c: "p_ctx E S fid = Some c" and g: "p_runs E S me = Some g" by blast
    have S': "p_ok E S'" "p_runs E S' = (p_runs E S)(me \<mapsto> fid)" "p_ctx E S' = p_ctx E S" "p_regs E S' = (p_regs E S)(me \<mapsto> c_regs c)"
      using lib.switch_free [OF ok _ c, of me] True res by auto
    have un: "p_runs E S t \<noteq> Some fid" for t using True by (auto simp: ran_def)
    have free: "rax_of E S rx fid = UNIV" using un by (simp add: rax_of_def)
    have other: "rax_of E S' (rx(me := a)) f = rax_of E S rx f" if "f \<noteq> g" "f \<noteq> fid" for f
      using that g by (intro rax_of_cong) (auto simp: S'(2))
    have "weaker (cx E S' (rx(me := a))) ?C"
      unfolding weaker_def
    proof (intro allI impI)
      fix i r' u' v' R'
      assume i: "cx E S' (rx(me := a)) i = Some (r', u', v', R')"
      show "\<exists>R. ?C i = Some (r', u', v', R) \<and> R' \<subseteq> R"
      proof (cases i)
        case (Inl t)
        then have "t \<noteq> me" using i S'(2) by (auto simp: cx_simps split: if_splits)
        then show ?thesis using i Inl g S'(2,4) by (auto simp: cx_simps my_def split: if_splits)
      next
        case (Inr f)
        then show ?thesis
          using i x g free other [of f] by (cases "f = g"; cases "f = fid") (auto simp: cx_simps my_def S'(3))
      qed
    qed
    then show ?thesis using S'(1) by blast
  next
    case False
    then have no: "p_runs E S me = None \<or> p_ctx E S fid = None \<or> fid \<in> ran (p_runs E S)" by blast
    have S': "p_ok E S'" "p_runs E S' = p_runs E S" "p_ctx E S' = p_ctx E S" "p_regs E S' = p_regs E S"
      using lib.switch_busy [OF ok _ no] r res by auto
    have "cx E S' (rx(me := a)) = (cx E S rx)(my E S me \<mapsto> (r, u, v, {a}))"
      using cx_cong [OF S'(2,4,3)] cx_rax [OF ok r x] by simp
    then show ?thesis using S'(1) by (auto simp: weaker_def)
  qed
  then show "p_ok E S'" "weaker (cx E S' (rx(me := a))) ?C" by blast+
qed

section \<open>The invariant\<close>

definition round_values :: "nat \<Rightarrow> int list" where
  "round_values n = map (\<lambda>i. sint (of_nat i :: longlong)) [0..<n]"

text \<open>What the frame \<open>b\<close> has printed as returned values.\<close>

definition returned :: "(ulong \<times> mt_line) list \<Rightarrow> ulong \<Rightarrow> int list" where
  "returned ls b = concat (map (\<lambda>(b', l). if b' = b then (case l of Fiber_returned _ v \<Rightarrow> [v] | _ \<Rightarrow> []) else []) ls)"

abbreviation unused :: "nat \<Rightarrow> bool" where
  "unused \<equiv> \<lambda>_. False"

text \<open>What holds at a point: \<open>ra\<close> is the result register, \<open>u\<close> and \<open>v\<close> the local storage, \<open>l\<close> the
  values printed so far.\<close>

definition point_ok :: "mt_point \<Rightarrow> long \<Rightarrow> mt_frame \<Rightarrow> (nat \<Rightarrow> bool) \<Rightarrow> (nat \<Rightarrow> longlong) \<Rightarrow> int list \<Rightarrow> bool" where
  "point_ok p ra fr u v l = (case p of
       FooEntry \<Rightarrow> u = unused \<and> l = []
     | FooAgain \<Rightarrow> u = unused \<and> (\<exists>n. v_counter fr = of_nat n \<and> l = round_values n)
     | FooBack \<Rightarrow> u = unused \<and> (\<exists>n. v_counter fr = of_nat n \<and> l = round_values n)
     | FooAllocated \<Rightarrow> u = unused(0 := True) \<and> ra = 0 \<and> (\<exists>n. v_counter fr = of_nat n \<and> l = round_values n)
     | FooSet \<Rightarrow> u = unused(0 := True) \<and> v_index fr = 0 \<and>
         (\<exists>n. v_counter fr = of_nat (Suc n) \<and> v 0 = of_nat n \<and> l = round_values n)
     | FooGot \<Rightarrow> u = unused(0 := True) \<and> v_index fr = 0 \<and>
         (\<exists>n. v_counter fr = of_nat (Suc n) \<and> ra = of_nat n \<and> l = round_values n)
     | FooFreed \<Rightarrow> u = unused \<and> ra = 1 \<and> (\<exists>n. v_counter fr = of_nat (Suc n) \<and> v_res fr = of_nat n \<and> l = round_values n)
     | _ \<Rightarrow> l = [])"

definition in_handler :: "mt_point \<Rightarrow> bool" where
  "in_handler p \<longleftrightarrow> p = AlarmEntry \<or> p = AlarmBack"

definition at_entry :: "mt_point \<Rightarrow> bool" where
  "at_entry p \<longleftrightarrow> p = MainEntry \<or> p = ThreadEntry"

text \<open>A context with the ones signals have interrupted below it: handlers on top of a
  point of the program, which is an entry point as long as the thread is not converted.\<close>

fun chain_ok :: "menv \<Rightarrow> bool \<Rightarrow> (ulong \<times> long) list \<Rightarrow> mt_frame \<Rightarrow> (nat \<Rightarrow> bool) \<Rightarrow> (nat \<Rightarrow> longlong) \<Rightarrow> int list \<Rightarrow> bool" where
  "chain_ok M thr [] fr u v l \<longleftrightarrow> False"
| "chain_ok M thr [(i, ra)] fr u v l \<longleftrightarrow> (\<exists>p. i = code_at M p \<and> \<not> in_handler p \<and> at_entry p = thr \<and> point_ok p ra fr u v l)"
| "chain_ok M thr ((i, ra) # x # xs) fr u v l \<longleftrightarrow> (\<exists>p. i = code_at M p \<and> in_handler p) \<and> chain_ok M thr (x # xs) fr u v l"

declare chain_ok.simps [simp del]

lemma chain_point:
  "v_saved fr = [] \<Longrightarrow> \<not> in_handler p \<Longrightarrow> at_entry p = thr \<Longrightarrow> point_ok p ra fr u v l \<Longrightarrow>
     chain_ok M thr ((code_at M p, ra) # v_saved fr) fr u v l"
  by (auto simp: chain_ok.simps)

definition good :: "menv \<Rightarrow> (ulong \<rightharpoonup> mt_frame) \<Rightarrow> (ulong \<Rightarrow> int list) \<Rightarrow> pid_t + pid_t \<Rightarrow> mctx \<Rightarrow> bool" where
  "good M F G i = (\<lambda>(r, u, v, R). \<exists>fr. F (bp r) = Some fr \<and>
     (\<forall>ra \<in> R. chain_ok M (isl i) ((ip r, ra) # v_saved fr) fr u v (G (bp r))))"

definition dinv :: "menv \<Rightarrow> (pid_t + pid_t \<rightharpoonup> mctx) \<Rightarrow> (ulong \<rightharpoonup> mt_frame) \<Rightarrow> (ulong \<Rightarrow> int list) \<Rightarrow> bool" where
  "dinv M C F G \<longleftrightarrow> (\<forall>i x. C i = Some x \<longrightarrow> good M F G i x) \<and>
     (\<forall>i j x y. C i = Some x \<longrightarrow> C j = Some y \<longrightarrow> bp (fst x) = bp (fst y) \<longrightarrow> i = j) \<and>
     (\<forall>b. F b = None \<longrightarrow> G b = []) \<and> (\<forall>b. \<exists>n. G b = round_values n)"

lemma dinvD:
  assumes "dinv M C F G"
  shows "C i = Some x \<Longrightarrow> good M F G i x"
    "C i = Some x \<Longrightarrow> C j = Some y \<Longrightarrow> bp (fst x) = bp (fst y) \<Longrightarrow> i = j"
    "F b = None \<Longrightarrow> G b = []" "\<exists>n. G b = round_values n"
  using assms unfolding dinv_def by blast+

lemma dinv_weaker:
  assumes inv: "dinv M C F G" and w: "weaker C' C"
  shows "dinv M C' F G"
proof -
  have old: "\<exists>R. C i = Some (fst x, fst (snd x), fst (snd (snd x)), R) \<and> snd (snd (snd x)) \<subseteq> R" if "C' i = Some x" for i x
    using that w unfolding weaker_def by (cases x) force
  have "good M F G i x" if "C' i = Some x" for i x
    using old [OF that] dinvD(1) [OF inv] by (cases x) (fastforce simp: good_def)
  moreover have "i = j" if "C' i = Some x" "C' j = Some y" "bp (fst x) = bp (fst y)" for i j x y
    using old [OF that(1)] old [OF that(2)] dinvD(2) [OF inv, of i _ j] that(3) by fastforce
  ultimately show ?thesis using inv unfolding dinv_def by blast
qed

text \<open>A step of one context, which may change its frame, its output and its index.\<close>

lemma dinv_step:
  assumes inv: "dinv M C F G" and C: "C i = Some (r, x)" "j = i \<or> C j = None"
    and new: "bp r' = bp r" "F' = F(bp r \<mapsto> fr')" "G' = G(bp r := l')" "l' = round_values n"
    and ok: "\<And>ra. ra \<in> R \<Longrightarrow> chain_ok M (isl j) ((ip r', ra) # v_saved fr') fr' u v l'"
  shows "dinv M (C(i := None, j \<mapsto> (r', u, v, R))) F' G'"
proof -
  let ?C = "C(i := None, j \<mapsto> (r', u, v, R))"
  have others: "C k = Some y \<and> bp (fst y) \<noteq> bp r" if "?C k = Some y" "k \<noteq> j" for k y
    using that C dinvD(2) [OF inv C(1), of k y] by (auto split: if_splits)
  have "good M F' G' k y" if k: "?C k = Some y" for k y
  proof (cases "k = j")
    case True
    then show ?thesis using k ok new by (auto simp: good_def)
  next
    case False
    then show ?thesis using others [OF k False] dinvD(1) [OF inv, of k y] new by (cases y) (auto simp: good_def)
  qed
  moreover have "k = m" if km: "?C k = Some y" "?C m = Some z" "bp (fst y) = bp (fst z)" for k m y z
  proof (cases "k = j \<or> m = j")
    case True
    have "bp (fst y) = bp r" if "k = j" using that km(1) new(1) by auto
    moreover have "bp (fst z) = bp r" if "m = j" using that km(2) new(1) by auto
    ultimately show ?thesis using True others [OF km(1)] others [OF km(2)] km(3) by metis
  next
    case False
    then show ?thesis using others [OF km(1)] others [OF km(2)] dinvD(2) [OF inv] km(3) by blast
  qed
  moreover have "G' b = []" if "F' b = None" for b using that dinvD(3) [OF inv] new by (auto split: if_splits)
  moreover have "\<exists>n. G' b = round_values n" for b using dinvD(4) [OF inv] new by auto
  ultimately show ?thesis unfolding dinv_def by blast
qed

text \<open>A new context on a frame of its own.\<close>

lemma dinv_add:
  assumes inv: "dinv M C F G" and j: "C j = None" and b: "F (bp r) = None"
    and ok: "\<And>ra. ra \<in> R \<Longrightarrow> chain_ok M (isl j) ((ip r, ra) # v_saved fr) fr u v []"
  shows "dinv M (C(j \<mapsto> (r, u, v, R))) (F(bp r \<mapsto> fr)) G"
proof -
  have others: "bp (fst y) \<noteq> bp r" if "C k = Some y" for k y
    using dinvD(1) [OF inv that] b by (cases y) (auto simp: good_def)
  have "good M (F(bp r \<mapsto> fr)) G k y" if "(C(j \<mapsto> (r, u, v, R))) k = Some y" for k y
  proof (cases "k = j")
    case True
    then show ?thesis using that ok dinvD(3) [OF inv b] by (auto simp: good_def)
  next
    case False
    then show ?thesis using that dinvD(1) [OF inv, of k y] others [of k y] by (cases y) (auto simp: good_def)
  qed
  moreover have "k = m" if "(C(j \<mapsto> (r, u, v, R))) k = Some y" "(C(j \<mapsto> (r, u, v, R))) m = Some z" "bp (fst y) = bp (fst z)" for k m y z
    using that others [of k y] others [of m z] dinvD(2) [OF inv, of k y m z]
    by (cases "k = j"; cases "m = j") auto
  moreover have "G b = []" if "(F(bp r \<mapsto> fr)) b = None" for b using that dinvD(3) [OF inv, of b] by (auto split: if_splits)
  ultimately show ?thesis using dinvD(4) [OF inv] unfolding dinv_def by blast
qed

definition quiet :: "(ulong \<times> mt_line) list \<Rightarrow> bool" where
  "quiet ls \<longleftrightarrow> (\<forall>b d i. (b, Fiber_cannot_free d i) \<notin> set ls)"

definition minv :: "menv \<Rightarrow> mt \<Rightarrow> bool" where
  "minv M st \<longleftrightarrow> inj (code_at M) \<and> p_ok (m_env M) (proc st) \<and> \<not> exited st \<and> quiet (out st) \<and>
     dinv M (cx (m_env M) (proc st) (rax st)) (frames st) (returned (out st))"

lemma minvD:
  assumes "minv M st"
  shows "inj (code_at M)" "p_ok (m_env M) (proc st)" "\<not> exited st" "quiet (out st)"
    "dinv M (cx (m_env M) (proc st) (rax st)) (frames st) (returned (out st))"
  using assms by (simp_all add: minv_def)

section \<open>One step\<close>

text \<open>The thread \<open>me\<close> executes the context with the registers \<open>r\<close>, the frame \<open>fr\<close> and the
  storage \<open>u\<close>, \<open>v\<close>.\<close>

definition here :: "menv \<Rightarrow> mt \<Rightarrow> pid_t \<Rightarrow> pt_regs \<Rightarrow> mt_frame \<Rightarrow> (nat \<Rightarrow> bool) \<Rightarrow> (nat \<Rightarrow> longlong) \<Rightarrow> bool" where
  "here M st me r fr u v \<longleftrightarrow> p_regs (m_env M) (proc st) me = Some r \<and> frames st (bp r) = Some fr \<and>
     cx (m_env M) (proc st) (rax st) (my (m_env M) (proc st) me) = Some (r, u, v, {rax st me})"

lemma hereD:
  assumes "here M st me r fr u v"
  shows "p_regs (m_env M) (proc st) me = Some r" "frames st (bp r) = Some fr"
    "cx (m_env M) (proc st) (rax st) (my (m_env M) (proc st) me) = Some (r, u, v, {rax st me})"
  using assms by (simp_all add: here_def)

lemma here_exists:
  assumes inv: "minv M st" and r: "p_regs (m_env M) (proc st) me = Some r" "frames st (bp r) = Some fr"
  obtains u v where "here M st me r fr u v"
proof -
  obtain u v where "cx (m_env M) (proc st) (rax st) (my (m_env M) (proc st) me) = Some (r, u, v, {rax st me})"
    by (rule my_ctx [OF minvD(2) [OF inv] r(1)])
  then show ?thesis using that r by (simp add: here_def)
qed

lemma here_chain:
  assumes "minv M st" "here M st me r fr u v"
  shows "chain_ok M (isl (my (m_env M) (proc st) me)) ((ip r, rax st me) # v_saved fr) fr u v (returned (out st) (bp r))"
  using dinvD(1) [OF minvD(5) [OF assms(1)] hereD(3) [OF assms(2)]] hereD(2) [OF assms(2)] by (simp add: good_def)

lemma point_at_code:
  assumes "point_at M i = Some p"
  shows "code_at M p = i"
  using find_Some_in [OF assms [unfolded point_at_def]] by simp

text \<open>Outside a handler nothing is interrupted, and the claim of the point holds; in a
  handler the interrupted contexts are in order.\<close>

lemma here_program:
  assumes inv: "minv M st" and h: "here M st me r fr u v" and p: "code_at M p = ip r" "\<not> in_handler p"
  shows "v_saved fr = []" "at_entry p = isl (my (m_env M) (proc st) me)"
    "point_ok p (rax st me) fr u v (returned (out st) (bp r))"
proof -
  note c = here_chain [OF inv h]
  have eq: "ip r = code_at M q \<longleftrightarrow> q = p" for q using minvD(1) [OF inv] p(1) by (metis inj_eq)
  show s: "v_saved fr = []" using c p(2) by (cases "v_saved fr") (auto simp: eq chain_ok.simps)
  then show "at_entry p = isl (my (m_env M) (proc st) me)" "point_ok p (rax st me) fr u v (returned (out st) (bp r))"
    using c by (auto simp: eq chain_ok.simps)
qed

lemma here_handler:
  assumes inv: "minv M st" and h: "here M st me r fr u v" and p: "code_at M p = ip r" "in_handler p"
  obtains x xs where "v_saved fr = x # xs"
    "chain_ok M (isl (my (m_env M) (proc st) me)) (x # xs) fr u v (returned (out st) (bp r))"
proof (cases "v_saved fr")
  case Nil
  then show ?thesis using here_chain [OF inv h] p minvD(1) [OF inv] by (auto simp: inj_eq chain_ok.simps)
next
  case (Cons x xs)
  then show ?thesis using that here_chain [OF inv h] by (cases x) (simp add: chain_ok.simps)
qed

text \<open>Establishing the invariant after a step of the context.\<close>

lemma minv_move:
  assumes inv: "minv M st" and h: "here M st me r fr u v" and C: "C = cx (m_env M) (proc st) (rax st)"
    and st': "p_ok (m_env M) (proc st')" "\<not> exited st'" "quiet (out st')" "frames st' = (frames st)(bp r \<mapsto> fr')"
      "returned (out st') = (returned (out st))(bp r := round_values n)"
    and w: "weaker (cx (m_env M) (proc st') (rax st'))
      (C(my (m_env M) (proc st) me := None, j \<mapsto> (r', u', v', R)))" "j = my (m_env M) (proc st) me \<or> C j = None"
    and ok: "bp r' = bp r" "\<And>ra. ra \<in> R \<Longrightarrow> chain_ok M (isl j) ((ip r', ra) # v_saved fr') fr' u' v' (round_values n)"
  shows "minv M st'"
proof -
  have "dinv M (C(my (m_env M) (proc st) me := None, j \<mapsto> (r', u', v', R))) (frames st') (returned (out st'))"
    using w(2) st'(4,5) hereD(3) [OF h] C
    by (intro dinv_step [OF minvD(5) [OF inv, folded C] _ w(2) ok(1) _ _ refl ok(2)]) auto
  then have "dinv M (cx (m_env M) (proc st') (rax st')) (frames st') (returned (out st'))" using dinv_weaker [OF _ w(1)] by blast
  then show ?thesis using minvD(1) [OF inv] st'(1-3) by (simp add: minv_def)
qed

lemma weaker_refl: "C' = C \<Longrightarrow> weaker C' C"
  by (auto simp: weaker_def)

lemma upd_same: "(C(i := None, i \<mapsto> x)) = C(i \<mapsto> x)"
  by simp

text \<open>The three kinds of steps of a context: to another point, into a switch, and into a
  call that works on the local storage.\<close>

lemma local_inv:
  assumes inv: "minv M st" and h: "here M st me r fr u v"
    and st': "proc st' = p_exec me (\<lambda>r. r\<lparr>ip := i\<rparr>) (proc st)" "rax st' = (rax st)(me := a)" "\<not> exited st'" "quiet (out st')"
      "frames st' = (frames st)(bp r \<mapsto> fr')" "returned (out st') = (returned (out st))(bp r := round_values n)"
    and ok: "chain_ok M (isl (my (m_env M) (proc st) me)) ((i, a) # v_saved fr') fr' u v (round_values n)"
  shows "minv M st'"
proof -
  note e = cx_exec [OF minvD(2) [OF inv] hereD(1,3) [OF h], of "\<lambda>r. r\<lparr>ip := i\<rparr>"]
  let ?S = "p_exec me (\<lambda>r. r\<lparr>ip := i\<rparr>) (proc st)"
  have my: "my (m_env M) ?S me = my (m_env M) (proc st) me" using e(3) by (simp add: my_def)
  have "cx (m_env M) (proc st') (rax st') = (cx (m_env M) (proc st) (rax st))(my (m_env M) (proc st) me \<mapsto> (r\<lparr>ip := i\<rparr>, u, v, {a}))"
    using cx_rax [OF e(1), of me "r\<lparr>ip := i\<rparr>" "rax st" u v "{rax st me}" a] e(2,4) my st'(1,2) by simp
  then show ?thesis
    using e(1) st' ok by (intro minv_move [OF inv h refl _ _ _ _ _ weaker_refl, where j = "my (m_env M) (proc st) me"
      and r' = "r\<lparr>ip := i\<rparr>" and R = "{a}" and n = n]) (auto simp: upd_same)
qed

lemma switch_step_inv:
  assumes inv: "minv M st" and h: "here M st me r fr u v"
    and sw: "p_switch (m_env M) me fid (p_exec me (\<lambda>r. r\<lparr>ip := i\<rparr>) (proc st)) = Some (a, S')"
    and st': "proc st' = S'" "rax st' = (rax st)(me := a)" "\<not> exited st'" "quiet (out st')"
      "frames st' = (frames st)(bp r \<mapsto> fr')" "returned (out st') = (returned (out st))(bp r := round_values n)"
    and ok: "\<And>ra. chain_ok M (isl (my (m_env M) (proc st) me)) ((i, ra) # v_saved fr') fr' u v (round_values n)"
  shows "minv M st'"
proof -
  note e = cx_exec [OF minvD(2) [OF inv] hereD(1,3) [OF h], of "\<lambda>r. r\<lparr>ip := i\<rparr>"]
  let ?S = "p_exec me (\<lambda>r. r\<lparr>ip := i\<rparr>) (proc st)"
  have my: "my (m_env M) ?S me = my (m_env M) (proc st) me" using e(3) by (simp add: my_def)
  have "p_regs (m_env M) ?S me = Some (r\<lparr>ip := i\<rparr>)" "cx (m_env M) ?S (rax st) (my (m_env M) ?S me) = Some (r\<lparr>ip := i\<rparr>, u, v, {rax st me})"
    using e(2,4) my by simp_all
  note s = cx_switch [OF e(1) this sw, unfolded my e(2)]
  show ?thesis
    using s st' ok by (intro minv_move [OF inv h refl, where j = "my (m_env M) (proc st) me" and r' = "r\<lparr>ip := i\<rparr>" and R = UNIV
      and fr' = fr' and n = n and u' = u and v' = v]) simp_all
qed

lemma storage_ctx:
  assumes inv: "minv M st" and h: "here M st me r fr u v" and run: "p_runs (m_env M) (proc st) me = Some fid"
    and S: "S = p_exec me (\<lambda>r. r\<lparr>ip := i\<rparr>) (proc st)"
  obtains c where "p_ok (m_env M) S" "p_runs (m_env M) S me = Some fid" "p_ctx (m_env M) S fid = Some c" "c_used c = u" "c_vals c = v"
    "c_regs c = r\<lparr>ip := i\<rparr>"
proof -
  note e = cx_exec [OF minvD(2) [OF inv] hereD(1,3) [OF h], of "\<lambda>r. r\<lparr>ip := i\<rparr>", folded S]
  have "cx (m_env M) S (rax st) (Inr fid) = Some (r\<lparr>ip := i\<rparr>, u, v, {rax st me})" using e(2) run by (simp add: my_def)
  then show ?thesis using that e(1,3) run by (auto simp: cx_simps)
qed

lemma storage_inv:
  assumes inv: "minv M st" and h: "here M st me r fr u v" and run: "p_runs (m_env M) (proc st) me = Some fid"
    and S: "S = p_exec me (\<lambda>r. r\<lparr>ip := i\<rparr>) (proc st)"
    and c: "p_ctx (m_env M) S fid = Some c" "c_regs c = r\<lparr>ip := i\<rparr>"
    and op: "p_ok (m_env M) S'" "p_runs (m_env M) S' = p_runs (m_env M) S" "p_regs (m_env M) S' = p_regs (m_env M) S"
      "p_ctx (m_env M) S' = (p_ctx (m_env M) S)(fid \<mapsto> c\<lparr>c_used := u', c_vals := v'\<rparr>)"
    and st': "proc st' = S'" "rax st' = (rax st)(me := a)" "\<not> exited st'" "quiet (out st')"
      "frames st' = (frames st)(bp r \<mapsto> fr')" "returned (out st') = (returned (out st))(bp r := round_values n)"
    and ok: "chain_ok M False ((i, a) # v_saved fr') fr' u' v' (round_values n)"
  shows "minv M st'"
proof -
  note e = cx_exec [OF minvD(2) [OF inv] hereD(1,3) [OF h], of "\<lambda>r. r\<lparr>ip := i\<rparr>", folded S]
  have my: "my (m_env M) (proc st) me = Inr fid" "my (m_env M) S me = Inr fid" using run e(3) by (simp_all add: my_def)
  have run': "p_runs (m_env M) S me = Some fid" using run e(3) by simp
  have "cx (m_env M) S' ((rax st)(me := a)) = (cx (m_env M) S (rax st))(Inr fid \<mapsto> (r\<lparr>ip := i\<rparr>, u', v', {a}))"
    using cx_storage [OF e(1) run' c(1), of "c\<lparr>c_used := u', c_vals := v'\<rparr>" S' "rax st" a] op c(2) my(2) by simp
  then have "cx (m_env M) (proc st') (rax st') = (cx (m_env M) (proc st) (rax st))(Inr fid \<mapsto> (r\<lparr>ip := i\<rparr>, u', v', {a}))"
    using e(2) my(1) st'(1,2) by simp
  then show ?thesis
    using op(1) st' ok my(1) by (intro minv_move [OF inv h refl _ _ _ _ _ weaker_refl, where j = "Inr fid"
      and r' = "r\<lparr>ip := i\<rparr>" and R = "{a}" and n = n]) (auto simp: upd_same)
qed

section \<open>Output\<close>

lemma returned_append:
  "returned (ls @ [(b, l)]) = (case l of Fiber_returned d v \<Rightarrow> (returned ls)(b := returned ls b @ [v]) | _ \<Rightarrow> returned ls)"
  by (auto simp: returned_def fun_eq_iff split: mt_line.split)

lemma quiet_append: "quiet (ls @ [(b, l)]) \<longleftrightarrow> quiet ls \<and> (\<forall>d i. l \<noteq> Fiber_cannot_free d i)"
  by (auto simp: quiet_def)

lemma round_values_Suc: "round_values (Suc n) = round_values n @ [sint (of_nat n :: longlong)]"
  by (simp add: round_values_def)

lemma round_values_0 [simp]: "round_values 0 = []"
  by (simp add: round_values_def)

lemmas action_defs = jump_def printf_def put_frame_def put_info_def returns_def

lemma my_running:
  assumes "\<not> isl (my E S me)"
  obtains fid where "p_runs E S me = Some fid"
  using assms by (cases "p_runs E S me") (auto simp: my_def)

lemma returned_keep: "returned ls b = l \<Longrightarrow> (returned ls)(b := l) = returned ls"
  by auto

lemma here_keep: "here M st me r fr u v \<Longrightarrow> (frames st)(bp r \<mapsto> fr) = frames st"
  by (auto simp: here_def)

lemmas foo_simps = foo_def action_defs point_ok_def in_handler_def at_entry_def returned_append quiet_append Let_def

text \<open>What the invariant gives at a point of \<open>foo\<close>.\<close>

lemma foo_here:
  assumes inv: "minv M st" and h: "here M st me r fr u v" and p: "code_at M p = ip r" "\<not> in_handler p" "\<not> at_entry p"
  obtains fid where "p_runs (m_env M) (proc st) me = Some fid" "isl (my (m_env M) (proc st) me) = False" "v_saved fr = []"
    "point_ok p (rax st me) fr u v (returned (out st) (bp r))" "quiet (out st)" "\<not> exited st"
proof -
  note hp = here_program [OF inv h p(1,2)]
  have "isl (my (m_env M) (proc st) me) = False" using hp(2) p(3) by simp
  then show ?thesis using that hp minvD(3,4) [OF inv] by (metis my_running)
qed

lemma foo_local:
  assumes inv: "minv M st" and h: "here M st me r fr u v" and p: "code_at M p = ip r" "p = FooEntry \<or> p = FooFreed"
    and res: "foo M me (di r) (bp r) fr p st = Some st'"
  shows "minv M st'"
  using p(2)
proof
  assume e: "p = FooEntry"
  then obtain fid where f: "isl (my (m_env M) (proc st) me) = False" "v_saved fr = []"
      "point_ok p (rax st me) fr u v (returned (out st) (bp r))" "quiet (out st)" "\<not> exited st"
    using foo_here [OF inv h p(1)] by (metis in_handler_def at_entry_def mt_point.distinct)
  show ?thesis
    using res e f returned_keep [of "out st" "bp r"]
    by (intro local_inv [OF inv h, where i = "code_at M FooAgain" and a = "rax st me" and n = 0
          and fr' = "fr\<lparr>v_t := di r, v_counter := 0\<rparr>"] chain_point) (auto simp: foo_simps intro!: exI [of _ 0])
next
  assume e: "p = FooFreed"
  then obtain fid where f: "isl (my (m_env M) (proc st) me) = False" "v_saved fr = []"
      "point_ok p (rax st me) fr u v (returned (out st) (bp r))" "quiet (out st)" "\<not> exited st"
    using foo_here [OF inv h p(1)] by (metis in_handler_def at_entry_def mt_point.distinct)
  then obtain n where n: "v_counter fr = of_nat (Suc n)" "v_res fr = of_nat n" "returned (out st) (bp r) = round_values n" "rax st me = 1" "u = unused"
    using e by (auto simp: point_ok_def)
  show ?thesis
    using res e f(1,2,4,5) n here_keep [OF h]
    by (intro local_inv [OF inv h, where i = "code_at M FooAgain" and a = "rax st me" and n = "Suc n" and fr' = fr] chain_point)
      (auto simp: foo_simps round_values_Suc intro!: exI [of _ "Suc n"])
qed

lemma foo_switch:
  assumes inv: "minv M st" and h: "here M st me r fr u v" and p: "code_at M FooAgain = ip r"
    and res: "foo M me (di r) (bp r) fr FooAgain st = Some st'"
  shows "minv M st'"
proof -
  obtain fid where f: "isl (my (m_env M) (proc st) me) = False" "v_saved fr = []"
      "point_ok FooAgain (rax st me) fr u v (returned (out st) (bp r))" "quiet (out st)" "\<not> exited st"
    using foo_here [OF inv h p] by (metis in_handler_def at_entry_def mt_point.distinct)
  then obtain n where n: "v_counter fr = of_nat n" "returned (out st) (bp r) = round_values n" "u = unused"
    by (auto simp: point_ok_def)
  obtain a S' where "p_switch (m_env M) me (ucast (ti_data (infos st (v_t fr)))) (p_exec me (\<lambda>r. r\<lparr>ip := code_at M FooBack\<rparr>) (proc st)) = Some (a, S')"
    using res by (auto simp: foo_simps bind_eq_Some_conv)
  then show ?thesis
    using res f n here_keep [OF h] returned_keep [OF n(2)]
    by (intro switch_step_inv [OF inv h, where i = "code_at M FooBack" and n = n and fr' = fr] chain_point)
      (auto simp: foo_simps)
qed

lemma foo_points:
  "\<not> in_handler FooBack" "\<not> at_entry FooBack" "\<not> in_handler FooAllocated" "\<not> at_entry FooAllocated"
  "\<not> in_handler FooSet" "\<not> at_entry FooSet" "\<not> in_handler FooGot" "\<not> at_entry FooGot"
  by (simp_all add: in_handler_def at_entry_def)

text \<open>Before a call on the local storage, with the return address set.\<close>

lemma foo_call:
  assumes inv: "minv M st" and h: "here M st me r fr u v" and p: "code_at M p = ip r" "\<not> in_handler p" "\<not> at_entry p"
    and S: "S = p_exec me (\<lambda>r. r\<lparr>ip := i\<rparr>) (proc st)"
  obtains fid c where "p_runs (m_env M) (proc st) me = Some fid" "v_saved fr = []"
    "point_ok p (rax st me) fr u v (returned (out st) (bp r))" "quiet (out st)" "\<not> exited st"
    "p_ok (m_env M) S" "p_runs (m_env M) S me = Some fid" "p_ctx (m_env M) S fid = Some c" "c_used c = u" "c_vals c = v"
    "c_regs c = r\<lparr>ip := i\<rparr>"
proof -
  obtain fid where f: "p_runs (m_env M) (proc st) me = Some fid" "isl (my (m_env M) (proc st) me) = False" "v_saved fr = []"
      "point_ok p (rax st me) fr u v (returned (out st) (bp r))" "quiet (out st)" "\<not> exited st"
    by (rule foo_here [OF inv h p])
  show ?thesis by (rule storage_ctx [OF inv h f(1) S]) (rule that [OF f(1,3-6)])
qed

lemma foo_alloc:
  assumes inv: "minv M st" and h: "here M st me r fr u v" and p: "code_at M FooBack = ip r"
    and res: "foo M me (di r) (bp r) fr FooBack st = Some st'"
  shows "minv M st'"
proof -
  let ?S = "p_exec me (\<lambda>r. r\<lparr>ip := code_at M FooAllocated\<rparr>) (proc st)"
  obtain fid c where f: "p_runs (m_env M) (proc st) me = Some fid" "v_saved fr = []"
      "point_ok FooBack (rax st me) fr u v (returned (out st) (bp r))" "quiet (out st)" "\<not> exited st"
    and c: "p_ok (m_env M) ?S" "p_runs (m_env M) ?S me = Some fid" "p_ctx (m_env M) ?S fid = Some c" "c_used c = u" "c_vals c = v"
      "c_regs c = r\<lparr>ip := code_at M FooAllocated\<rparr>"
    by (rule foo_call [OF inv h p foo_points(1,2) refl [of ?S]])
  obtain n where n: "v_counter fr = of_nat n" "returned (out st) (bp r) = round_values n" "u = unused"
    using f(3) by (auto simp: point_ok_def)
  have "c\<lparr>c_used := (c_used c)(0 := True)\<rparr> = c\<lparr>c_used := unused(0 := True), c_vals := v\<rparr>"
    using c(4,5) n(3) by (cases c) simp
  then obtain S' where S': "p_alloc (m_env M) me ?S = Some (0, S')" "p_ok (m_env M) S'" "p_runs (m_env M) S' = p_runs (m_env M) ?S"
      "p_regs (m_env M) S' = p_regs (m_env M) ?S" "p_ctx (m_env M) S' = (p_ctx (m_env M) ?S)(fid \<mapsto> c\<lparr>c_used := unused(0 := True), c_vals := v\<rparr>)"
    using lib.alloc_slot [OF c(1-3), of 0] c(4) n(3) by (auto simp: MAX_FLS_POINTERS_def)
  show ?thesis
    using res S'(1) f n here_keep [OF h] returned_keep [OF n(2)]
    by (intro storage_inv [OF inv h f(1) refl c(3,6) S'(2-5), where a = 0 and n = n and fr' = fr] chain_point)
      (auto simp: foo_simps)
qed

lemma foo_set:
  assumes inv: "minv M st" and h: "here M st me r fr u v" and p: "code_at M FooAllocated = ip r"
    and res: "foo M me (di r) (bp r) fr FooAllocated st = Some st'"
  shows "minv M st'"
proof -
  let ?S = "p_exec me (\<lambda>r. r\<lparr>ip := code_at M FooSet\<rparr>) (proc st)"
  obtain fid c where f: "p_runs (m_env M) (proc st) me = Some fid" "v_saved fr = []"
      "point_ok FooAllocated (rax st me) fr u v (returned (out st) (bp r))" "quiet (out st)" "\<not> exited st"
    and c: "p_ok (m_env M) ?S" "p_runs (m_env M) ?S me = Some fid" "p_ctx (m_env M) ?S fid = Some c" "c_used c = u" "c_vals c = v"
      "c_regs c = r\<lparr>ip := code_at M FooSet\<rparr>"
    by (rule foo_call [OF inv h p foo_points(3,4) refl [of ?S]])
  obtain n where n: "v_counter fr = of_nat n" "returned (out st) (bp r) = round_values n" "u = unused(0 := True)" "rax st me = 0"
    using f(3) by (auto simp: point_ok_def)
  have "c\<lparr>c_vals := (c_vals c)(0 := of_nat n)\<rparr> = c\<lparr>c_used := u, c_vals := v(0 := of_nat n)\<rparr>" using c(4,5) by (cases c) simp
  then obtain S' where S': "p_set (m_env M) me (of_nat n) 0 ?S = Some S'" "p_ok (m_env M) S'" "p_runs (m_env M) S' = p_runs (m_env M) ?S"
      "p_regs (m_env M) S' = p_regs (m_env M) ?S" "p_ctx (m_env M) S' = (p_ctx (m_env M) ?S)(fid \<mapsto> c\<lparr>c_used := u, c_vals := v(0 := of_nat n)\<rparr>)"
    using lib.set_slot [OF c(1-3), of 0 "of_nat n"] c(4) n(3) by (auto simp: MAX_FLS_POINTERS_def)
  show ?thesis
    using res S'(1) f n returned_keep [OF n(2)]
    by (intro storage_inv [OF inv h f(1) refl c(3,6) S'(2-5), where a = 0 and n = n
          and fr' = "fr\<lparr>v_index := 0, v_counter := of_nat (Suc n)\<rparr>"] chain_point)
      (auto simp: foo_simps add.commute)
qed

lemma foo_get:
  assumes inv: "minv M st" and h: "here M st me r fr u v" and p: "code_at M FooSet = ip r"
    and res: "foo M me (di r) (bp r) fr FooSet st = Some st'"
  shows "minv M st'"
proof -
  let ?S = "p_exec me (\<lambda>r. r\<lparr>ip := code_at M FooGot\<rparr>) (proc st)"
  obtain fid c where f: "p_runs (m_env M) (proc st) me = Some fid" "v_saved fr = []"
      "point_ok FooSet (rax st me) fr u v (returned (out st) (bp r))" "quiet (out st)" "\<not> exited st"
    and c: "p_ok (m_env M) ?S" "p_runs (m_env M) ?S me = Some fid" "p_ctx (m_env M) ?S fid = Some c" "c_used c = u" "c_vals c = v"
      "c_regs c = r\<lparr>ip := code_at M FooGot\<rparr>"
    by (rule foo_call [OF inv h p foo_points(5,6) refl [of ?S]])
  obtain n where n: "v_counter fr = of_nat (Suc n)" "returned (out st) (bp r) = round_values n" "u = unused(0 := True)"
      "v 0 = of_nat n" "v_index fr = 0"
    using f(3) by (auto simp: point_ok_def)
  have "c\<lparr>c_used := u, c_vals := v\<rparr> = c" using c(4,5) by (cases c) simp
  then obtain S' where S': "p_get (m_env M) me 0 ?S = Some (of_nat n, S')" "p_ok (m_env M) S'" "p_runs (m_env M) S' = p_runs (m_env M) ?S"
      "p_regs (m_env M) S' = p_regs (m_env M) ?S" "p_ctx (m_env M) S' = (p_ctx (m_env M) ?S)(fid \<mapsto> c\<lparr>c_used := u, c_vals := v\<rparr>)"
    using lib.get_slot [OF c(1-3), of 0] c(3-5) n(3,4) by (auto simp: MAX_FLS_POINTERS_def fun_upd_idem)
  show ?thesis
    using res S'(1) f n here_keep [OF h] returned_keep [OF n(2)]
    by (intro storage_inv [OF inv h f(1) refl c(3,6) S'(2-5), where a = "of_nat n" and n = n and fr' = fr] chain_point)
      (auto simp: foo_simps)
qed

lemma foo_free:
  assumes inv: "minv M st" and h: "here M st me r fr u v" and p: "code_at M FooGot = ip r"
    and res: "foo M me (di r) (bp r) fr FooGot st = Some st'"
  shows "minv M st'"
proof -
  let ?S = "p_exec me (\<lambda>r. r\<lparr>ip := code_at M FooFreed\<rparr>) (proc st)"
  obtain fid c where f: "p_runs (m_env M) (proc st) me = Some fid" "v_saved fr = []"
      "point_ok FooGot (rax st me) fr u v (returned (out st) (bp r))" "quiet (out st)" "\<not> exited st"
    and c: "p_ok (m_env M) ?S" "p_runs (m_env M) ?S me = Some fid" "p_ctx (m_env M) ?S fid = Some c" "c_used c = u" "c_vals c = v"
      "c_regs c = r\<lparr>ip := code_at M FooFreed\<rparr>"
    by (rule foo_call [OF inv h p foo_points(7,8) refl [of ?S]])
  obtain n where n: "v_counter fr = of_nat (Suc n)" "returned (out st) (bp r) = round_values n" "u = unused(0 := True)"
      "rax st me = of_nat n" "v_index fr = 0"
    using f(3) by (auto simp: point_ok_def)
  have "c\<lparr>c_used := (c_used c)(0 := False)\<rparr> = c\<lparr>c_used := unused, c_vals := v\<rparr>" using c(4,5) n(3) by (cases c) (simp add: fun_eq_iff)
  then obtain S' where S': "p_free (m_env M) me 0 ?S = Some (True, S')" "p_ok (m_env M) S'" "p_runs (m_env M) S' = p_runs (m_env M) ?S"
      "p_regs (m_env M) S' = p_regs (m_env M) ?S" "p_ctx (m_env M) S' = (p_ctx (m_env M) ?S)(fid \<mapsto> c\<lparr>c_used := unused, c_vals := v\<rparr>)"
    using lib.free_slot [OF c(1-3), of 0] c(4) n(3) by (auto simp: MAX_FLS_POINTERS_def)
  show ?thesis
    using res S'(1) f n returned_keep [OF n(2)]
    by (intro storage_inv [OF inv h f(1) refl c(3,6) S'(2-5), where a = 1 and n = n and fr' = "fr\<lparr>v_res := of_nat n\<rparr>"] chain_point)
      (auto simp: foo_simps)
qed

lemma foo_inv:
  assumes "minv M st" "here M st me r fr u v" "code_at M p = ip r" "foo M me (di r) (bp r) fr p st = Some st'"
  shows "minv M st'"
proof (cases p)
qed (use assms foo_local [OF assms(1,2) assms(3)] foo_switch [OF assms(1,2)] foo_alloc [OF assms(1,2)] foo_set [OF assms(1,2)]
    foo_get [OF assms(1,2)] foo_free [OF assms(1,2)] in \<open>simp_all add: foo_def\<close>)

section \<open>The handler\<close>

lemma chain_push:
  "chain_ok M thr (x # xs) fr u v l \<Longrightarrow> in_handler p \<Longrightarrow> chain_ok M thr ((code_at M p, ra) # x # xs) fr u v l"
  by (auto simp: chain_ok.simps)

text \<open>Only the local variables of the program matter to the points below the handlers.\<close>

lemma chain_saved: "chain_ok M thr xs (fr\<lparr>v_saved := ys\<rparr>) u v l = chain_ok M thr xs fr u v l"
proof (induction xs)
  case (Cons x xs)
  have "point_ok p ra (fr\<lparr>v_saved := ys\<rparr>) u v l = point_ok p ra fr u v l" for p ra
    by (simp add: point_ok_def split: mt_point.split)
  then show ?case using Cons by (cases x; cases xs) (simp_all add: chain_ok.simps)
qed (simp add: chain_ok.simps)

lemma here_round: 
  assumes "minv M st"
  obtains n where "returned (out st) b = round_values n"
  using dinvD(4) [OF minvD(5) [OF assms]] by blast

lemma handler_inv:
  assumes inv: "minv M st" and h: "here M st me r fr u v" and p: "code_at M p = ip r" "in_handler p"
    and res: "alarm_handler M me (bp r) fr p st = Some st'"
  shows "minv M st'"
proof -
  obtain x xs where c: "v_saved fr = x # xs" "chain_ok M (isl (my (m_env M) (proc st) me)) (x # xs) fr u v (returned (out st) (bp r))"
    by (rule here_handler [OF inv h p])
  obtain n where n: "returned (out st) (bp r) = round_values n" by (rule here_round [OF inv])
  note q = minvD(3,4) [OF inv]
  consider (entry) "p = AlarmEntry" | (leave) "p = AlarmBack" using p(2) by (auto simp: in_handler_def)
  then show ?thesis
  proof cases
    case entry
    then obtain a S' where sw: "p_switch (m_env M) me 10 (p_exec me (\<lambda>r. r\<lparr>ip := code_at M AlarmBack\<rparr>) (proc st)) = Some (a, S')"
        "st' = returns me (a, S') (jump M me AlarmBack (printf (bp r) Alarm_trying (st\<lparr>armed := True\<rparr>)))"
      using res by (auto simp: alarm_handler_def action_defs bind_eq_Some_conv)
    have "chain_ok M (isl (my (m_env M) (proc st) me)) ((code_at M AlarmBack, ra) # v_saved fr) fr u v (round_values n)" for ra
      unfolding c(1) using c(2) n by (intro chain_push) (simp_all add: in_handler_def)
    then show ?thesis
      using sw(2) q here_keep [OF h] returned_keep [OF n]
      by (intro switch_step_inv [OF inv h sw(1), where n = n and fr' = fr]) (simp_all add: action_defs returned_append quiet_append)
  next
    case leave
    obtain i ra where x: "x = (i, ra)" by (cases x)
    show ?thesis
      using res leave c n q returned_keep [OF n]
      by (intro local_inv [OF inv h, where i = i and a = ra and n = n and fr' = "fr\<lparr>v_saved := xs\<rparr>"])
        (auto simp: alarm_handler_def action_defs returned_append quiet_append chain_saved x Let_def split: if_splits)
  qed
qed

lemma deliver_inv:
  assumes inv: "minv M st" and h: "here M st me r fr u v"
    and st': "st' = jump M me AlarmEntry (put_frame (bp r) (fr\<lparr>v_saved := (ip r, rax st me) # v_saved fr\<rparr>) (st\<lparr>armed := False\<rparr>))"
  shows "minv M st'"
proof -
  obtain n where n: "returned (out st) (bp r) = round_values n" by (rule here_round [OF inv])
  have "chain_ok M (isl (my (m_env M) (proc st) me)) ((code_at M AlarmEntry, rax st me) # (ip r, rax st me) # v_saved fr) fr u v (round_values n)"
    using here_chain [OF inv h] n by (intro chain_push) (simp_all add: in_handler_def)
  then show ?thesis
    using minvD(3,4) [OF inv] returned_keep [OF n] st'
    by (intro local_inv [OF inv h, where i = "code_at M AlarmEntry" and a = "rax st me" and n = n
          and fr' = "fr\<lparr>v_saved := (ip r, rax st me) # v_saved fr\<rparr>"]) (simp_all add: action_defs chain_saved)
qed

section \<open>Threads\<close>

text \<open>Outside \<open>foo\<close> nothing is returned.\<close>

definition in_foo :: "mt_point \<Rightarrow> bool" where
  "in_foo p \<longleftrightarrow> p \<in> {FooEntry, FooAgain, FooBack, FooAllocated, FooSet, FooGot, FooFreed}"

lemma point_outside: "\<not> in_foo p \<Longrightarrow> point_ok p ra fr u v l \<longleftrightarrow> l = []"
  by (cases p) (simp_all add: point_ok_def in_foo_def)

lemma outside_here:
  assumes inv: "minv M st" and h: "here M st me r fr u v" and p: "code_at M p = ip r" "\<not> in_handler p" "\<not> in_foo p"
  shows "v_saved fr = []" "isl (my (m_env M) (proc st) me) = at_entry p" "returned (out st) (bp r) = round_values 0"
    "(returned (out st))(bp r := round_values 0) = returned (out st)" "quiet (out st)" "\<not> exited st"
proof -
  note hp = here_program [OF inv h p(1,2)]
  show "v_saved fr = []" "isl (my (m_env M) (proc st) me) = at_entry p" using hp(1,2) by simp_all
  show l: "returned (out st) (bp r) = round_values 0" using hp(3) point_outside [OF p(3)] by simp
  then show "(returned (out st))(bp r := round_values 0) = returned (out st)" by (rule returned_keep)
  show "quiet (out st)" "\<not> exited st" using minvD(3,4) [OF inv] by simp_all
qed

lemma p_room_exec [simp]: "p_room E me (p_exec me f S) = p_room E me S"
proof (cases "tasks (snd S) me")
  case (Some cur)
  then show ?thesis
    by (simp add: p_room_def p_exec_def ids_left_def set_task_def proc_of_def pkey_def [abs_def])
qed (simp add: p_exec_def)

lemma convert_step_inv:
  assumes inv: "minv M st" and h: "here M st me r fr u v" and p: "code_at M p = ip r" "at_entry p"
    and room: "p_room (m_env M) me (proc st)" and q: "\<not> in_handler q" "\<not> in_foo q" "\<not> at_entry q"
    and S: "p_convert (m_env M) me (p_exec me (\<lambda>r. r\<lparr>ip := code_at M q\<rparr>) (proc st)) = Some (fid, S')"
    and st': "proc st' = S'" "rax st' = (rax st)(me := a)" "\<not> exited st'" "quiet (out st')"
      "frames st' = (frames st)(bp r \<mapsto> fr')" "v_saved fr' = []" "returned (out st') = returned (out st)"
  shows "minv M st'"
proof -
  have np: "\<not> in_handler p" "\<not> in_foo p" using p(2) by (auto simp: at_entry_def in_handler_def in_foo_def)
  note o = outside_here [OF inv h p(1) np]
  let ?S = "p_exec me (\<lambda>r. r\<lparr>ip := code_at M q\<rparr>) (proc st)"
  note e = cx_exec [OF minvD(2) [OF inv] hereD(1,3) [OF h], of "\<lambda>r. r\<lparr>ip := code_at M q\<rparr>"]
  have my: "my (m_env M) (proc st) me = Inl me" and run: "p_runs (m_env M) ?S me = None"
    using o(2) p(2) e(3) by (auto simp: my_def split: option.splits)
  have "p_regs (m_env M) ?S me = Some (r\<lparr>ip := code_at M q\<rparr>)" "p_room (m_env M) me ?S" using e(4) room by simp_all
  note cv = cx_convert [OF e(1) this(1) run this(2) S]
  obtain v' where v': "cx (m_env M) S' ((rax st)(me := a)) =
      (cx (m_env M) ?S (rax st))(Inl me := None, Inr fid \<mapsto> (r\<lparr>ip := code_at M q\<rparr>, unused, v', {a}))"
    using cv(2) by blast
  have none: "cx (m_env M) (proc st) (rax st) (Inr fid) = None" using cv(3) [of "rax st"] e(2) my by simp
  have "weaker (cx (m_env M) (proc st') (rax st')) ((cx (m_env M) (proc st) (rax st))
      (my (m_env M) (proc st) me := None, Inr fid \<mapsto> (r\<lparr>ip := code_at M q\<rparr>, unused, v', {a})))"
    using v' e(2) my st'(1,2) by (intro weaker_refl) simp
  moreover have "chain_ok M False ((code_at M q, ra) # v_saved fr') fr' unused v' (round_values 0)" for ra
    using st'(6) q by (intro chain_point) (simp_all add: point_outside)
  ultimately show ?thesis
    using cv(1) st' none o(4)
    by (intro minv_move [OF inv h refl, where r' = "r\<lparr>ip := code_at M q\<rparr>" and n = 0 and j = "Inr fid" and R = "{a}"
          and u' = unused and v' = v' and fr' = fr']) simp_all
qed

lemma cx_spawn:
  assumes ok: "p_ok E S" and cur: "tasks (snd S) pid = None" "task_pid t = pid" "task_tgid t = e_tgid E"
  shows "p_ok E (fst S, set_task (snd S) pid t)" "cx E S rx (Inl pid) = None"
    "cx E (fst S, set_task (snd S) pid t) rx = (cx E S rx)(Inl pid \<mapsto> (user_regs t, unused, \<lambda>_. 0, {rx pid}))"
proof -
  let ?S = "(fst S, set_task (snd S) pid t)"
  have run: "runs (e_api E) (e_tgid E) (snd S) pid = None"
    using coro_okD(4) [OF p_okD(4) [OF ok]] cur(1) by (metis not_None_eq)
  note idle = ctx_idle [OF p_okD(4) [OF ok] run cur(2)]
  show "p_ok E ?S" using p_okI [OF ok p_okD(3) [OF ok] idle(1)] .
  have r: "p_runs E ?S = p_runs E S" "p_ctx E ?S = p_ctx E S" "p_regs E ?S = (p_regs E S)(pid \<mapsto> user_regs t)"
    using idle(2) cur(3) p_regs_set [of ?S S pid t E] by (simp_all add: p_runs_def p_ctx_def) (simp add: set_task_def)
  show "cx E S rx (Inl pid) = None" using cur(1) by (simp add: cx_simps p_regs_def task_of_def)
  show "cx E ?S rx = (cx E S rx)(Inl pid \<mapsto> (user_regs t, unused, \<lambda>_. 0, {rx pid}))"
    using r run by (intro map_ext_sum) (simp_all add: cx_simps rax_of_def, simp add: p_runs_def)
qed

text \<open>The thread \<open>pid\<close> is created from the loop of \<open>main\<close>, which stays where it is.\<close>

lemma spawn_inv:
  assumes inv: "minv M st" and h: "here M st me r fr u v" and p: "code_at M MainLoop = ip r"
    and res: "pthread_create M me arg pid base (put_frame (bp r) (fr\<lparr>v_i := k\<rparr>) (put_info x y st)) = Some st'"
  shows "minv M st'"
proof -
  have np: "\<not> in_handler MainLoop" "\<not> in_foo MainLoop" by (simp_all add: in_handler_def in_foo_def)
  note o = outside_here [OF inv h p np]
  obtain cur where cur: "tasks (snd (proc st)) me = Some cur" "task_tgid cur = e_tgid (m_env M)"
    using hereD(1) [OF h] by (auto simp: p_regs_task)
  let ?t = "cur\<lparr>task_pid := pid, utime := 0, user_regs := (user_regs cur)\<lparr>sp := base, bp := base, ip := code_at M ThreadEntry, di := arg\<rparr>\<rparr>"
  have new: "tasks (snd (proc st)) pid = None" "frames st base = None" "base \<noteq> bp r"
    and st': "proc st' = (fst (proc st), set_task (snd (proc st)) pid ?t)" "rax st' = rax st" "out st' = out st" "exited st' = exited st"
      "frames st' = (frames st)(bp r \<mapsto> fr\<lparr>v_i := k\<rparr>, base \<mapsto> blank)"
    using res cur by (auto simp: pthread_create_def action_defs Let_def split: if_splits)
  note sp = cx_spawn [OF minvD(2) [OF inv] new(1), of ?t]
  let ?C = "cx (m_env M) (proc st) (rax st)" and ?i = "my (m_env M) (proc st) me"
  have "dinv M (?C(?i := None, ?i \<mapsto> (r, u, v, {rax st me}))) ((frames st)(bp r \<mapsto> fr\<lparr>v_i := k\<rparr>)) (returned (out st))"
  proof (rule dinv_step [OF minvD(5) [OF inv] hereD(3) [OF h], where n = 0])
    show "chain_ok M (isl ?i) ((ip r, ra) # v_saved (fr\<lparr>v_i := k\<rparr>)) (fr\<lparr>v_i := k\<rparr>) u v (round_values 0)" for ra
      unfolding p [symmetric] using o(1,2) np by (intro chain_point) (simp_all add: point_outside)
  qed (use o(4) in simp_all)
  then have "dinv M ?C ((frames st)(bp r \<mapsto> fr\<lparr>v_i := k\<rparr>)) (returned (out st))" using hereD(3) [OF h] by (simp add: fun_upd_idem)
  moreover have "chain_ok M True ((code_at M ThreadEntry, ra) # v_saved blank) blank unused (\<lambda>_. 0) []" for ra
    by (intro chain_point) (simp_all add: blank_def at_entry_def in_handler_def point_ok_def)
  ultimately have "dinv M (?C(Inl pid \<mapsto> (user_regs ?t, unused, \<lambda>_. 0, {rax st pid})))
      ((frames st)(bp r \<mapsto> fr\<lparr>v_i := k\<rparr>, bp (user_regs ?t) \<mapsto> blank)) (returned (out st))"
    using sp(2) new cur(2) by (intro dinv_add) simp_all
  then have "dinv M (cx (m_env M) (proc st') (rax st')) (frames st') (returned (out st'))"
    using st' sp(3) cur(2) by simp
  then show ?thesis using minvD(1) [OF inv] sp(1) cur(2) o(5,6) st' by (simp add: minv_def)
qed

lemma cx_create_step:
  assumes ok: "p_ok E S" and r: "p_regs E S me = Some r" and x: "cx E S rx (my E S me) = Some (r, u, v, {rx me})"
    and run: "p_runs E S me \<noteq> None" and room: "p_room E me S" and res: "p_create E stk me func sz par S = Some (fid, S')"
  obtains (failed) "stk = None" "p_ok E S'" "cx E S' (rx(me := a)) = (cx E S rx)(my E S me \<mapsto> (r, u, v, {a}))"
  | (created) b v' where "stk = Some b" "p_ok E S'" "my E S me \<noteq> Inr fid" "cx E S rx (Inr fid) = None"
    "cx E S' (rx(me := a)) = (cx E S rx)(my E S me \<mapsto> (r, u, v, {a}),
       Inr fid \<mapsto> (r\<lparr>sp := b + sz - 8, bp := b + sz - 8, ip := func, di := par\<rparr>, unused, v', UNIV))"
proof (cases stk)
  case None
  have S': "p_ok E S'" "p_runs E S' = p_runs E S" "p_regs E S' = p_regs E S" "p_ctx E S' = p_ctx E S"
    using lib.create_refused [OF ok, of me None func sz par] r res None by auto
  show ?thesis using failed [OF None S'(1)] cx_cong [OF S'(2-4)] cx_rax [OF ok r x, of a] by simp
next
  case (Some b)
  note cr = cx_create [OF ok r run room res [unfolded Some]]
  let ?r' = "r\<lparr>sp := b + sz - 8, bp := b + sz - 8, ip := func, di := par\<rparr>"
  obtain v' where v': "cx E S' rx = (cx E S rx)(Inr fid \<mapsto> (?r', unused, v', UNIV))" using cr(5) by blast
  have none: "cx E S rx (Inr fid) = None" using cr(4) .
  then have ne: "my E S me \<noteq> Inr fid" using x by auto
  have "p_regs E S' me = Some r" "cx E S' rx (my E S' me) = Some (r, u, v, {rx me})" using v' x cr(2,3) r ne by simp_all
  from cx_rax [OF cr(1) this, of a]
  have "cx E S' (rx(me := a)) = (cx E S rx)(my E S me \<mapsto> (r, u, v, {a}), Inr fid \<mapsto> (?r', unused, v', UNIV))"
    using cr(3) v' ne by (simp add: fun_upd_twist)
  then show ?thesis using created [OF Some cr(1) ne none] by blast
qed

lemma create_step_inv:
  assumes inv: "minv M st" and h: "here M st me r fr u v" and p: "code_at M ThreadConverted = ip r" and room: "p_room (m_env M) me (proc st)"
    and S: "p_create (m_env M) stk me (code_at M FooEntry) 8192 par (p_exec me (\<lambda>r. r\<lparr>ip := code_at M ThreadCreated\<rparr>) (proc st)) = Some (fid, S')"
    and stk: "\<And>x. stk = Some x \<Longrightarrow> frames st (x + 8192 - 8) = None"
    and st': "proc st' = S'" "rax st' = (rax st)(me := a)" "\<not> exited st'" "quiet (out st')" "returned (out st') = returned (out st)"
      "frames st' = (case stk of None \<Rightarrow> frames st | Some x \<Rightarrow> (frames st)(x + 8192 - 8 \<mapsto> blank))"
  shows "minv M st'"
proof -
  have np: "\<not> in_handler ThreadConverted" "\<not> in_foo ThreadConverted" "\<not> at_entry ThreadConverted"
    by (simp_all add: in_handler_def in_foo_def at_entry_def)
  note o = outside_here [OF inv h p np(1,2)]
  let ?S = "p_exec me (\<lambda>r. r\<lparr>ip := code_at M ThreadCreated\<rparr>) (proc st)" and ?r = "r\<lparr>ip := code_at M ThreadCreated\<rparr>"
  let ?C = "cx (m_env M) (proc st) (rax st)" and ?i = "my (m_env M) (proc st) me"
  note e = cx_exec [OF minvD(2) [OF inv] hereD(1,3) [OF h], of "\<lambda>r. r\<lparr>ip := code_at M ThreadCreated\<rparr>"]
  have my: "my (m_env M) ?S me = ?i" and run: "p_runs (m_env M) ?S me \<noteq> None"
    using o(2) np(3) e(3) by (auto simp: my_def split: option.splits)
  have regs: "p_regs (m_env M) ?S me = Some ?r" "p_room (m_env M) me ?S" using e(4) room by simp_all
  have moved: "dinv M (?C(?i := None, ?i \<mapsto> (?r, u, v, {a}))) (frames st) (returned (out st))"
  proof (rule dinv_step [OF minvD(5) [OF inv] hereD(3) [OF h], where n = 0 and fr' = fr])
    show "chain_ok M (isl ?i) ((ip ?r, ra) # v_saved fr) fr u v (round_values 0)" for ra
      using o(1,2) chain_point [of fr ThreadCreated] by (simp add: np point_outside in_handler_def at_entry_def in_foo_def)
  qed (use o(4) here_keep [OF h] in simp_all)
  have x: "cx (m_env M) ?S (rax st) (my (m_env M) ?S me) = Some (?r, u, v, {rax st me})" using e(2) my by simp
  have "p_ok (m_env M) S' \<and> dinv M (cx (m_env M) S' ((rax st)(me := a))) (frames st') (returned (out st))"
    using e(1) regs(1) x run regs(2) S
  proof (cases rule: cx_create_step [where a = a])
    case failed
    then show ?thesis using moved e(2) my st'(6) by simp
  next
    case (created b v')
    let ?r' = "?r\<lparr>sp := b + 8192 - 8, bp := b + 8192 - 8, ip := code_at M FooEntry, di := par\<rparr>"
    have "chain_ok M False ((code_at M FooEntry, ra) # v_saved blank) blank unused v' []" for ra
      by (intro chain_point) (simp_all add: blank_def at_entry_def in_handler_def point_ok_def)
    then have "dinv M (?C(?i := None, ?i \<mapsto> (?r, u, v, {a}), Inr fid \<mapsto> (?r', unused, v', UNIV))) ((frames st)(bp ?r' \<mapsto> blank)) (returned (out st))"
      using created(3,4) e(2) my stk [OF created(1)] by (intro dinv_add [OF moved]) (simp_all split: if_splits)
    then show ?thesis using created(1,2,5) e(2) my st'(6) by simp
  qed
  then show ?thesis using minvD(1) [OF inv] st' by (simp add: minv_def)
qed

lemma outside_local:
  assumes inv: "minv M st" and h: "here M st me r fr u v" and p: "code_at M p = ip r" "\<not> in_handler p" "\<not> in_foo p"
    and q: "\<not> in_handler q" "\<not> in_foo q" "at_entry q = at_entry p"
    and st': "proc st' = p_exec me (\<lambda>r. r\<lparr>ip := code_at M q\<rparr>) (proc st)" "rax st' = rax st" "exited st' = exited st" "quiet (out st')"
      "frames st' = (frames st)(bp r \<mapsto> fr')" "v_saved fr' = []" "returned (out st') = returned (out st)"
  shows "minv M st'"
proof -
  note o = outside_here [OF inv h p]
  have "chain_ok M (isl (my (m_env M) (proc st) me)) ((code_at M q, rax st me) # v_saved fr') fr' u v (round_values 0)"
    using q o(2) st'(6) by (intro chain_point) (simp_all add: point_outside)
  then show ?thesis
    using st' o(4,6) by (intro local_inv [OF inv h, where i = "code_at M q" and a = "rax st me" and n = 0 and fr' = fr']) simp_all
qed

lemmas point_classes = in_handler_def in_foo_def at_entry_def

lemma thread_inv:
  assumes inv: "minv M st" and h: "here M st me r fr u v" and p: "code_at M p = ip r" and room: "p_room (m_env M) me (proc st)"
    and res: "thread_function M ch me (di r) (bp r) fr p st = Some st'"
  shows "minv M st'"
proof (cases p)
  case ThreadEntry
  then show ?thesis
    using res outside_here [OF inv h p] here_keep [OF h]
    by (auto simp: thread_function_def action_defs bind_eq_Some_conv returned_append quiet_append point_classes Let_def
        intro!: convert_step_inv [OF inv h p _ room, where q = ThreadConverted and fr' = "fr\<lparr>v_t := di r\<rparr>"])
next
  case ThreadConverted
  then obtain stk where ch: "ch = Stack stk" using res by (cases ch) (simp_all add: thread_function_def Let_def)
  have n: "quiet (out st)" "\<not> exited st" using minvD(3,4) [OF inv] by simp_all
  show ?thesis
    using res n p unfolding ThreadConverted ch
    by (auto simp: thread_function_def action_defs bind_eq_Some_conv returned_append quiet_append Let_def split: option.splits if_splits
        intro!: create_step_inv [OF inv h _ room, where stk = stk and par = "info_at M (bp r) 0"])
next
  case ThreadCreated
  then show ?thesis
    using res outside_here [OF inv h p]
    by (auto simp: thread_function_def action_defs returned_append quiet_append point_classes Let_def
        intro!: outside_local [OF inv h p, where q = ThreadAgain])
next
  case ThreadAgain
  then obtain a S' where sw: "p_switch (m_env M) me (v_new_fiber fr) (p_exec me (\<lambda>r. r\<lparr>ip := code_at M ThreadBack\<rparr>) (proc st)) = Some (a, S')"
      "st' = returns me (a, S') (jump M me ThreadBack st)"
    using res by (auto simp: thread_function_def action_defs bind_eq_Some_conv Let_def)
  have o: "v_saved fr = []" "isl (my (m_env M) (proc st) me) = False" "(returned (out st))(bp r := round_values 0) = returned (out st)"
      "quiet (out st)" "\<not> exited st"
    using outside_here [OF inv h p] ThreadAgain by (simp_all add: point_classes)
  then have "chain_ok M (isl (my (m_env M) (proc st) me)) ((code_at M ThreadBack, ra) # v_saved fr) fr u v (round_values 0)" for ra
    by (intro chain_point) (simp_all add: point_classes point_outside)
  then show ?thesis
    using sw(2) o here_keep [OF h] by (intro switch_step_inv [OF inv h sw(1), where n = 0 and fr' = fr]) (simp_all add: action_defs)
next
  case ThreadBack
  then show ?thesis
    using res outside_here [OF inv h p] here_keep [OF h]
    by (auto simp: thread_function_def action_defs returned_append quiet_append point_classes Let_def
        intro!: outside_local [OF inv h p, where q = ThreadAgain and fr' = fr])
qed (use res in \<open>simp_all add: thread_function_def Let_def\<close>)

lemma main_inv:
  assumes inv: "minv M st" and h: "here M st me r fr u v" and p: "code_at M p = ip r" and room: "p_room (m_env M) me (proc st)"
    and res: "mt_main M ch me (bp r) fr p st = Some st'"
  shows "minv M st'"
proof (cases p)
  case MainEntry
  then show ?thesis
    using res outside_here [OF inv h p] here_keep [OF h]
    by (auto simp: mt_main_def action_defs bind_eq_Some_conv returned_append quiet_append point_classes Let_def
        intro!: convert_step_inv [OF inv h p _ room, where q = MainConverted and fr' = fr])
next
  case MainConverted
  then show ?thesis
    using res outside_here [OF inv h p]
    by (auto simp: mt_main_def action_defs returned_append quiet_append point_classes Let_def
        intro!: outside_local [OF inv h p, where q = MainLoop])
next
  case MainLoop
  show ?thesis
  proof (cases "unat (v_i fr) < NUM_THREADS")
    case True
    then show ?thesis
      using res p MainLoop by (auto simp: mt_main_def Let_def split: mt_choice.splits intro: spawn_inv [OF inv h])
  next
    case False
    then show ?thesis
      using res MainLoop outside_here [OF inv h p] here_keep [OF h]
      by (auto simp: mt_main_def action_defs point_classes intro!: outside_local [OF inv h p, where q = MainJoin and fr' = fr])
  qed
qed (use res in \<open>simp_all add: mt_main_def\<close>)

section \<open>All steps\<close>

lemma mt_step_inv:
  assumes inv: "minv M st" and room: "p_room (m_env M) me (proc st)" and res: "mt_step M ch me st = Some st'"
  shows "minv M st'"
proof -
  obtain r fr pt where s: "p_regs (m_env M) (proc st) me = Some r" "frames st (bp r) = Some fr" "point_at M (ip r) = Some pt"
    using res by (auto simp: mt_step_def bind_eq_Some_conv split: if_splits)
  obtain u v where h: "here M st me r fr u v" by (rule here_exists [OF inv s(1,2)])
  have pt: "code_at M pt = ip r" by (rule point_at_code [OF s(3)])
  show ?thesis
    using res s pt main_inv [OF inv h pt room] thread_inv [OF inv h pt room] handler_inv [OF inv h pt] foo_inv [OF inv h pt]
    by (auto simp: mt_step_def in_handler_def split: if_splits)
qed

lemma mt_next_inv:
  assumes inv: "minv M st" and step: "mt_next M st st'"
  shows "minv M st'"
  using step
proof cases
  case (run me ch)
  then show ?thesis using mt_step_inv [OF inv] by blast
next
  case (signal me)
  then obtain r fr where s: "p_regs (m_env M) (proc st) me = Some r" "frames st (bp r) = Some fr"
      "st' = jump M me AlarmEntry (put_frame (bp r) (fr\<lparr>v_saved := (ip r, rax st me) # v_saved fr\<rparr>) (st\<lparr>armed := False\<rparr>))"
    by (auto simp: deliver_def bind_eq_Some_conv split: if_splits)
  obtain u v where h: "here M st me r fr u v" by (rule here_exists [OF inv s(1,2)])
  show ?thesis by (rule deliver_inv [OF inv h s(3)])
qed

lemma mt_initial_inv:
  assumes "mt_initial M st"
  shows "minv M st"
proof -
  obtain me r where i: "p_regs (m_env M) (proc st) = [me \<mapsto> r]" "ip r = code_at M MainEntry" "frames st = [bp r \<mapsto> blank]"
    using assms by (auto simp: mt_initial_def)
  have C: "cx (m_env M) (proc st) (rax st) = [Inl me \<mapsto> (r, unused, \<lambda>_. 0, {rax st me})]"
    using assms i(1) by (intro map_ext_sum) (simp_all add: mt_initial_def cx_simps)
  have "chain_ok M True ((ip r, rax st me) # v_saved blank) blank unused (\<lambda>_. 0) []"
    unfolding i(2) by (intro chain_point) (simp_all add: blank_def point_classes point_ok_def)
  moreover have "returned [] = (\<lambda>_. [])" by (simp add: returned_def fun_eq_iff)
  ultimately have "dinv M (cx (m_env M) (proc st) (rax st)) (frames st) (returned (out st))"
    using assms i(3) unfolding C by (auto simp: dinv_def good_def mt_initial_def split: if_splits intro: exI [of _ 0])
  then show ?thesis using assms by (simp add: minv_def mt_initial_def quiet_def)
qed

interpretation demo: invariant_system "mt_initial M" "mt_next M" "minv M" for M :: menv
  by unfold_locales (blast intro: mt_initial_inv mt_next_inv)+

end
