(* ===== verification/Demo_Main.thy ===== *)
theory Demo_Main
  imports Coroutine_Library Complex_Main
begin

text \<open>
  The demonstration program \<^verbatim>\<open>fiberlib/main.c\<close>: \<open>main\<close> and one fiber that hand the
  thread to each other, each with counting loops in between. The conventions are those of
  \<open>Demo_Multithread\<close>: program points in the instruction pointer, local variables found
  by the base pointer, at most one call of the library at the end of a step.

  The counters are integers: they stay below \<open>2 ^ 25\<close>. The variables \<open>x\<close> are rational
  numbers; their values are multiples of one half, which \<open>float\<close> and \<open>double\<close>
  represent exactly, until \<open>0.6\<close> is added before the last comparison.

  A frame exists in memory the program owns: that of \<open>main\<close> from the start, and that of the
  fiber in the block \<open>CreateFiber\<close> allocated and cleared for it, if the base of the frame lies in
  the block. The program asks for a stack of six bytes and the stack of a fiber starts
  eight bytes below its end, so that the fiber has no frame: a run faults (\<open>None\<close>) where
  the program touches memory that is not its own.
\<close>

section \<open>Loops\<close>

text \<open>\<open>while (1) { if (counter % 10000000 == 0) { ...; break; } counter++; }\<close>, from the value
  of the counter to the value it breaks with.\<close>

partial_function (option) break_loop :: "int \<Rightarrow> int option" where
  "break_loop counter = (if counter mod 10000000 = 0 then Some counter else break_loop (counter + 1))"

text \<open>The loop that adds to \<open>x\<close> at every multiple until it exceeds 1.\<close>

partial_function (option) step_loop :: "int \<Rightarrow> rat \<Rightarrow> (int \<times> rat) option" where
  "step_loop counter x = (
     let x = (if counter mod 10000000 = 0 then x + 1 / 2 else x) in
     if x > 1 then Some (counter, x) else step_loop (counter + 1) x)"

datatype d_line =
    D_starting_main | D_converted | D_starting_function | D_ciao | D_bella rat | D_bellaaaaaaaaaaa | D_abcdefg | D_hilmnopq

function for_printf :: "int \<Rightarrow> d_line \<Rightarrow> d_line list \<Rightarrow> d_line list" where
  "for_printf counter l ls = (if counter < 10000000 then for_printf (counter + 1) l (ls @ [l]) else ls)"
  by pat_completeness auto
termination
  by (relation "measure (\<lambda>(counter, _). nat (10000000 - counter))") auto

declare for_printf.simps [simp del]

section \<open>States\<close>

datatype d_point =
    D_main | D_main_converted | D_main_created | D_main_1 | D_main_2 | D_main_3 | D_main_4
  | D_function | D_function_alloc | D_function_set | D_function_get | D_function_1 | D_function_2 | D_function_3

definition d_points :: "d_point list" where
  "d_points = [D_main, D_main_converted, D_main_created, D_main_1, D_main_2, D_main_3, D_main_4,
     D_function, D_function_alloc, D_function_set, D_function_get, D_function_1, D_function_2, D_function_3]"

record d_frame =
  d_my_fiber :: pid_t
  d_new_fiber :: pid_t
  d_index :: long
  d_l2 :: longlong
  d_counter :: int
  d_x :: rat

text \<open>A frame in cleared memory.\<close>

definition d_blank :: d_frame where
  "d_blank = \<lparr>d_my_fiber = 0, d_new_fiber = 0, d_index = 0, d_l2 = 0, d_counter = 0, d_x = 0\<rparr>"

record denv =
  d_env :: cenv
  d_code :: "d_point \<Rightarrow> ulong"
  d_stack :: "ulong option"
  d_char :: "ulong \<Rightarrow> ulong"

record demo =
  d_frames :: "ulong \<rightharpoonup> d_frame"
  d_rax :: long
  d_out :: "d_line list"
  d_exit :: "int option"
  d_proc :: pstate

definition d_print :: "d_line \<Rightarrow> demo \<Rightarrow> demo" where
  "d_print l st = st\<lparr>d_out := d_out st @ [l]\<rparr>"

definition d_put :: "ulong \<Rightarrow> d_frame \<Rightarrow> demo \<Rightarrow> demo" where
  "d_put b fr st = st\<lparr>d_frames := (d_frames st)(b \<mapsto> fr)\<rparr>"

text \<open>The addresses of the block of \<open>n\<close> bytes at \<open>stk\<close>, and the frame of a fiber whose stack it is.\<close>

definition in_block :: "ulong \<Rightarrow> ulong \<Rightarrow> ulong \<Rightarrow> bool" where
  "in_block stk n a \<longleftrightarrow> a - stk < n"

definition d_stack_frame :: "ulong option \<Rightarrow> ulong \<Rightarrow> demo \<Rightarrow> demo" where
  "d_stack_frame ostk n st = (case ostk of None \<Rightarrow> st
     | Some stk \<Rightarrow> if in_block stk n (stk + n - 8) then d_put (stk + n - 8) d_blank st else st)"

definition d_jump :: "denv \<Rightarrow> pid_t \<Rightarrow> d_point \<Rightarrow> demo \<Rightarrow> demo" where
  "d_jump D me p st = st\<lparr>d_proc := p_exec me (\<lambda>r. r\<lparr>ip := d_code D p\<rparr>) (d_proc st)\<rparr>"

definition d_returns :: "long \<times> pstate \<Rightarrow> demo \<Rightarrow> demo" where
  "d_returns = (\<lambda>(r, S) st. st\<lparr>d_rax := r, d_proc := S\<rparr>)"

text \<open>A switch from \<open>me\<close> that returns at \<open>p\<close>.\<close>

definition d_switch :: "denv \<Rightarrow> pid_t \<Rightarrow> d_point \<Rightarrow> pid_t \<Rightarrow> demo \<Rightarrow> demo option" where
  "d_switch D me p fid st = do {
     let st = d_jump D me p st;
     r \<leftarrow> p_switch (d_env D) me fid (d_proc st);
     Some (d_returns r st) }"

section \<open>The functions of the program\<close>

definition d_function_step :: "denv \<Rightarrow> pid_t \<Rightarrow> ulong \<Rightarrow> d_frame \<Rightarrow> d_point \<Rightarrow> demo \<Rightarrow> demo option" where
  "d_function_step D me b fr pt st = (case pt of
       D_function \<Rightarrow> do {
         let st = d_jump D me D_function_alloc (d_print D_starting_function st);
         r \<leftarrow> p_alloc (d_env D) me (d_proc st);
         Some (d_returns r st) }
     | D_function_alloc \<Rightarrow> do {
         let st = d_jump D me D_function_set (d_put b (fr\<lparr>d_index := d_rax st\<rparr>) st);
         S \<leftarrow> p_set (d_env D) me 123456 (d_rax st) (d_proc st);
         Some (d_returns (0, S) st) }
     | D_function_set \<Rightarrow> do {
         let st = d_jump D me D_function_get st;
         r \<leftarrow> p_get (d_env D) me (d_index fr) (d_proc st);
         Some (d_returns r st) }
     | D_function_get \<Rightarrow> do {
         counter \<leftarrow> break_loop 0;
         let st = d_print D_ciao (d_put b (fr\<lparr>d_l2 := d_rax st, d_counter := counter\<rparr>) st);
         d_switch D me D_function_1 1 st }
     | D_function_1 \<Rightarrow> do {
         (counter, x) \<leftarrow> step_loop 0 0;
         d_switch D me D_function_2 1 (d_put b (fr\<lparr>d_counter := counter, d_x := x\<rparr>) st) }
     | D_function_2 \<Rightarrow> do {
         let x = d_x fr + 3 / 5;
         let st = (if x > 3 / 2 then d_print D_bellaaaaaaaaaaa st else st);
         let st = st\<lparr>d_out := for_printf 0 D_abcdefg (d_out st)\<rparr>;
         d_switch D me D_function_3 1 (d_put b (fr\<lparr>d_counter := 10000000, d_x := x\<rparr>) st) }
     | D_function_3 \<Rightarrow> Some (st\<lparr>d_exit := Some 0\<rparr>)
     | _ \<Rightarrow> None)"

definition d_main_step :: "denv \<Rightarrow> pid_t \<Rightarrow> ulong \<Rightarrow> d_frame \<Rightarrow> d_point \<Rightarrow> demo \<Rightarrow> demo option" where
  "d_main_step D me b fr pt st = (case pt of
       D_main \<Rightarrow> do {
         let st = d_jump D me D_main_converted (d_print D_starting_main st);
         (r, S) \<leftarrow> p_convert (d_env D) me (d_proc st);
         Some (d_returns (scast r, S) st) }
     | D_main_converted \<Rightarrow> do {
         let st = d_print D_converted (d_put b (fr\<lparr>d_my_fiber := ucast (d_rax st)\<rparr>) st);
         let st = d_stack_frame (d_stack D) 6 (d_jump D me D_main_created st);
         (r, S) \<leftarrow> p_create (d_env D) (d_stack D) me (d_code D D_function) 6 (d_char D b) (d_proc st);
         Some (d_returns (scast r, S) st) }
     | D_main_created \<Rightarrow>
         d_switch D me D_main_1 (ucast (d_rax st)) (d_put b (fr\<lparr>d_new_fiber := ucast (d_rax st)\<rparr>) st)
     | D_main_1 \<Rightarrow> do {
         counter \<leftarrow> break_loop 0;
         d_switch D me D_main_2 (d_new_fiber fr)
           (d_print (D_bella 0) (d_put b (fr\<lparr>d_counter := counter, d_x := 0 + 1 / 2\<rparr>) st)) }
     | D_main_2 \<Rightarrow> do {
         counter \<leftarrow> break_loop (d_counter fr);
         d_switch D me D_main_3 (d_new_fiber fr)
           (d_print (D_bella (d_x fr)) (d_put b (fr\<lparr>d_counter := counter, d_x := d_x fr + 1 / 2\<rparr>) st)) }
     | D_main_3 \<Rightarrow>
         d_switch D me D_main_4 (d_new_fiber fr)
           (d_put b (fr\<lparr>d_counter := 10000000\<rparr>) (st\<lparr>d_out := for_printf 0 D_hilmnopq (d_out st)\<rparr>))
     | D_main_4 \<Rightarrow> Some (st\<lparr>d_exit := Some 0\<rparr>)
     | _ \<Rightarrow> None)"

definition d_step :: "denv \<Rightarrow> pid_t \<Rightarrow> demo \<Rightarrow> demo option" where
  "d_step D me st = (if d_exit st \<noteq> None then None else do {
     r \<leftarrow> p_regs (d_env D) (d_proc st) me;
     fr \<leftarrow> d_frames st (bp r);
     pt \<leftarrow> find (\<lambda>p. d_code D p = ip r) d_points;
     if pt \<in> {D_main, D_main_converted, D_main_created, D_main_1, D_main_2, D_main_3, D_main_4}
     then d_main_step D me (bp r) fr pt st else d_function_step D me (bp r) fr pt st })"

text \<open>A run of the program, to its end.\<close>

partial_function (option) d_run :: "denv \<Rightarrow> pid_t \<Rightarrow> demo \<Rightarrow> demo option" where
  "d_run D me st = (if d_exit st \<noteq> None then Some st else d_step D me st \<bind> d_run D me)"

section \<open>The loops end\<close>

lemma break_loop_next: "break_loop n = Some (n + (- n) mod 10000000)"
proof (induction "nat ((- n) mod 10000000)" arbitrary: n)
  case 0
  then have "(- n) mod 10000000 = 0" using pos_mod_sign [of 10000000 "- n"] by linarith
  then show ?case by (simp add: break_loop.simps [of n] zmod_zminus1_eq_if split: if_splits)
next
  case (Suc k)
  define m where "m = (- n) mod 10000000"
  have m: "m = int k + 1" "m < 10000000" using Suc.hyps(2) pos_mod_bound [of 10000000 "- n"] by (simp_all add: m_def)
  have succ: "(- (n + 1)) mod 10000000 = m - 1"
    using m mod_diff_left_eq [of "- n" 10000000 1] by (simp add: m_def [symmetric])
  have "n mod 10000000 \<noteq> 0" using m by (auto simp: m_def zmod_zminus1_eq_if split: if_splits)
  then have "break_loop n = break_loop (n + 1)" by (subst break_loop.simps) simp
  then show ?case using Suc.hyps(1) [of "n + 1"] succ m by (simp add: m_def [symmetric])
qed

lemma break_loop_0: "break_loop 0 = Some 0"
  using break_loop_next [of 0] by simp

lemma step_loop_skip:
  assumes "\<And>k. counter \<le> k \<Longrightarrow> k < counter + int n \<Longrightarrow> k mod 10000000 \<noteq> 0" "x \<le> 1"
  shows "step_loop counter x = step_loop (counter + int n) x"
  using assms(1)
proof (induction n)
  case (Suc n)
  have "counter + int n < counter + int (Suc n)" by simp
  then have "(counter + int n) mod 10000000 \<noteq> 0" using Suc.prems [of "counter + int n"] by simp
  then have "step_loop (counter + int n) x = step_loop (counter + int n + 1) x" using assms(2) by (subst step_loop.simps) (simp add: not_less)
  moreover have "step_loop counter x = step_loop (counter + int n) x" using Suc.prems by (intro Suc.IH) simp
  ultimately show ?case by (simp add: ac_simps)
qed simp

lemma step_loop_0: "step_loop 0 0 = Some (20000000, 3 / 2)"
proof -
  have multiple: "step_loop (10000000 * k) x = step_loop (10000000 * (k + 1)) (x + 1 / 2)" if "x + 1 / 2 \<le> 1" for k x
  proof -
    have "step_loop (10000000 * k) x = step_loop (10000000 * k + 1) (x + 1 / 2)"
      using that by (subst step_loop.simps) (simp add: not_less)
    also have "\<dots> = step_loop (10000000 * k + 1 + int 9999999) (x + 1 / 2)"
    proof (rule step_loop_skip [OF _ that])
      show "j mod 10000000 \<noteq> 0" if "10000000 * k + 1 \<le> j" "j < 10000000 * k + 1 + int 9999999" for j
      proof -
        define m where "m = j - 10000000 * k"
        have "j = m + 10000000 * k" "0 < m" "m < 10000000" using that by (simp_all add: m_def)
        then show ?thesis by (simp add: mod_pos_pos_trivial)
      qed
    qed
    finally show ?thesis by (simp add: algebra_simps)
  qed
  have "step_loop 0 0 = step_loop 20000000 1" using multiple [of 0 0] multiple [of "1 / 2" 1] by simp
  also have "\<dots> = Some (20000000, 3 / 2)" by (subst step_loop.simps) simp
  finally show ?thesis .
qed

lemma for_printf_replicate: "for_printf counter l ls = ls @ replicate (nat (10000000 - counter)) l"
proof (induction counter l ls rule: for_printf.induct)
  case (1 counter l ls)
  show ?case
  proof (cases "counter < 10000000")
    case True
    then have "nat (10000000 - counter) = Suc (nat (10000000 - (counter + 1)))" by simp
    then show ?thesis using 1 True by (simp add: for_printf.simps [of counter])
  qed (simp add: for_printf.simps)
qed

definition lines_of :: "d_line \<Rightarrow> d_line list" where
  "lines_of l = replicate 10000000 l"

lemma for_printf_0: "for_printf 0 l ls = ls @ lines_of l"
  unfolding for_printf_replicate lines_of_def by (simp only: diff_zero nat_numeral)

section \<open>Handing over the thread\<close>

text \<open>The two contexts of the program while the thread runs the fiber \<open>g\<close>: \<open>main\<close> is the
  fiber 1 and waits at, or runs from, the point \<open>p1\<close> in the frame \<open>b1\<close>, and likewise for the
  other, whose first slot holds \<open>v\<close>.\<close>

definition at_point :: "denv \<Rightarrow> fctx \<Rightarrow> d_point \<Rightarrow> ulong \<Rightarrow> bool" where
  "at_point D c p b \<longleftrightarrow> ip (c_regs c) = d_code D p \<and> bp (c_regs c) = b"

definition slot0 :: "fctx \<Rightarrow> longlong option" where
  "slot0 c = (if c_used c 0 then Some (c_vals c 0) else None)"

record d_view =
  v_1 :: d_point
  v_2 :: d_point
  v_b1 :: ulong
  v_b2 :: ulong
  v_slot :: "longlong option"

definition both :: "denv \<Rightarrow> pid_t \<Rightarrow> pid_t \<Rightarrow> d_view \<Rightarrow> pstate \<Rightarrow> bool" where
  "both D me g v S \<longleftrightarrow> p_ok (d_env D) S \<and> p_runs (d_env D) S = [me \<mapsto> g] \<and> (g = 1 \<or> g = 2) \<and>
     (\<exists>c1 c2. p_ctx (d_env D) S = [1 \<mapsto> c1, 2 \<mapsto> c2] \<and> at_point D c1 (v_1 v) (v_b1 v) \<and> at_point D c2 (v_2 v) (v_b2 v) \<and>
       slot0 c2 = v_slot v)"

lemma bothE:
  assumes "both D me g v S"
  obtains c1 c2 where "p_ok (d_env D) S" "p_runs (d_env D) S = [me \<mapsto> g]" "g = 1 \<or> g = 2" "p_ctx (d_env D) S = [1 \<mapsto> c1, 2 \<mapsto> c2]"
    "at_point D c1 (v_1 v) (v_b1 v)" "at_point D c2 (v_2 v) (v_b2 v)" "slot0 c2 = v_slot v"
  using assms by (auto simp: both_def)

lemma bothI:
  assumes "p_ok (d_env D) S" "p_runs (d_env D) S = [me \<mapsto> g]" "g = 1 \<or> g = 2" "p_ctx (d_env D) S = [1 \<mapsto> c1, 2 \<mapsto> c2]"
    "at_point D c1 (v_1 v) (v_b1 v)" "at_point D c2 (v_2 v) (v_b2 v)" "slot0 c2 = v_slot v"
  shows "both D me g v S"
  using assms by (auto simp: both_def)

definition v_at :: "pid_t \<Rightarrow> d_point \<Rightarrow> d_view \<Rightarrow> d_view" where
  "v_at g p v = (if g = 1 then v\<lparr>v_1 := p\<rparr> else v\<lparr>v_2 := p\<rparr>)"

lemma both_regs:
  assumes "both D me g v S"
  shows "\<exists>r. p_regs (d_env D) S me = Some r \<and> ip r = d_code D (if g = 1 then v_1 v else v_2 v) \<and>
    bp r = (if g = 1 then v_b1 v else v_b2 v)"
proof -
  obtain c where "p_ctx (d_env D) S g = Some c" "p_regs (d_env D) S me = Some (c_regs c)"
    using assms lib.runs_regs [of "d_env D" S me g] by (auto simp: both_def)
  then show ?thesis using assms by (auto simp: both_def at_point_def split: if_splits)
qed

lemma both_jump:
  assumes "both D me g v S"
  shows "both D me g (v_at g p v) (p_exec me (\<lambda>r. r\<lparr>ip := d_code D p\<rparr>) S)"
  using assms
proof (rule bothE)
  fix c1 c2
  assume c: "p_ok (d_env D) S" "p_runs (d_env D) S = [me \<mapsto> g]" "g = 1 \<or> g = 2" "p_ctx (d_env D) S = [1 \<mapsto> c1, 2 \<mapsto> c2]"
    "at_point D c1 (v_1 v) (v_b1 v)" "at_point D c2 (v_2 v) (v_b2 v)" "slot0 c2 = v_slot v"
  define u :: "pt_regs \<Rightarrow> pt_regs" where "u = (\<lambda>r. r\<lparr>ip := d_code D p\<rparr>)"
  consider "g = 1" | "g = 2" using c(3) by blast
  then show ?thesis
  proof cases
    case 1
    then have "both D me g (v_at g p v) (p_exec me u S)"
      using c lib.exec_run [OF c(1), of me 1 c1 u]
      by (intro bothI [of _ _ _ _ "c1\<lparr>c_regs := u (c_regs c1)\<rparr>" c2]) (auto simp: at_point_def v_at_def u_def fun_upd_twist)
    then show ?thesis by (simp add: u_def)
  next
    case 2
    then have "both D me g (v_at g p v) (p_exec me u S)"
      using c lib.exec_run [OF c(1), of me 2 c2 u]
      by (intro bothI [of _ _ _ _ c1 "c2\<lparr>c_regs := u (c_regs c2)\<rparr>"]) (auto simp: at_point_def v_at_def u_def slot0_def)
    then show ?thesis by (simp add: u_def)
  qed
qed

lemma both_switch:
  assumes "both D me g v S" "h = 3 - g"
  shows "\<exists>S'. p_switch (d_env D) me h S = Some (0, S') \<and> both D me h v S'"
  using assms(1)
proof (rule bothE)
  fix c1 c2
  assume c: "p_ok (d_env D) S" "p_runs (d_env D) S = [me \<mapsto> g]" "g = 1 \<or> g = 2" "p_ctx (d_env D) S = [1 \<mapsto> c1, 2 \<mapsto> c2]"
    "at_point D c1 (v_1 v) (v_b1 v)" "at_point D c2 (v_2 v) (v_b2 v)" "slot0 c2 = v_slot v"
  have "p_ctx (d_env D) S h = Some (if h = 1 then c1 else c2)" "h \<notin> ran (p_runs (d_env D) S)" "h = 1 \<or> h = 2"
    using c(2-4) assms(2) by auto
  then show ?thesis
    using lib.switch_free [OF c(1), of me h "if h = 1 then c1 else c2"] c by (fastforce simp: both_def)
qed

text \<open>The storage of the fiber 2.\<close>

lemma both_alloc:
  assumes "both D me 2 v S" "v_slot v = None"
  shows "\<exists>S' x. p_alloc (d_env D) me S = Some (0, S') \<and> both D me 2 (v\<lparr>v_slot := Some x\<rparr>) S'"
  using assms(1)
proof (rule bothE)
  fix c1 c2
  assume c: "p_ok (d_env D) S" "p_runs (d_env D) S = [me \<mapsto> 2]" "p_ctx (d_env D) S = [1 \<mapsto> c1, 2 \<mapsto> c2]"
    "at_point D c1 (v_1 v) (v_b1 v)" "at_point D c2 (v_2 v) (v_b2 v)" "slot0 c2 = v_slot v"
  then have "\<not> c_used c2 0" using assms(2) by (simp add: slot0_def split: if_splits)
  then obtain S' where "p_alloc (d_env D) me S = Some (0, S')" "p_ok (d_env D) S'" "p_runs (d_env D) S' = [me \<mapsto> 2]"
      "p_ctx (d_env D) S' = [1 \<mapsto> c1, 2 \<mapsto> c2\<lparr>c_used := (c_used c2)(0 := True)\<rparr>]"
    using lib.alloc_slot [OF c(1), of me 2 c2 0] c(2,3) by (auto simp: MAX_FLS_POINTERS_def)
  then show ?thesis
    using c by (intro exI [of _ S'] exI [of _ "c_vals c2 0"] conjI bothI [of _ _ _ _ c1 "c2\<lparr>c_used := (c_used c2)(0 := True)\<rparr>"])
      (auto simp: at_point_def slot0_def)
qed

lemma both_set:
  assumes "both D me 2 v S" "v_slot v = Some y"
  shows "\<exists>S'. p_set (d_env D) me x 0 S = Some S' \<and> both D me 2 (v\<lparr>v_slot := Some x\<rparr>) S'"
  using assms(1)
proof (rule bothE)
  fix c1 c2
  assume c: "p_ok (d_env D) S" "p_runs (d_env D) S = [me \<mapsto> 2]" "p_ctx (d_env D) S = [1 \<mapsto> c1, 2 \<mapsto> c2]"
    "at_point D c1 (v_1 v) (v_b1 v)" "at_point D c2 (v_2 v) (v_b2 v)" "slot0 c2 = v_slot v"
  then have "c_used c2 0" using assms(2) by (simp add: slot0_def split: if_splits)
  moreover from this obtain S' where "p_set (d_env D) me x 0 S = Some S'" "p_ok (d_env D) S'" "p_runs (d_env D) S' = [me \<mapsto> 2]"
      "p_ctx (d_env D) S' = [1 \<mapsto> c1, 2 \<mapsto> c2\<lparr>c_vals := (c_vals c2)(0 := x)\<rparr>]"
    using lib.set_slot [OF c(1), of me 2 c2 0 x] c(2,3) by (auto simp: MAX_FLS_POINTERS_def)
  ultimately show ?thesis
    using c by (intro exI [of _ S'] conjI bothI [of _ _ _ _ c1 "c2\<lparr>c_vals := (c_vals c2)(0 := x)\<rparr>"])
      (auto simp: at_point_def slot0_def)
qed

lemma both_get:
  assumes "both D me 2 v S" "v_slot v = Some x"
  shows "\<exists>S'. p_get (d_env D) me 0 S = Some (x, S') \<and> both D me 2 v S'"
  using assms(1)
proof (rule bothE)
  fix c1 c2
  assume c: "p_ok (d_env D) S" "p_runs (d_env D) S = [me \<mapsto> 2]" "p_ctx (d_env D) S = [1 \<mapsto> c1, 2 \<mapsto> c2]"
    "at_point D c1 (v_1 v) (v_b1 v)" "at_point D c2 (v_2 v) (v_b2 v)" "slot0 c2 = v_slot v"
  then have "c_used c2 0" "c_vals c2 0 = x" using assms(2) by (auto simp: slot0_def split: if_splits)
  then show ?thesis
    using lib.get_slot [OF c(1), of me 2 c2 0] c by (auto simp: MAX_FLS_POINTERS_def intro!: bothI)
qed

section \<open>The run\<close>

definition demo_at :: "denv \<Rightarrow> pid_t \<Rightarrow> pid_t \<Rightarrow> d_view \<Rightarrow> d_frame \<Rightarrow> d_frame \<Rightarrow> d_line list \<Rightarrow> demo \<Rightarrow> bool" where
  "demo_at D me g v f1 f2 ls st \<longleftrightarrow> both D me g v (d_proc st) \<and> d_exit st = None \<and> d_out st = ls \<and>
     v_b1 v \<noteq> v_b2 v \<and> d_frames st (v_b1 v) = Some f1 \<and> d_frames st (v_b2 v) = Some f2"

lemma d_point_find: "inj (d_code D) \<Longrightarrow> find (\<lambda>q. d_code D q = d_code D p) d_points = Some p"
  by (cases p) (simp_all add: d_points_def inj_eq)

lemma d_step_point:
  assumes "inj (d_code D)" "d_exit st = None" "p_regs (d_env D) (d_proc st) me = Some r" "ip r = d_code D p" "d_frames st (bp r) = Some fr"
  shows "d_step D me st = (if p \<in> {D_main, D_main_converted, D_main_created, D_main_1, D_main_2, D_main_3, D_main_4}
    then d_main_step D me (bp r) fr p st else d_function_step D me (bp r) fr p st)"
  using assms d_point_find [OF assms(1)] by (simp add: d_step_def)

lemma d_step_at:
  assumes "inj (d_code D)" "demo_at D me g v f1 f2 ls st"
  shows "d_step D me st = (let p = (if g = 1 then v_1 v else v_2 v); b = (if g = 1 then v_b1 v else v_b2 v);
      fr = (if g = 1 then f1 else f2) in
    if p \<in> {D_main, D_main_converted, D_main_created, D_main_1, D_main_2, D_main_3, D_main_4}
    then d_main_step D me b fr p st else d_function_step D me b fr p st)"
proof -
  obtain r where "p_regs (d_env D) (d_proc st) me = Some r" "ip r = d_code D (if g = 1 then v_1 v else v_2 v)"
      "bp r = (if g = 1 then v_b1 v else v_b2 v)"
    using both_regs assms(2) unfolding demo_at_def by blast
  then show ?thesis
    using assms d_step_point [OF assms(1)] by (simp add: demo_at_def Let_def)
qed

lemma d_run_step: "d_exit st = None \<Longrightarrow> d_step D me st = Some st' \<Longrightarrow> d_run D me st = d_run D me st'"
  by (subst d_run.simps) simp

lemma d_run_exit: "d_exit st \<noteq> None \<Longrightarrow> d_run D me st = Some st"
  by (subst d_run.simps) simp

text \<open>A hand-over in a state whose frames and output have been updated.\<close>

lemma d_switch_at:
  assumes "demo_at D me g v f1 f2 ls st" "h = 3 - g"
  obtains st' where "d_switch D me p h st = Some st'" "demo_at D me h (v_at g p v) f1 f2 ls st'"
proof -
  from assms(1) obtain S' where
      "p_switch (d_env D) me h (p_exec me (\<lambda>r. r\<lparr>ip := d_code D p\<rparr>) (d_proc st)) = Some (0, S')" "both D me h (v_at g p v) S'"
    using both_switch [OF both_jump assms(2)] unfolding demo_at_def by blast
  then show ?thesis
    using assms that [of "st\<lparr>d_rax := 0, d_proc := S'\<rparr>"] by (auto simp: d_switch_def d_jump_def d_returns_def demo_at_def v_at_def)
qed

lemma demo_at_print [simp]: "demo_at D me g v f1 f2 (ls @ [l]) (d_print l st) \<longleftrightarrow> demo_at D me g v f1 f2 ls st"
  by (simp add: demo_at_def d_print_def)

lemma demo_at_put:
  assumes "demo_at D me g v f1 f2 ls st"
  shows "demo_at D me g v fr f2 ls (d_put (v_b1 v) fr st)" "demo_at D me g v f1 fr ls (d_put (v_b2 v) fr st)"
  using assms by (auto simp: demo_at_def d_put_def)

lemma demo_at_out: "demo_at D me g v f1 f2 ls st \<Longrightarrow> demo_at D me g v f1 f2 ls' (st\<lparr>d_out := ls'\<rparr>)"
  by (simp add: demo_at_def)

text \<open>The parts of the two functions between two hand-overs.\<close>

definition leads :: "denv \<Rightarrow> pid_t \<Rightarrow> (demo \<Rightarrow> bool) \<Rightarrow> demo \<Rightarrow> bool" where
  "leads D me P st \<longleftrightarrow> (\<exists>st'. d_run D me st = d_run D me st' \<and> P st')"

lemma leads_step: "d_exit st = None \<Longrightarrow> d_step D me st = Some st' \<Longrightarrow> leads D me P st' \<Longrightarrow> leads D me P st"
  using d_run_step [of st D me st'] by (auto simp: leads_def)

lemma leads_here: "P st \<Longrightarrow> leads D me P st"
  by (auto simp: leads_def)

lemma leads_trans: "leads D me P st \<Longrightarrow> (\<And>st'. P st' \<Longrightarrow> leads D me Q st') \<Longrightarrow> leads D me Q st"
  unfolding leads_def by metis

lemma hand_over:
  assumes "demo_at D me g v f1 f2 ls st" "d_step D me st = d_switch D me p h stx" "demo_at D me g v f1' f2' ls' stx" "h = 3 - g"
    "v' = v_at g p v"
  shows "leads D me (demo_at D me h v' f1' f2' ls') st"
proof -
  obtain st' where "d_switch D me p h stx = Some st'" "demo_at D me h v' f1' f2' ls' st'"
    by (rule d_switch_at [OF assms(3,4)]) (use assms(5) in blast)
  then show ?thesis
    using assms(1,2) by (intro leads_step [of st D me st'] leads_here) (simp_all add: demo_at_def)
qed

lemma main_leg_1:
  assumes "inj (d_code D)" "demo_at D me 1 v f1 f2 ls st" "d_new_fiber f1 = 2" "v_1 v = D_main_1"
  shows "leads D me (demo_at D me 2 (v\<lparr>v_1 := D_main_2\<rparr>) (f1\<lparr>d_counter := 0, d_x := 1 / 2\<rparr>) f2 (ls @ [D_bella 0])) st"
  by (rule hand_over [OF assms(2), where p = D_main_2 and stx = "d_print (D_bella 0) (d_put (v_b1 v) (f1\<lparr>d_counter := 0, d_x := 1 / 2\<rparr>) st)"])
    (use assms demo_at_put(1) [OF assms(2)] in \<open>simp_all add: d_step_at [OF assms(1,2)] d_main_step_def break_loop_0 v_at_def\<close>)

lemma main_leg_2:
  assumes "inj (d_code D)" "demo_at D me 1 v f1 f2 ls st" "d_new_fiber f1 = 2" "v_1 v = D_main_2" "d_counter f1 = 0"
  shows "leads D me (demo_at D me 2 (v\<lparr>v_1 := D_main_3\<rparr>) (f1\<lparr>d_counter := 0, d_x := d_x f1 + 1 / 2\<rparr>) f2 (ls @ [D_bella (d_x f1)])) st"
  by (rule hand_over [OF assms(2), where p = D_main_3 and
        stx = "d_print (D_bella (d_x f1)) (d_put (v_b1 v) (f1\<lparr>d_counter := 0, d_x := d_x f1 + 1 / 2\<rparr>) st)"])
    (use assms demo_at_put(1) [OF assms(2)] in \<open>simp_all add: d_step_at [OF assms(1,2)] d_main_step_def break_loop_0 v_at_def\<close>)

lemma main_leg_3:
  assumes "inj (d_code D)" "demo_at D me 1 v f1 f2 ls st" "d_new_fiber f1 = 2" "v_1 v = D_main_3"
  shows "leads D me (demo_at D me 2 (v\<lparr>v_1 := D_main_4\<rparr>) (f1\<lparr>d_counter := 10000000\<rparr>) f2 (ls @ lines_of D_hilmnopq)) st"
proof (rule hand_over [OF assms(2), where p = D_main_4 and
      stx = "d_put (v_b1 v) (f1\<lparr>d_counter := 10000000\<rparr>) (st\<lparr>d_out := for_printf 0 D_hilmnopq (d_out st)\<rparr>)"])
  have "d_out st = ls" using assms(2) by (simp add: demo_at_def)
  then show "demo_at D me 1 v (f1\<lparr>d_counter := 10000000\<rparr>) f2 (ls @ lines_of D_hilmnopq)
      (d_put (v_b1 v) (f1\<lparr>d_counter := 10000000\<rparr>) (st\<lparr>d_out := for_printf 0 D_hilmnopq (d_out st)\<rparr>))"
    using demo_at_put(1) [OF demo_at_out [OF assms(2)]] by (simp add: for_printf_0)
qed (use assms in \<open>simp_all add: d_step_at [OF assms(1,2)] d_main_step_def v_at_def\<close>)

lemma function_leg_1:
  assumes "inj (d_code D)" "demo_at D me 2 v f1 f2 ls st" "v_2 v = D_function_get"
  shows "leads D me (demo_at D me 1 (v\<lparr>v_2 := D_function_1\<rparr>) f1 (f2\<lparr>d_l2 := d_rax st, d_counter := 0\<rparr>) (ls @ [D_ciao])) st"
  by (rule hand_over [OF assms(2), where p = D_function_1 and stx = "d_print D_ciao (d_put (v_b2 v) (f2\<lparr>d_l2 := d_rax st, d_counter := 0\<rparr>) st)"])
    (use assms demo_at_put(2) [OF assms(2)] in \<open>simp_all add: d_step_at [OF assms(1,2)] d_function_step_def break_loop_0 v_at_def\<close>)

lemma function_leg_2:
  assumes "inj (d_code D)" "demo_at D me 2 v f1 f2 ls st" "v_2 v = D_function_1"
  shows "leads D me (demo_at D me 1 (v\<lparr>v_2 := D_function_2\<rparr>) f1 (f2\<lparr>d_counter := 20000000, d_x := 3 / 2\<rparr>) ls) st"
  by (rule hand_over [OF assms(2), where p = D_function_2 and stx = "d_put (v_b2 v) (f2\<lparr>d_counter := 20000000, d_x := 3 / 2\<rparr>) st"])
    (use assms demo_at_put(2) [OF assms(2)] in \<open>simp_all add: d_step_at [OF assms(1,2)] d_function_step_def step_loop_0 v_at_def\<close>)

lemma function_leg_3:
  assumes "inj (d_code D)" "demo_at D me 2 v f1 f2 ls st" "v_2 v = D_function_2" "d_x f2 = 3 / 2"
  shows "leads D me (demo_at D me 1 (v\<lparr>v_2 := D_function_3\<rparr>) f1 (f2\<lparr>d_counter := 10000000, d_x := 21 / 10\<rparr>)
      (ls @ [D_bellaaaaaaaaaaa] @ lines_of D_abcdefg)) st"
proof (rule hand_over [OF assms(2), where p = D_function_3 and
      stx = "d_put (v_b2 v) (f2\<lparr>d_counter := 10000000, d_x := 21 / 10\<rparr>) (st\<lparr>d_out := for_printf 0 D_abcdefg (d_out st @ [D_bellaaaaaaaaaaa])\<rparr>)"])
  have "d_out st = ls" using assms(2) by (simp add: demo_at_def)
  then show "demo_at D me 2 v f1 (f2\<lparr>d_counter := 10000000, d_x := 21 / 10\<rparr>) (ls @ [D_bellaaaaaaaaaaa] @ lines_of D_abcdefg)
      (d_put (v_b2 v) (f2\<lparr>d_counter := 10000000, d_x := 21 / 10\<rparr>) (st\<lparr>d_out := for_printf 0 D_abcdefg (d_out st @ [D_bellaaaaaaaaaaa])\<rparr>))"
    using demo_at_put(2) [OF demo_at_out [OF assms(2)]] by (simp add: for_printf_0)
qed (use assms(1-3) in \<open>simp_all add: d_step_at [OF assms(1,2)] d_function_step_def v_at_def d_print_def assms(4)\<close>)

lemma function_leg_4:
  assumes "inj (d_code D)" "demo_at D me 2 v f1 f2 ls st" "v_2 v = D_function_3"
  shows "d_run D me st = Some (st\<lparr>d_exit := Some 0\<rparr>)"
  using assms d_run_step [of st D me "st\<lparr>d_exit := Some 0\<rparr>"] d_run_exit [of "st\<lparr>d_exit := Some 0\<rparr>" D me]
  by (simp add: d_step_at [OF assms(1,2)] d_function_step_def demo_at_def)

text \<open>The storage calls of \<open>function\<close>.\<close>

lemma leads_at:
  assumes "demo_at D me g v f1 f2 ls st" "d_step D me st = Some (stx\<lparr>d_rax := x, d_proc := S\<rparr>)" "both D me g v' S"
    "demo_at D me g v f1' f2' ls' stx" "v_b1 v' = v_b1 v" "v_b2 v' = v_b2 v"
  shows "leads D me (\<lambda>st'. demo_at D me g v' f1' f2' ls' st' \<and> d_rax st' = x) st"
  using assms by (intro leads_step [OF _ assms(2)] leads_here) (simp_all add: demo_at_def)

lemma storage_leg_1:
  assumes "inj (d_code D)" "demo_at D me 2 v f1 f2 ls st" "v_2 v = D_function" "v_slot v = None"
  shows "\<exists>x. leads D me (\<lambda>st'. demo_at D me 2 (v\<lparr>v_2 := D_function_alloc, v_slot := Some x\<rparr>) f1 f2 (ls @ [D_starting_function]) st' \<and>
    d_rax st' = 0) st"
proof -
  have b: "both D me 2 v (d_proc st)" using assms(2) by (simp add: demo_at_def)
  obtain S x where "p_alloc (d_env D) me (p_exec me (\<lambda>r. r\<lparr>ip := d_code D D_function_alloc\<rparr>) (d_proc st)) = Some (0, S)"
      "both D me 2 (v\<lparr>v_2 := D_function_alloc, v_slot := Some x\<rparr>) S"
    using both_alloc [OF both_jump [OF b, of D_function_alloc]] assms(4) by (auto simp: v_at_def)
  then show ?thesis
    using assms by (intro exI [of _ x] leads_at [OF assms(2), where stx = "d_print D_starting_function st" and S = S])
      (simp_all add: d_step_at [OF assms(1,2)] d_function_step_def d_jump_def d_returns_def d_print_def demo_at_def)
qed

lemma storage_leg_2:
  assumes "inj (d_code D)" "demo_at D me 2 v f1 f2 ls st" "v_2 v = D_function_alloc" "v_slot v = Some y" "d_rax st = 0"
  shows "leads D me (\<lambda>st'. demo_at D me 2 (v\<lparr>v_2 := D_function_set, v_slot := Some 123456\<rparr>) f1 (f2\<lparr>d_index := 0\<rparr>) ls st' \<and>
    d_rax st' = 0) st"
proof -
  have b: "both D me 2 v (d_proc st)" using assms(2) by (simp add: demo_at_def)
  obtain S where "p_set (d_env D) me 123456 0 (p_exec me (\<lambda>r. r\<lparr>ip := d_code D D_function_set\<rparr>) (d_proc st)) = Some S"
      "both D me 2 (v\<lparr>v_2 := D_function_set, v_slot := Some 123456\<rparr>) S"
    using both_set [OF both_jump [OF b, of D_function_set], of y 123456] assms(4) by (auto simp: v_at_def)
  then show ?thesis
    using assms demo_at_put(2) [OF assms(2)] by (intro leads_at [OF assms(2), where stx = "d_put (v_b2 v) (f2\<lparr>d_index := 0\<rparr>) st" and S = S])
      (simp_all add: d_step_at [OF assms(1,2)] d_function_step_def d_jump_def d_returns_def d_put_def)
qed

lemma storage_leg_3:
  assumes "inj (d_code D)" "demo_at D me 2 v f1 f2 ls st" "v_2 v = D_function_set" "v_slot v = Some x" "d_index f2 = 0"
  shows "leads D me (\<lambda>st'. demo_at D me 2 (v\<lparr>v_2 := D_function_get\<rparr>) f1 f2 ls st' \<and> d_rax st' = x) st"
proof -
  have b: "both D me 2 v (d_proc st)" using assms(2) by (simp add: demo_at_def)
  obtain S where "p_get (d_env D) me 0 (p_exec me (\<lambda>r. r\<lparr>ip := d_code D D_function_get\<rparr>) (d_proc st)) = Some (x, S)"
      "both D me 2 (v\<lparr>v_2 := D_function_get\<rparr>) S"
    using both_get [OF both_jump [OF b, of D_function_get], of x] assms(4) by (auto simp: v_at_def)
  then show ?thesis
    using assms by (intro leads_at [OF assms(2), where stx = st and S = S])
      (simp_all add: d_step_at [OF assms(1,2)] d_function_step_def d_jump_def d_returns_def)
qed

section \<open>The start\<close>

text \<open>One thread at the entry of \<open>main\<close>, in a process that has not used the module, and
  \<open>posix_memalign\<close> grants the stack. The only frame is that of \<open>main\<close>; it is not the memory just
  before the block, where the allocator keeps its own data.\<close>

definition d_initial :: "denv \<Rightarrow> pid_t \<Rightarrow> ulong \<Rightarrow> ulong \<Rightarrow> demo \<Rightarrow> bool" where
  "d_initial D me b stk st \<longleftrightarrow> p_ok (d_env D) (d_proc st) \<and> inj (d_code D) \<and> d_exit st = None \<and> d_out st = [] \<and>
     p_runs (d_env D) (d_proc st) = Map.empty \<and> p_ctx (d_env D) (d_proc st) = Map.empty \<and>
     (\<exists>r. p_regs (d_env D) (d_proc st) me = Some r \<and> ip r = d_code D D_main \<and> bp r = b) \<and>
     d_stack D = Some stk \<and> b \<noteq> stk - 2 \<and> dom (d_frames st) = {b}"

text \<open>While the thread is converted and the fiber is created, \<open>kmalloc\<close> finds memory.\<close>

definition d_memory :: "denv \<Rightarrow> pid_t \<Rightarrow> demo \<Rightarrow> bool" where
  "d_memory D me st \<longleftrightarrow> memory_left (e_api (d_env D)) (snd (d_proc st)) \<and>
     (case d_step D me st of None \<Rightarrow> True | Some st' \<Rightarrow> memory_left (e_api (d_env D)) (snd (d_proc st')))"

lemma memory_left_exec [simp]: "memory_left K (snd (p_exec me u S)) = memory_left K (snd S)"
proof -
  have "is_live (set_task s me cur) = is_live s" "allocs (set_task s me cur) = allocs s" for s cur
    by (simp_all add: set_task_def is_live_def fun_eq_iff)
  then show ?thesis by (simp add: p_exec_def memory_left_def two_blocks_def split: option.split)
qed

text \<open>\<open>main\<close> has become the fiber 1.\<close>

definition converted :: "denv \<Rightarrow> pid_t \<Rightarrow> ulong \<Rightarrow> demo \<Rightarrow> bool" where
  "converted D me b st \<longleftrightarrow> p_ok (d_env D) (d_proc st) \<and> p_runs (d_env D) (d_proc st) = [me \<mapsto> 1] \<and>
     (\<exists>c. p_ctx (d_env D) (d_proc st) = [1 \<mapsto> c] \<and> at_point D c D_main_converted b) \<and>
     d_rax st = 1 \<and> d_out st = [D_starting_main] \<and> d_exit st = None"

lemma start_leg_1:
  assumes init: "d_initial D me b stk st" and mem: "d_memory D me st"
  obtains st' where "d_step D me st = Some st'" "converted D me b st'" "d_frames st' = d_frames st"
    "memory_left (e_api (d_env D)) (snd (d_proc st'))"
proof -
  let ?E = "d_env D" and ?S = "p_exec me (\<lambda>r. r\<lparr>ip := d_code D D_main_converted\<rparr>) (d_proc st)"
  obtain r where r: "p_regs ?E (d_proc st) me = Some r" "ip r = d_code D D_main" "bp r = b"
    using init by (auto simp: d_initial_def)
  obtain fr where fr: "d_frames st b = Some fr" using init by (auto simp: d_initial_def dom_def set_eq_iff)
  have ok: "p_ok ?E ?S" "p_runs ?E ?S = Map.empty" "p_ctx ?E ?S = Map.empty"
      "p_regs ?E ?S me = Some (r\<lparr>ip := d_code D D_main_converted\<rparr>)"
    using init lib.exec_idle [of ?E "d_proc st" me r "\<lambda>r. r\<lparr>ip := d_code D D_main_converted\<rparr>"] r(1) by (auto simp: d_initial_def)
  obtain fid S' where c: "p_convert ?E me ?S = Some (fid, S')"
    using lib_returns(1) [OF ok(1), of me] mem ok(4) by (auto simp: d_memory_def)
  have "p_room ?E me ?S" using p_room_count [OF ok(1), of me] ok(3,4) by simp
  note new = lib_convert [OF ok(1,4) _ this c]
  define st' where "st' = st\<lparr>d_out := [D_starting_main], d_rax := scast fid, d_proc := S'\<rparr>"
  have step: "d_step D me st = Some st'"
    using d_step_point [of D st me r D_main fr] init r fr c
    by (simp add: d_initial_def d_main_step_def d_jump_def d_print_def d_returns_def st'_def)
  moreover have "converted D me b st'" using new ok(2,3) r(3) init by (auto simp: converted_def st'_def at_point_def d_initial_def)
  moreover have "memory_left (e_api ?E) (snd (d_proc st'))" using mem step by (simp add: d_memory_def)
  ultimately show ?thesis using that by (simp add: st'_def)
qed

text \<open>Six bytes have no room for a frame.\<close>

lemma no_stack_frame [simp]: "d_stack_frame (Some stk) 6 st = st" "\<not> in_block stk 6 (stk - 2)"
  by (simp_all add: d_stack_frame_def in_block_def word_less_def)

text \<open>\<open>main\<close> has created the fiber 2, whose stack pointer is below the block.\<close>

definition created :: "denv \<Rightarrow> pid_t \<Rightarrow> ulong \<Rightarrow> ulong \<Rightarrow> demo \<Rightarrow> bool" where
  "created D me b stk st \<longleftrightarrow> p_ok (d_env D) (d_proc st) \<and> p_runs (d_env D) (d_proc st) = [me \<mapsto> 1] \<and>
     (\<exists>c1 c2. p_ctx (d_env D) (d_proc st) = [1 \<mapsto> c1, 2 \<mapsto> c2] \<and> at_point D c1 D_main_created b \<and>
       at_point D c2 D_function (stk - 2) \<and> sp (c_regs c2) = stk - 2) \<and>
     d_rax st = 2 \<and> d_out st = [D_starting_main, D_converted] \<and> d_exit st = None"

lemma start_leg_2:
  assumes conv: "converted D me b st" and inj: "inj (d_code D)" and stk: "d_stack D = Some stk"
    and mem: "memory_left (e_api (d_env D)) (snd (d_proc st))" and fr: "d_frames st b = Some f1"
  obtains st' where "d_step D me st = Some st'" "created D me b stk st'" "d_frames st' = (d_frames st)(b \<mapsto> f1\<lparr>d_my_fiber := 1\<rparr>)"
proof -
  let ?E = "d_env D" and ?u = "\<lambda>r. r\<lparr>ip := d_code D D_main_created\<rparr>"
  let ?S = "p_exec me ?u (d_proc st)"
  obtain c where c: "p_ok ?E (d_proc st)" "p_runs ?E (d_proc st) = [me \<mapsto> 1]" "p_ctx ?E (d_proc st) = [1 \<mapsto> c]"
      "at_point D c D_main_converted b" "d_rax st = 1" "d_out st = [D_starting_main]" "d_exit st = None"
    using conv by (auto simp: converted_def)
  have r: "p_regs ?E (d_proc st) me = Some (c_regs c)" using lib.runs_regs [OF c(1), of me 1] c(2,3) by auto
  have ok: "p_ok ?E ?S" "p_runs ?E ?S = [me \<mapsto> 1]" "p_ctx ?E ?S = [1 \<mapsto> c\<lparr>c_regs := ?u (c_regs c)\<rparr>]"
      "p_regs ?E ?S me = Some (?u (c_regs c))"
    using lib.exec_run [OF c(1), of me 1 c ?u] c(2,3) by auto
  obtain fid S' where n: "p_create ?E (Some stk) me (d_code D D_function) 6 (d_char D b) ?S = Some (fid, S')"
    using lib_returns(2) [OF ok(1), of me stk "d_code D D_function" 6 "d_char D b"] mem ok(4) by auto
  have "p_room ?E me ?S" using p_room_count [OF ok(1), of me] ok(3,4) by simp
  note new = lib_create [OF ok(1,4) _ this n]
  define st' where "st' = st\<lparr>d_out := d_out st @ [D_converted], d_frames := (d_frames st)(b \<mapsto> f1\<lparr>d_my_fiber := 1\<rparr>),
    d_rax := scast fid, d_proc := S'\<rparr>"
  have step: "d_step D me st = Some st'"
    using d_step_point [OF inj c(7) r, of D_main_converted f1] c(4,5,7) fr n stk
    by (simp add: d_main_step_def d_jump_def d_print_def d_put_def d_returns_def st'_def at_point_def)
  have fid: "fid = 2" using new ok(2,3) by simp
  obtain c2 where "p_ok ?E S'" "p_runs ?E S' = [me \<mapsto> 1]" "p_ctx ?E S' = [1 \<mapsto> c\<lparr>c_regs := ?u (c_regs c)\<rparr>, 2 \<mapsto> c2]"
      "c_regs c2 = (?u (c_regs c))\<lparr>sp := stk + 6 - 8, bp := stk + 6 - 8, ip := d_code D D_function, di := d_char D b\<rparr>"
    using new ok(2,3) fid by auto
  then have "created D me b stk st'"
    using c(4,6,7) fid unfolding created_def
    by (intro conjI exI [of _ "c\<lparr>c_regs := ?u (c_regs c)\<rparr>"] exI [of _ c2]) (simp_all add: st'_def at_point_def)
  then show ?thesis using that [OF step] by (simp add: st'_def)
qed

lemma start_leg_3:
  assumes cr: "created D me b stk st" and inj: "inj (d_code D)" and fr: "d_frames st b = Some f1"
  obtains st' r where "d_step D me st = Some st'" "p_runs (d_env D) (d_proc st') = [me \<mapsto> 2]"
    "p_regs (d_env D) (d_proc st') me = Some r" "ip r = d_code D D_function" "sp r = stk - 2" "bp r = stk - 2"
    "d_out st' = [D_starting_main, D_converted]" "d_exit st' = None" "d_frames st' = (d_frames st)(b \<mapsto> f1\<lparr>d_new_fiber := 2\<rparr>)"
proof -
  let ?E = "d_env D" and ?u = "\<lambda>r. r\<lparr>ip := d_code D D_main_1\<rparr>"
  let ?S = "p_exec me ?u (d_proc st)"
  obtain c1 c2 where c: "p_ok ?E (d_proc st)" "p_runs ?E (d_proc st) = [me \<mapsto> 1]" "p_ctx ?E (d_proc st) = [1 \<mapsto> c1, 2 \<mapsto> c2]"
      "at_point D c1 D_main_created b" "at_point D c2 D_function (stk - 2)" "sp (c_regs c2) = stk - 2"
      "d_rax st = 2" "d_out st = [D_starting_main, D_converted]" "d_exit st = None"
    using cr unfolding created_def by blast
  have r: "p_regs ?E (d_proc st) me = Some (c_regs c1)" using lib.runs_regs [OF c(1), of me 1] c(2,3) by auto
  have ok: "p_ok ?E ?S" "p_runs ?E ?S = [me \<mapsto> 1]" "p_ctx ?E ?S 2 = Some c2"
    using lib.exec_run [OF c(1), of me 1 c1 ?u] c(2,3) by auto
  then obtain S' where S': "p_switch ?E me 2 ?S = Some (0, S')" "p_ok ?E S'" "p_runs ?E S' = [me \<mapsto> 2]" "p_ctx ?E S' 2 = Some c2"
    using lib.switch_free [OF ok(1), of me 2 c2] by auto
  then have "p_regs ?E S' me = Some (c_regs c2)" using lib.runs_regs [of ?E S' me 2] by auto
  moreover have "d_step D me st = Some (st\<lparr>d_frames := (d_frames st)(b \<mapsto> f1\<lparr>d_new_fiber := 2\<rparr>), d_rax := 0, d_proc := S'\<rparr>)"
    using d_step_point [OF inj c(9) r, of D_main_created f1] c(4,7) fr S'(1)
    by (simp add: d_main_step_def d_switch_def d_jump_def d_put_def d_returns_def at_point_def)
  ultimately show ?thesis using that S'(3) c(5,6,8,9) by (simp add: at_point_def)
qed

lemma no_frame_faults:
  assumes "d_exit st = None" "p_regs (d_env D) (d_proc st) me = Some r" "d_frames st (bp r) = None"
  shows "d_step D me st = None" "d_run D me st = None"
  using assms by (simp_all add: d_step_def d_run.simps)

text \<open>From the start to the first instruction of \<open>function\<close>.\<close>

lemma main_to_function:
  assumes init: "d_initial D me b stk st" and mem: "d_memory D me st"
  obtains s1 s2 s3 r where "d_step D me st = Some s1" "d_step D me s1 = Some s2" "d_step D me s2 = Some s3"
    "d_out s3 = [D_starting_main, D_converted]" "d_exit s3 = None" "p_runs (d_env D) (d_proc s3) = [me \<mapsto> 2]"
    "p_regs (d_env D) (d_proc s3) me = Some r" "ip r = d_code D D_function" "sp r = stk - 2" "bp r = stk - 2"
    "dom (d_frames s3) = {b}" "d_run D me st = d_run D me s3"
proof -
  have i: "inj (d_code D)" "d_exit st = None" "d_stack D = Some stk" "dom (d_frames st) = {b}" using init by (auto simp: d_initial_def)
  then obtain f1 where f1: "d_frames st b = Some f1" by (auto simp: dom_def set_eq_iff)
  obtain s1 where 1: "d_step D me st = Some s1" "converted D me b s1" "d_frames s1 = d_frames st"
      "memory_left (e_api (d_env D)) (snd (d_proc s1))"
    by (rule start_leg_1 [OF init mem])
  obtain s2 where 2: "d_step D me s1 = Some s2" "created D me b stk s2" "d_frames s2 = (d_frames s1)(b \<mapsto> f1\<lparr>d_my_fiber := 1\<rparr>)"
    by (rule start_leg_2 [OF 1(2) i(1,3) 1(4), of f1]) (use f1 1(3) in simp)
  obtain s3 r where 3: "d_step D me s2 = Some s3" "p_runs (d_env D) (d_proc s3) = [me \<mapsto> 2]" "p_regs (d_env D) (d_proc s3) me = Some r"
      "ip r = d_code D D_function" "sp r = stk - 2" "bp r = stk - 2" "d_out s3 = [D_starting_main, D_converted]" "d_exit s3 = None"
      "d_frames s3 = (d_frames s2)(b \<mapsto> f1\<lparr>d_my_fiber := 1, d_new_fiber := 2\<rparr>)"
    by (rule start_leg_3 [OF 2(2) i(1), of "f1\<lparr>d_my_fiber := 1\<rparr>"]) (use 2(3) in simp_all)
  have dom: "dom (d_frames s3) = {b}" using 3(9) 2(3) 1(3) i(4) by simp
  have "d_exit s1 = None" "d_exit s2 = None" using 1(2) 2(2) by (simp_all add: converted_def created_def)
  then have "d_run D me st = d_run D me s3"
    using d_run_step [OF i(2) 1(1)] d_run_step [OF _ 2(1)] d_run_step [OF _ 3(1)] by simp
  then show ?thesis using that [OF 1(1) 2(1) 3(1,7,8,2-6) dom] by simp
qed

section \<open>On a frame of its own\<close>

text \<open>What the two functions do from the first entry of \<open>function\<close> on, where both have a frame:
  the lines in the order the switches dictate, and the end through the \<open>exit(0)\<close> of the fiber.\<close>

definition d_output :: "d_line list" where
  "d_output = [D_starting_main, D_converted, D_starting_function, D_ciao, D_bella 0, D_bella (1 / 2), D_bellaaaaaaaaaaa] @
     lines_of D_abcdefg @ lines_of D_hilmnopq"

lemma function_to_exit:
  assumes inj: "inj (d_code D)" and at: "demo_at D me 2 v f1 f2 [D_starting_main, D_converted] st"
    and v: "v_1 v = D_main_1" "v_2 v = D_function" "v_slot v = None" and f: "d_new_fiber f1 = 2"
  shows "\<exists>st'. d_run D me st = Some st' \<and> d_exit st' = Some 0 \<and> d_out st' = d_output \<and>
    map_option d_l2 (d_frames st' (v_b2 v)) = Some 123456"
proof -
  obtain x s1 where 1: "d_run D me st = d_run D me s1"
      "demo_at D me 2 (v\<lparr>v_2 := D_function_alloc, v_slot := Some x\<rparr>) f1 f2 [D_starting_main, D_converted, D_starting_function] s1" "d_rax s1 = 0"
    using storage_leg_1 [OF inj at v(2,3)] by (auto simp: leads_def)
  obtain s2 where 2: "d_run D me s1 = d_run D me s2"
      "demo_at D me 2 (v\<lparr>v_2 := D_function_set, v_slot := Some 123456\<rparr>) f1 (f2\<lparr>d_index := 0\<rparr>)
        [D_starting_main, D_converted, D_starting_function] s2"
    using storage_leg_2 [OF inj 1(2) _ _ 1(3)] by (auto simp: leads_def)
  obtain s3 where 3: "d_run D me s2 = d_run D me s3" "d_rax s3 = 123456"
      "demo_at D me 2 (v\<lparr>v_slot := Some 123456, v_2 := D_function_get\<rparr>) f1 (f2\<lparr>d_index := 0\<rparr>)
        [D_starting_main, D_converted, D_starting_function] s3"
    using storage_leg_3 [OF inj 2(2)] by (auto simp: leads_def)
  let ?v = "v\<lparr>v_slot := Some 123456\<rparr>" and ?f2 = "f2\<lparr>d_index := 0, d_l2 := 123456, d_counter := 0\<rparr>"
  let ?ls = "[D_starting_main, D_converted, D_starting_function, D_ciao]"
  obtain s4 where 4: "d_run D me s3 = d_run D me s4" "demo_at D me 1 (?v\<lparr>v_2 := D_function_1\<rparr>) f1 ?f2 ?ls s4"
    using function_leg_1 [OF inj 3(3)] 3(2) by (auto simp: leads_def)
  obtain s5 where 5: "d_run D me s4 = d_run D me s5"
      "demo_at D me 2 (?v\<lparr>v_2 := D_function_1, v_1 := D_main_2\<rparr>) (f1\<lparr>d_counter := 0, d_x := 1 / 2\<rparr>) ?f2 (?ls @ [D_bella 0]) s5"
    using main_leg_1 [OF inj 4(2) f] v(1) by (auto simp: leads_def)
  obtain s6 where 6: "d_run D me s5 = d_run D me s6"
      "demo_at D me 1 (?v\<lparr>v_1 := D_main_2, v_2 := D_function_2\<rparr>) (f1\<lparr>d_counter := 0, d_x := 1 / 2\<rparr>)
        (?f2\<lparr>d_counter := 20000000, d_x := 3 / 2\<rparr>) (?ls @ [D_bella 0]) s6"
    using function_leg_2 [OF inj 5(2)] by (auto simp: leads_def)
  obtain s7 where 7: "d_run D me s6 = d_run D me s7"
      "demo_at D me 2 (?v\<lparr>v_2 := D_function_2, v_1 := D_main_3\<rparr>) (f1\<lparr>d_counter := 0, d_x := 1\<rparr>)
        (?f2\<lparr>d_counter := 20000000, d_x := 3 / 2\<rparr>) (?ls @ [D_bella 0, D_bella (1 / 2)]) s7"
    using main_leg_2 [OF inj 6(2)] f by (auto simp: leads_def)
  let ?ls = "?ls @ [D_bella 0, D_bella (1 / 2)] @ [D_bellaaaaaaaaaaa] @ lines_of D_abcdefg"
  obtain s8 where 8: "d_run D me s7 = d_run D me s8"
      "demo_at D me 1 (?v\<lparr>v_1 := D_main_3, v_2 := D_function_3\<rparr>) (f1\<lparr>d_counter := 0, d_x := 1\<rparr>)
        (?f2\<lparr>d_counter := 10000000, d_x := 21 / 10\<rparr>) ?ls s8"
    using function_leg_3 [OF inj 7(2)] by (auto simp: leads_def)
  obtain s9 where 9: "d_run D me s8 = d_run D me s9"
      "demo_at D me 2 (?v\<lparr>v_2 := D_function_3, v_1 := D_main_4\<rparr>) (f1\<lparr>d_x := 1, d_counter := 10000000\<rparr>)
        (?f2\<lparr>d_counter := 10000000, d_x := 21 / 10\<rparr>) (?ls @ lines_of D_hilmnopq) s9"
    using main_leg_3 [OF inj 8(2)] f by (auto simp: leads_def)
  have "d_run D me st = Some (s9\<lparr>d_exit := Some 0\<rparr>)"
    using function_leg_4 [OF inj 9(2)] 1(1) 2(1) 3(1) 4(1) 5(1) 6(1) 7(1) 8(1) 9(1) by simp
  then show ?thesis using 9(2) by (simp add: demo_at_def d_output_def)
qed

end
