(* ===== verification/Demo_Examples.thy ===== *)
theory Demo_Examples
  imports Demo_Safety Demo_Main Fiber_Examples
begin

text \<open>
  Concrete processes for the properties of the demonstration programs: the library on
  the platform of \<open>Fiber_Examples\<close>, a first round of \<open>Demo_Multithread\<close>, and the start of
  \<open>Demo_Main\<close>.
\<close>

section \<open>The library on the module\<close>

definition E0 :: cenv where
  "E0 = \<lparr>e_api = K0, e_major = 240, e_lib = \<lparr>fiberlib_initialized = True, ioctl_numbers = map (IO_cmd 240) [0..<7]\<rparr>,
     e_tgid = 1, e_args = (\<lambda>b. b - 100), e_cell = (\<lambda>b. b - 8)\<rparr>"

definition u_main :: uspace where
  "u_main = \<lparr>access_ok = (\<lambda>_ _. True), args_at = Map.empty, cells = Map.empty, writable = (\<lambda>_. True)\<rparr>"

lemma E0_simps [simp]: "e_api E0 = K0" "e_tgid E0 = 1"
  by (simp_all add: E0_def)

lemma E0_ok: "p_ok E0 (u_main, s) \<longleftrightarrow> coro_ok K0 1 s"
  by (simp add: p_ok_def E0_def u_main_def user_ok_def lib_ready_def)

lemma fresh_coro:
  assumes "initial s" "pids_ok s"
  shows "coro_ok K g s" "runs K g s = Map.empty" "ctx K g s = Map.empty"
proof -
  have "proc_of K s g = None" using assms(1) by (simp add: initial_def proc_of_def table_find_def hash_init_def)
  then show "coro_ok K g s" "runs K g s = Map.empty" "ctx K g s = Map.empty"
    using assms initial_inv by (auto simp: coro_ok_def runs_unregistered ctx_unregistered)
qed

text \<open>The run of \<open>Fiber_Examples\<close>: threads 1 and 2 run the fibers 1 and 3, the fiber 2 waits.\<close>

lemma ex3_coro: "coro_ok K0 1 ex3" "runs K0 1 ex3 = [1 \<mapsto> 1, 2 \<mapsto> 3]" "ctx K0 1 ex3 2 \<noteq> None"
proof -
  have p: "pids_ok ex0" by (simp add: pids_ok_def ex0_def task1_def task2_def)
  have t: "task_tgid task1 = 1" "task_tgid task2 = 1" by (simp_all add: task1_def task2_def)
  note c0 = fresh_coro [OF ex0_initial p, of K0 1]
  have "runs K0 1 ex0 1 = None" by (simp add: c0(2))
  note c1 = convert_coro [OF c0(1) K0_ok(1) ex_ids(1) ex_tasks(7) t(1) this ex_runs(1)]
  have "runs K0 1 ex1 1 \<noteq> None" by (simp add: c1(2))
  note c2 = create_coro [OF c1(1) K0_ok(1) ex_ids(2) ex_tasks(1) t(1) this ex_runs(2)]
  have "runs K0 1 ex2 2 = None" by (simp add: c0(2) c1(2) c2(2))
  note c3 = convert_coro [OF c2(1) K0_ok(1) ex_ids(3) ex_tasks(5) t(2) this ex_runs(3)]
  show "coro_ok K0 1 ex3" "runs K0 1 ex3 = [1 \<mapsto> 1, 2 \<mapsto> 3]" "ctx K0 1 ex3 2 \<noteq> None"
    using c0(2) c1(2) c2(2,6) c3(1,2,6) by simp_all
qed

lemma ex3_lib: "p_ok E0 (u_main, ex3)" "p_runs E0 (u_main, ex3) = [1 \<mapsto> 1, 2 \<mapsto> 3]" "p_ctx E0 (u_main, ex3) 2 \<noteq> None"
    "p_regs E0 (u_main, ex3) 1 = Some (user_regs task1)"
  using ex3_coro by (simp_all add: E0_ok p_runs_def p_ctx_def p_regs_def task_of_def task1_def)

section \<open>A round of the program with threads\<close>

definition M0 :: menv where
  "M0 = \<lparr>m_env = E0, code_at = (\<lambda>p. case p of
       MainEntry \<Rightarrow> 1 | MainConverted \<Rightarrow> 2 | MainLoop \<Rightarrow> 3 | MainJoin \<Rightarrow> 4
     | ThreadEntry \<Rightarrow> 5 | ThreadConverted \<Rightarrow> 6 | ThreadCreated \<Rightarrow> 7 | ThreadAgain \<Rightarrow> 8 | ThreadBack \<Rightarrow> 9
     | FooEntry \<Rightarrow> 10 | FooAgain \<Rightarrow> 11 | FooBack \<Rightarrow> 12 | FooAllocated \<Rightarrow> 13 | FooSet \<Rightarrow> 14 | FooGot \<Rightarrow> 15 | FooFreed \<Rightarrow> 16
     | AlarmEntry \<Rightarrow> 17 | AlarmBack \<Rightarrow> 18), info_at = (\<lambda>b i. b + of_nat (16 * i))\<rparr>"

definition task_main :: task where
  "task_main = \<lparr>task_pid = 1, task_tgid = 1, utime = 0,
     user_regs = \<lparr>sp = 4096, bp = 4096, ip = 1, di = 0, si = 0, other_regs = []\<rparr>, fx = []\<rparr>"

definition k_main :: kstate where
  "k_main = \<lparr>heap = Map.empty, processes = hash_init, struct_process_lock = False, allocs = 0,
     slept_in_atomic = False, tasks = [1 \<mapsto> task_main]\<rparr>"

definition mt0 :: mt where
  "mt0 = \<lparr>frames = [4096 \<mapsto> blank], infos = (\<lambda>_. \<lparr>ti_data = 0, ti_data2 = 0\<rparr>), rax = (\<lambda>_. 0), out = [],
     armed = False, exited = False, proc = (u_main, k_main)\<rparr>"

text \<open>A schedule: which thread takes the next step, and what the C library decides.\<close>

fun mt_run :: "menv \<Rightarrow> (pid_t \<times> mt_choice) list \<Rightarrow> mt \<Rightarrow> mt option" where
  "mt_run M [] st = Some st"
| "mt_run M ((me, ch) # xs) st = (if p_room (m_env M) me (proc st) then mt_step M ch me st \<bind> mt_run M xs else None)"

lemma mt_run_reaches: "mt_run M xs st = Some st' \<Longrightarrow> (mt_next M)\<^sup>*\<^sup>* st st'"
proof (induction xs arbitrary: st)
  case (Cons x xs)
  then show ?case
    by (cases x) (auto simp: bind_eq_Some_conv split: if_splits intro: mt_next.run converse_rtranclp_into_rtranclp)
qed simp

definition schedule0 :: "(pid_t \<times> mt_choice) list" where
  "schedule0 = [(1, NoChoice), (1, NoChoice), (1, Thread 2 8192), (2, NoChoice), (2, Stack (Some 65536))] @ replicate 11 (2, NoChoice)"

lemma schedule0_returned: "map_option (\<lambda>st. returned (out st) 73720) (mt_run M0 schedule0 mt0) = Some [0]"
  by code_simp

lemma k_main_coro: "coro_ok K0 1 k_main" "runs K0 1 k_main = Map.empty" "ctx K0 1 k_main = Map.empty"
  by (simp_all add: fresh_coro k_main_def initial_def pids_ok_def task_main_def)

lemma k_main_lib: "p_ok E0 (u_main, k_main)" "p_runs E0 (u_main, k_main) = Map.empty" "p_ctx E0 (u_main, k_main) = Map.empty"
    "p_regs E0 (u_main, k_main) = [1 \<mapsto> user_regs task_main]"
  using k_main_coro by (simp_all add: E0_ok p_runs_def p_ctx_def p_regs_def task_of_def k_main_def task_main_def fun_eq_iff)

lemma mt0_initial: "mt_initial M0 mt0"
proof -
  have "inj (code_at M0)" by (rule injI) (auto simp: M0_def split: mt_point.splits)
  then show ?thesis
    using k_main_lib by (auto simp: mt_initial_def mt0_def M0_def task_main_def intro!: exI [of _ 1])
qed

section \<open>The start of the program with one thread\<close>

definition D0 :: denv where
  "D0 = \<lparr>d_env = E0, d_code = (\<lambda>p. case p of
       D_main \<Rightarrow> 1 | D_main_converted \<Rightarrow> 2 | D_main_created \<Rightarrow> 3 | D_main_1 \<Rightarrow> 4 | D_main_2 \<Rightarrow> 5 | D_main_3 \<Rightarrow> 6 | D_main_4 \<Rightarrow> 7
     | D_function \<Rightarrow> 8 | D_function_alloc \<Rightarrow> 9 | D_function_set \<Rightarrow> 10 | D_function_get \<Rightarrow> 11 | D_function_1 \<Rightarrow> 12
     | D_function_2 \<Rightarrow> 13 | D_function_3 \<Rightarrow> 14), d_stack = Some 65536, d_char = (\<lambda>b. b - 1)\<rparr>"

definition d0 :: demo where
  "d0 = \<lparr>d_frames = [4096 \<mapsto> d_blank], d_rax = 0, d_out = [], d_exit = None, d_proc = (u_main, k_main)\<rparr>"

lemma d0_initial: "d_initial D0 1 4096 65536 d0"
proof -
  have "inj (d_code D0)" by (rule injI) (auto simp: D0_def split: d_point.splits)
  then show ?thesis
    using k_main_lib by (simp add: d_initial_def d0_def D0_def) (simp add: task_main_def)
qed

lemma d0_memory: "d_memory D0 1 d0"
  by code_simp

end
