(* ===== verification/Demo_Props.thy ===== *)
theory Demo_Props
  imports Demo_Examples
begin

text \<open>
  Properties of the library as programs use it, and of the two demonstration programs.
\<close>

section \<open>Fibers are coroutines\<close>

text \<open>\<^bold>\<open>C7\<close> (contexts). \<open>SwitchToFiber\<close> as a program calls it always returns, with 0 or -1, and never
  changes the context of any fiber: neither the registers and the FPU registers, of
  the caller's fiber, of the target or of any other, nor the local storage. All that
  changes is which fiber the calling thread runs: the one it names, if the caller is a
  fiber, the named fiber exists and no thread runs it, and otherwise nothing.\<close>

theorem switch_keeps_contexts:
  assumes ok: "p_ok E S" and me: "p_regs E S me \<noteq> None"
  shows "\<exists>r S'. p_switch E me fid S = Some (r, S') \<and> p_ok E S' \<and> p_ctx E S' = p_ctx E S \<and>
    (if p_runs E S me \<noteq> None \<and> p_ctx E S fid \<noteq> None \<and> fid \<notin> ran (p_runs E S)
     then r = 0 \<and> p_runs E S' = (p_runs E S)(me \<mapsto> fid) else r = -1 \<and> p_runs E S' = p_runs E S)"
proof (cases "p_runs E S me \<noteq> None \<and> p_ctx E S fid \<noteq> None \<and> fid \<notin> ran (p_runs E S)")
  case True
  then show ?thesis using lib.switch_free [OF ok, of me fid] by force
next
  case False
  then show ?thesis using lib.switch_busy [OF ok me, of fid] by fastforce
qed

theorem switch_keeps_contexts_witness:
  "\<exists>S'. p_switch E0 1 2 (u_main, ex3) = Some (0, S') \<and> p_ctx E0 S' = p_ctx E0 (u_main, ex3) \<and> p_runs E0 S' = [1 \<mapsto> 2, 2 \<mapsto> 3]"
proof -
  have "2 \<notin> ran (p_runs E0 (u_main, ex3))" by (auto simp: ex3_lib ran_def split: if_splits)
  moreover have "[1 \<mapsto> 1, 2 \<mapsto> 3, 1 \<mapsto> 2] = [1 :: pid_t \<mapsto> 2, 2 \<mapsto> 3 :: pid_t]" by (auto simp: fun_eq_iff)
  ultimately show ?thesis
    using switch_keeps_contexts [OF ex3_lib(1), of 1 2] ex3_lib by auto
qed

text \<open>\<^bold>\<open>C8\<close> (migration). A fiber that one thread leaves can be continued by another thread of the
  process, which finds exactly the registers the first one had at its switch.\<close>

theorem fiber_changes_thread:
  assumes "p_ok E S" "p_runs E S me = Some g" "p_regs E S me = Some r"
    and "p_ctx E S fid \<noteq> None" "fid \<notin> ran (p_runs E S)" "p_runs E S you = Some h" "you \<noteq> me"
  shows "\<exists>S1 S2. p_switch E me fid S = Some (0, S1) \<and> p_switch E you g S1 = Some (0, S2) \<and> p_regs E S2 you = Some r \<and>
    p_runs E S2 = (p_runs E S)(me \<mapsto> fid, you \<mapsto> g) \<and> p_ctx E S2 = p_ctx E S"
  using lib.continued_by_another [OF assms] by blast

theorem fiber_changes_thread_witness:
  "\<exists>S1 S2. p_switch E0 1 2 (u_main, ex3) = Some (0, S1) \<and> p_switch E0 2 1 S1 = Some (0, S2) \<and>
    p_regs E0 S2 2 = Some (user_regs task1)"
proof -
  have "2 \<notin> ran (p_runs E0 (u_main, ex3))" by (auto simp: ex3_lib ran_def split: if_splits)
  then show ?thesis
    using fiber_changes_thread [OF ex3_lib(1) _ ex3_lib(4,3), of 1 2 3] ex3_lib(2) by auto
qed

section \<open>The demonstration programs\<close>

text \<open>\<^bold>\<open>C9\<close> (isolation in \<^verbatim>\<open>multithread.c\<close>). However the ten threads of the program and the alarm signal
  interleave, and whichever thread happens to run which fiber, the storage of every
  fiber is its own: no allocation of a slot fails, so that the program never exits,
  no release of a slot fails, and the values a fiber reads back and prints are 0, 1, 2,
  and so on, without gap or repetition (until the counter wraps).\<close>

theorem multithread_storage_safe:
  assumes "mt_initial M st0" "(mt_next M)\<^sup>*\<^sup>* st0 st"
  shows "\<not> exited st \<and> (\<forall>b d i. (b, Fiber_cannot_free d i) \<notin> set (out st)) \<and>
    (\<forall>b. \<exists>n. returned (out st) b = map (\<lambda>i. sint (of_nat i :: longlong)) [0..<n])"
proof -
  note inv = minvD [OF demo.reach_inv [OF assms]]
  show ?thesis using inv(3,4) dinvD(4) [OF inv(5)] by (simp add: quiet_def round_values_def)
qed

theorem multithread_storage_safe_witness:
  "\<exists>st n. mt_run M0 schedule0 mt0 = Some st \<and> returned (out st) 73720 = [0] \<and> \<not> exited st \<and>
    returned (out st) 73720 = map (\<lambda>i. sint (of_nat i :: longlong)) [0..<n]"
proof -
  obtain st where st: "mt_run M0 schedule0 mt0 = Some st" "returned (out st) 73720 = [0]"
    using schedule0_returned by auto
  then show ?thesis
    using multithread_storage_safe [OF mt0_initial mt_run_reaches [OF st(1)]] by metis
qed

text \<open>\<^bold>\<open>C10\<close> (the stack of \<^verbatim>\<open>main.c\<close>). While \<open>kmalloc\<close> and \<open>posix_memalign\<close> find memory, the program converts
  its thread, creates its fiber and switches to it, and has printed two lines when the
  fiber is about to start. Its stack pointer and the base of its frame are then two
  bytes below the block of six bytes that was allocated for the stack, in memory that is
  not the program's: the run goes no further.\<close>

theorem main_leaves_its_stack:
  assumes "d_initial D me b stk st" "d_memory D me st"
  shows "\<exists>s1 s2 s3 r. d_step D me st = Some s1 \<and> d_step D me s1 = Some s2 \<and> d_step D me s2 = Some s3 \<and>
    d_out s3 = [D_starting_main, D_converted] \<and> p_runs (d_env D) (d_proc s3) = [me \<mapsto> 2] \<and>
    p_regs (d_env D) (d_proc s3) me = Some r \<and> ip r = d_code D D_function \<and>
    sp r = stk - 2 \<and> bp r = stk - 2 \<and> \<not> in_block stk 6 (sp r) \<and> d_step D me s3 = None \<and> d_run D me st = None"
proof -
  have b: "b \<noteq> stk - 2" using assms(1) by (simp add: d_initial_def)
  obtain s1 s2 s3 r where s: "d_step D me st = Some s1" "d_step D me s1 = Some s2" "d_step D me s2 = Some s3"
      "d_out s3 = [D_starting_main, D_converted]" "d_exit s3 = None" "p_runs (d_env D) (d_proc s3) = [me \<mapsto> 2]"
      "p_regs (d_env D) (d_proc s3) me = Some r" "ip r = d_code D D_function" "sp r = stk - 2" "bp r = stk - 2"
      "dom (d_frames s3) = {b}" "d_run D me st = d_run D me s3"
    by (rule main_to_function [OF assms])
  then have "d_frames s3 (bp r) = None" using b by (metis domIff singletonD)
  note faults = no_frame_faults [OF s(5,7) this]
  show ?thesis using s faults by (intro exI [of _ s1] exI [of _ s2] exI [of _ s3] exI [of _ r]) simp
qed

theorem main_leaves_its_stack_witness:
  "\<exists>s1 s2 s3 r. d_step D0 1 d0 = Some s1 \<and> d_step D0 1 s1 = Some s2 \<and> d_step D0 1 s2 = Some s3 \<and>
    p_regs E0 (d_proc s3) 1 = Some r \<and> sp r = 65534 \<and> d_step D0 1 s3 = None"
  using main_leaves_its_stack [OF d0_initial d0_memory] by (simp add: D0_def) blast

end
