(* ===== verification/Spec2Isabelle.thy ===== *)
theory Spec2Isabelle
  imports Fiber_Props Storage_Props Interface_Props Proc_Props Concurrency_Props Creation_Props Demo_Props
begin

text \<open>
  \<^bold>\<open>A verification of the fibers kernel module and its user library.\<close>

  The program (\<^verbatim>\<open>src/module\<close>, \<^verbatim>\<open>src/fiberlib\<close>) gives Linux processes the fibers of Windows: a
  thread converts itself to a fiber, creates further fibers, switches between
  them, and keeps values in fiber local storage. The module does the work in the
  kernel: it keeps a table of processes, each with a table of its converted threads
  and one of its fibers, and a switch exchanges the saved user registers and the FPU
  registers of the calling task with those stored in a fiber. Processes talk to it
  by \<open>ioctl\<close> on \<^verbatim>\<open>/dev/fibers\<close>; the command numbers depend on the major number of the
  device and are read from the device by the library. Probes on \<open>do_exit\<close>,
  \<open>finish_task_switch\<close> and two functions of the proc file system clean up after dead
  threads, account the time, and show the fibers under \<^verbatim>\<open>/proc/PID/fibers\<close>.

  \<^bold>\<open>The theories and what they model.\<close>
  \<^item> \<open>Fibers_Prelude\<close>: C types as words, option monad, lists, words.
  \<^item> \<open>Kernel_Api\<close>: the services of the kernel. The hash function, the allocator and
    whether freed memory can be read are the parameters \<open>kapi\<close> with \<open>kapi_ok\<close> as their
    contract; hash tables (locale \<open>dictionary\<close>, interpretation \<open>ktab\<close>) and bitmaps are
    defined. \<open>C_Strings\<close>: \<open>snprintf\<close>, \<open>strtol\<close>, \<open>strtok\<close>, \<open>strnlen\<close> as far as they are used, with
    the round trip of printing and reading a number.
  \<^item> \<open>Fiber_State\<close> (\<^verbatim>\<open>fibers.h\<close>, \<^verbatim>\<open>init.h\<close>): the structures as records in one heap of live and
    freed objects, \<open>kmalloc\<close> and \<open>kfree\<close>, the three constructors.
  \<^item> \<open>Fiber_Inv\<close> (look-ups of \<^verbatim>\<open>fibers.c\<close>): the invariant \<open>kinv\<close> of the data structures and
    its frame rules; the look-ups are map look-ups.
  \<^item> \<open>Fiber_Ops\<close>, \<open>Fls\<close> (\<^verbatim>\<open>fibers.c\<close>): conversion, creation, switch; local storage (locale
    \<open>local_storage\<close>, interpretation \<open>kfls\<close>). \<open>Fiber_Exit\<close> (\<^verbatim>\<open>fibers.c\<close>, \<^verbatim>\<open>kprobes.c\<close>): \<open>process_cleanup\<close>,
    \<open>exit_cleanup\<close>. \<open>Fiber_Timer\<close> (\<^verbatim>\<open>kprobes.c\<close>): \<open>fiber_timer\<close> on a per-CPU state.
  \<^item> \<open>Ioctl\<close> (\<^verbatim>\<open>ioctl.c\<close>): the dispatcher over a model of the caller's memory. \<open>Device\<close>
    (\<^verbatim>\<open>device.c\<close>, \<^verbatim>\<open>module.c\<close>, \<^verbatim>\<open>kprobes.c\<close>): the device file (locale \<open>text_file\<close>, interpretation
    \<open>dev_file\<close>), registration with its error paths, loading and unloading. \<open>Proc_Fs\<close>
    (\<^verbatim>\<open>proc.c\<close>) and \<open>Proc_Probes\<close> (\<^verbatim>\<open>kprobes.c\<close>, \<^verbatim>\<open>kprobes.h\<close>): the proc directory; \<open>Proc_Inode\<close>
    (\<^verbatim>\<open>kprobes.h\<close>, \<^verbatim>\<open>proc.h\<close>): from a file over its inode to its task, and the tables of
    operations. \<open>Fiberlib\<close> (\<^verbatim>\<open>fiberlib.c\<close>): the library.
  \<^item> \<open>Fiber_System\<close>: the module as a transition system of handlers (locale
    \<open>invariant_system\<close>, interpretation \<open>module\<close>). \<open>Fiber_Spec\<close>: the abstract machine of
    processes, fibers and running threads, and that every handler refines it.
  \<^item> \<open>Fiber_Steps\<close>, \<open>Fiber_Concurrent\<close>: the switch and the conversion cut into atomic
    steps, their interleaving (interpretation \<open>switches\<close>), and the protocol by which
    fibers change hands. \<open>Fiber_Creation\<close>: the same for the creation (interpretation
    \<open>creations\<close>), with the insertion into the table in two steps.
  \<^item> \<open>Fiber_Coroutines\<close>: the contexts of a process, the view in which a switch changes nothing
    but who runs. \<open>Coroutine_Library\<close>: that view as the contract a program relies on (locale
    \<open>coroutines\<close>, extended by \<open>fiber_library\<close>), and its interpretation \<open>lib\<close> on the library calls
    over the module.
  \<^item> \<open>Demo_Multithread\<close> (\<^verbatim>\<open>multithread.c\<close>), \<open>Demo_Main\<close> (\<^verbatim>\<open>main.c\<close>): the two demonstration programs as
    clients of that contract; \<open>Demo_Safety\<close>: the invariant of the first (interpretation
    \<open>demo\<close>).
  \<^item> \<open>Fiber_Examples\<close>, \<open>Demo_Examples\<close>: a concrete platform, short runs and processes, for the
    witnesses. \<open>Fiber_Props\<close>, \<open>Storage_Props\<close>, \<open>Interface_Props\<close>, \<open>Proc_Props\<close>, \<open>Concurrency_Props\<close>,
    \<open>Creation_Props\<close>, \<open>Demo_Props\<close> and this theory: the properties.

  \<^bold>\<open>How the model corresponds to the code.\<close> A function of the module becomes a function
  of the same name from the platform \<open>K\<close>, the task \<open>me\<close> that executes it and the state to
  its C result and the new state. \<^term>\<open>None\<close> is a fault: a dereference of NULL or of
  freed memory where that is not readable, a write outside an array, a lock taken
  twice. Early returns and error numbers are ordinary results. Integers are words
  of their C width. \<open>task_pt_regs(current)\<close> and the FPU registers are fields of the task;
  the registers the module does not name are a list it copies. A demonstration program
  is at a program point, the value of its instruction pointer, so that a switch moves
  it by changing registers; a step runs to the next call of the library, its local
  variables are found by the base pointer, in frames that exist only in memory the
  program owns, and what the C library decides (new stacks
  and threads, the delivery of a signal) is chosen by the environment.

  \<^bold>\<open>What is shown.\<close> The invariant holds in every state the module can reach, every
  handler refines the abstract machine, no fiber is run by two threads, a lock is
  held exactly while its fiber is run, and system calls return while there is
  memory. Switching saves and restores contexts exactly; created fibers start their
  function; the fiber of a dying thread can be resumed by another one; the end of a
  process frees all and only its objects, where it does not fault. Local storage is a store. The library and
  the module agree on the commands, where the library does not overrun its buffer. Interleaved switches are safe and wait-free, and
  interleaved creations never hand out a number twice. Seen through the library a
  switch changes no context; fibers move between threads; \<^verbatim>\<open>multithread.c\<close> never confuses the
  storage of its fibers, in whatever interleaving. The heap is well typed. Every name listed under \<^verbatim>\<open>/proc\<close> can be read. Where
  the code does something its authors cannot have meant, the property states what it
  does: the use of freed memory in the clean-ups, the allocation that may sleep under
  a spin lock, the unchecked allocation, the preemption counter, the time counted
  twice, the reads outside arrays and buffers, the stack of \<^verbatim>\<open>main.c\<close> that has no room for its
  fiber, and the races between conversion and switch, among creations, and between a
  listing and a creation.

  \<^bold>\<open>Bounds.\<close> Fiber numbers are handed out from 1 and cut to 32 bits: steps of the
  system have \<open>ids_left\<close>, fewer than 2^31 fibers per process. \<open>memory_left\<close> says that the
  allocator has three more blocks, the most a handler asks for. The reading loop of
  the library runs on fuel, and two rounds are enough for the device. In \<open>reachable\<close> each
  handler is one step; only the switch, the conversion and the creation are also
  studied in finer steps, over a sequentially consistent memory. The loops of \<^verbatim>\<open>main.c\<close> are
  partial functions, proved to return (its run ends before, at the stack of its fiber); its counters stay below \<open>2 ^ 25\<close>, and its floating
  point values are rational numbers, exact but for one that is only compared. Calls of
  the library are atomic in the programs.

  \<^bold>\<open>Not modelled.\<close> Kernel messages; the inside of the FPU image; the result register
  the system call return path writes after a switch; the look-up of kernel symbols by
  name; read-copy-update grace periods; the preemption counter that a held spin lock
  raises (it is modelled in \<open>fiber_timer\<close> only); the references that \<open>get_pid_task\<close> takes; clean-ups
  that interleave with other calls; the file descriptor of the library and a failure of
  \<open>open\<close>; the memory of stacks beyond the local variables; the benchmark and the tests, which
  only call the library.
\<close>

section \<open>The module in all its runs\<close>

lemma ex1_reachable: "reachable K0 244 ex1"
proof -
  have "command 244 62464 = Some 0" by code_simp
  then have "fibers_ioctl K0 244 1 62464 0 u0 ex0 = Some (1, u0, ex1)"
    using ex_runs(1) by (simp add: ioctl_dispatch [OF ex_tasks(7)] task1_def)
  then have "msteps K0 244 ex0 ex1" using call_ioctl [OF ex_ids(1)] unfolding msteps_def by blast
  then show ?thesis using ex0_initial by (auto simp: reachable_def)
qed

definition ex5 :: kstate where
  "ex5 = snd (the (do_ConvertThreadToFiber K0 2 2 ex1))"

lemma ex5_step: "mstep K0 244 (L_ioctl 2 62464 0 u0 2) ex1 ex5"
proof -
  have "map_option fst (do_ConvertThreadToFiber K0 2 2 ex1) = Some 2" by code_simp
  then have r: "do_ConvertThreadToFiber K0 2 2 ex1 = Some (2, ex5)" by (auto simp: ex5_def)
  have "command 244 62464 = Some 0" by code_simp
  then have i: "fibers_ioctl K0 244 2 62464 0 u0 ex1 = Some (2, u0, ex5)"
    using r by (simp add: ioctl_dispatch [OF ex_tasks(4)] task2_def)
  have "ids_left K0 2 ex1" by code_simp
  then show ?thesis using i by (rule call_ioctl)
qed

lemma ex5_reachable: "reachable K0 244 ex5"
proof -
  have "msteps K0 244 ex1 ex5" using ex5_step by (auto simp: msteps_def)
  then show ?thesis using ex1_reachable by (auto simp: reachable_def intro: rtranclp.rtrancl_into_rtrancl)
qed

text \<open>\<^bold>\<open>C1\<close> (invariant). In every state the module can reach from its loading, by any sequence of
  system calls, exits, closes, context switches and listings of any tasks, the data
  structures are consistent: the three levels of tables hold each object once under
  its key, threads and fibers point at each other, the lock of a fiber is held
  exactly while it is attached, the counters count, nothing that is allocated is lost,
  and the lock of the process table is free.\<close>

theorem reachable_invariant:
  assumes "kapi_ok K" "reachable K major s"
  shows "kinv K s"
  using module.reach_inv [of _ K major s] assms by (auto simp: reachable_def)

theorem reachable_invariant_witness: "kinv K0 ex5"
  by (rule reachable_invariant [OF K0_ok(1) ex5_reachable])

text \<open>The pointers of an object point at live objects of the type the C declaration gives
  them. Only \<open>attached_thread\<close> may be NULL.\<close>

fun well_typed :: "kstate \<Rightarrow> kobj \<Rightarrow> bool" where
  "well_typed s (OProcess p) \<longleftrightarrow> (\<forall>t \<in> nodes (threads p). live_thread s t \<noteq> None) \<and> (\<forall>f \<in> nodes (fibers p). live_fiber s f \<noteq> None)"
| "well_typed s (OThread th) \<longleftrightarrow> parent th \<bind> live_process s \<noteq> None \<and> selected_fiber th \<bind> live_fiber s \<noteq> None"
| "well_typed s (OFiber fb) \<longleftrightarrow> parent_process fb \<bind> live_process s \<noteq> None \<and>
     (attached_thread fb = NULL \<or> attached_thread fb \<bind> live_thread s \<noteq> None)"

lemma kinv_well_typed:
  assumes inv: "kinv K s" and x: "heap s x = Some (Live obj)"
  shows "well_typed s obj"
proof -
  obtain a where a: "a \<in> nodes (processes s)" "x \<in> owned s a" using inv x by (auto simp: kinv_def is_live_def)
  obtain p where p: "live_process s a = Some p" "threads_ok K s a p" "fibers_ok K s a p" by (rule inv_process [OF inv a(1)])
  consider "x = a" | "x \<in> nodes (threads p)" | "x \<in> nodes (fibers p)" using a(2) p(1) by (auto simp: owned_def)
  then show ?thesis
  proof cases
    case 1
    then have "obj = OProcess p" using p(1) x by (simp add: live_process_def split: option.splits kobj.splits)
    then show ?thesis using p(2,3) by (force simp: threads_ok_def fibers_ok_def)
  next
    case 2
    then obtain th where "live_thread s x = Some th" "thread_ok s a p x th" using p(2) by (auto simp: threads_ok_def)
    then show ?thesis using x p(1) by (auto simp: live_thread_def thread_ok_def split: option.splits kobj.splits)
  next
    case 3
    then obtain fb where "live_fiber s x = Some fb" "fiber_ok s a p x fb" using p(3) by (auto simp: fibers_ok_def)
    then show ?thesis using x p(1) by (auto simp: live_fiber_def fiber_ok_def split: option.splits kobj.splits)
  qed
qed

text \<open>\<^bold>\<open>C3\<close> (types). The heap is well typed in every state the module can reach: the process table
  holds processes, and every pointer of every allocated object, \<open>parent\<close>, \<open>selected_fiber\<close>,
  \<open>parent_process\<close>, a set \<open>attached_thread\<close> and the nodes of the tables of a process, points
  at an allocated object of the right structure. No pointer dangles.\<close>

theorem heap_well_typed:
  assumes "kapi_ok K" "reachable K major s"
  shows "(\<forall>a \<in> nodes (processes s). live_process s a \<noteq> None) \<and> (\<forall>x obj. heap s x = Some (Live obj) \<longrightarrow> well_typed s obj)"
  using reachable_kinv [OF assms] kinv_well_typed by (force elim: inv_process)

theorem heap_well_typed_witness: "\<exists>th. live_thread ex5 2 = Some th \<and> well_typed ex5 (OThread th)"
proof -
  have "map_option (\<lambda>th. selected_fiber th) (live_thread ex5 2) = Some (Some 3)" by code_simp
  then obtain th where th: "live_thread ex5 2 = Some th" by auto
  then have "heap ex5 2 = Some (Live (OThread th))"
    by (simp add: live_thread_def split: option.splits cell.splits kobj.splits)
  then show ?thesis using heap_well_typed [OF K0_ok(1) ex5_reachable] th by blast
qed

text \<open>\<^bold>\<open>C2\<close> (refinement). Every step of the module is a step of the abstract machine that knows only
  which fibers a process has and which thread runs which of them, and the handler
  and its result determine what the step can be: a system call of a thread is the
  conversion, creation or switch of that very thread that the command names, with
  the number that is returned, or nothing where it failed; an exit takes the thread
  from its fiber while other threads run fibers, ends the process with the last one, and
  is nothing for a thread that runs none; a close ends the process if it has fibers; and
  nothing else changes the abstract state.\<close>

theorem module_refines_spec:
  assumes "kapi_ok K" "reachable K major s" "mstep K major l s s'"
  shows "\<exists>e \<in> step_events K major s l. aspec (abs_state K s) e (abs_state K s')"
  using step_refines [OF reachable_kinv [OF assms(1,2)] assms(1,3)] .

theorem module_refines_spec_witness: "aspec (abs_state K0 ex1) (Convert 1 2 2) (abs_state K0 ex5)"
proof -
  have "command 244 62464 = Some 0" by code_simp
  then have "step_events K0 244 ex1 (L_ioctl 2 62464 0 u0 2) = {Convert 1 2 2}"
    by (simp add: step_events_def ioctl_events_def task2_def)
  then show ?thesis using module_refines_spec [OF K0_ok(1) ex1_reachable ex5_step] by simp
qed

text \<open>\<^bold>\<open>C4\<close> (mutual exclusion). No fiber is ever run by two threads.\<close>

theorem fibers_run_on_one_thread:
  assumes K: "kapi_ok K" and s: "reachable K major s"
    and t: "live_thread s t = Some th" "live_thread s t' = Some th'" and f: "selected_fiber th = selected_fiber th'"
  shows "t = t'"
  by (rule selected_once [OF reachable_kinv [OF K s] t f])

theorem fibers_run_on_one_thread_witness:
  "map_option selected_fiber (live_thread ex5 2) = Some (Some 3) \<and> map_option selected_fiber (live_thread ex5 4) \<noteq> Some (Some 3)"
proof -
  have two: "map_option (\<lambda>th. selected_fiber th) (live_thread ex5 2) = Some (Some 3)" by code_simp
  then obtain th where th: "live_thread ex5 2 = Some th" "selected_fiber th = Some 3" by auto
  have "map_option selected_fiber (live_thread ex5 4) \<noteq> Some (Some 3)"
  proof
    assume "map_option selected_fiber (live_thread ex5 4) = Some (Some 3)"
    then obtain th' where "live_thread ex5 4 = Some th'" "selected_fiber th' = Some 3" by auto
    then show False using fibers_run_on_one_thread [OF K0_ok(1) ex5_reachable th(1)] th(2) by fastforce
  qed
  then show ?thesis using th by simp
qed

text \<open>\<^bold>\<open>C6\<close> (locks). The lock of a fiber is held exactly while some thread runs the fiber: no lock is
  left behind, so that a fiber nobody runs can always be switched to.\<close>

theorem lock_held_iff_running:
  assumes K: "kapi_ok K" and s: "reachable K major s" and f: "live_fiber s f = Some fb"
  shows "fiber_lock fb \<longleftrightarrow> (\<exists>t th. live_thread s t = Some th \<and> selected_fiber th = Some f)"
  by (rule lock_iff_selected [OF reachable_kinv [OF K s] f])

theorem lock_held_iff_running_witness: "map_option fiber_lock (live_fiber ex5 3) = Some True"
proof -
  have "map_option (\<lambda>th. selected_fiber th) (live_thread ex5 2) = Some (Some 3)"
    "map_option fiber_id (live_fiber ex5 3) = Some 1" by code_simp+
  then obtain th fb where "live_thread ex5 2 = Some th" "selected_fiber th = Some 3" "live_fiber ex5 3 = Some fb" by auto
  then show ?thesis using lock_held_iff_running [OF K0_ok(1) ex5_reachable, of 3 fb] by auto
qed

text \<open>\<^bold>\<open>C16\<close> (no fault). While the allocator has three more blocks, every system call of every task
  returns, in every state the module can reach, whatever the command, the argument
  and the memory of the caller are.\<close>

theorem ioctl_never_faults:
  assumes "kapi_ok K" "reachable K major s" "memory_left K s" "tasks s me = Some cur"
  shows "\<exists>r u' s'. fibers_ioctl K major me cmd arg u s = Some (r, u', s')"
  using ioctl_returns [OF reachable_kinv [OF assms(1,2)] assms(1,3,4)] .

theorem ioctl_never_faults_witness: "\<exists>r u' s'. fibers_ioctl K0 244 1 62466 16 u0 ex1 = Some (r, u', s')"
proof -
  have "memory_left K0 ex1" by code_simp
  then show ?thesis by (rule ioctl_never_faults [OF K0_ok(1) ex1_reachable _ ex_tasks(1)])
qed

end
